theory Spec2Isabelle
  imports Main
begin

section \<open>The document tree of the host editor\<close>

text \<open>
  The indent command of \<^verbatim>\<open>list-command-indent.ts\<close> works on the document model of
  the host editor (the prosemirror packages the file imports). The host is an external
  collaborator whose code is not part of the repository, so this section embeds the part
  of its documented behaviour that the command calls: nodes and fragments, resolved
  positions, slices, the replace algorithm, steps and position maps.

  A node is either a text node or an element with a type, attributes (kept opaque as a
  number) and an ordered sequence of children. Marks are not modelled.
\<close>

datatype ntype = Doc | Paragraph | BulletList | OrderedList | TaskList | ListItem | TaskListItem

datatype node = Text string | Node ntype nat "node list"

datatype error = RangeError | ReplaceError | TransformError | NotModelled

fun isText :: "node \<Rightarrow> bool" where
  "isText (Text s) = True"
| "isText (Node t a cs) = False"

fun typeOf :: "node \<Rightarrow> ntype option" where
  "typeOf (Text s) = None"
| "typeOf (Node t a cs) = Some t"

fun content :: "node \<Rightarrow> node list" where
  "content (Text s) = []"
| "content (Node t a cs) = cs"

fun textOf :: "node \<Rightarrow> string" where
  "textOf (Text s) = s"
| "textOf (Node t a cs) = []"

text \<open>\<^verbatim>\<open>node.copy(content)\<close>: same type and attributes, new content.\<close>

fun copy :: "node \<Rightarrow> node list \<Rightarrow> node" where
  "copy (Node t a old) cs = Node t a cs"
| "copy (Text s) cs = Text s"

text \<open>
  \<^verbatim>\<open>nodeSize\<close>: a text node counts its characters, every other node of this schema
  has content and counts its content plus the opening and the closing token.
\<close>

fun nodeSize :: "node \<Rightarrow> nat" where
  "nodeSize (Text s) = length s"
| "nodeSize (Node t a cs) = 2 + sum_list (map nodeSize cs)"

definition fragSize :: "node list \<Rightarrow> nat" where
  "fragSize cs = sum_list (map nodeSize cs)"

definition childCount :: "node \<Rightarrow> nat" where
  "childCount n = length (content n)"

text \<open>\<^verbatim>\<open>node.child(i)\<close> raises a RangeError outside the children.\<close>

definition child :: "node \<Rightarrow> int \<Rightarrow> error + node" where
  "child n i = (if 0 \<le> i \<and> i < int (childCount n) then Inr (content n ! nat i) else Inl RangeError)"

subsection \<open>The schema of the list extension\<close>

text \<open>
  Modelled from the spec: the helpers \<^verbatim>\<open>isListNode\<close> and \<^verbatim>\<open>isListItemNode\<close> of
  \<^verbatim>\<open>list-utils\<close> are imported by the command but are not among the sources. The spec's
  glossary: a list node is a container tagged by list kind (ordered, unordered, task), a
  list-item node is the block container that is a child of a list.
\<close>

fun isListType :: "ntype \<Rightarrow> bool" where
  "isListType BulletList = True"
| "isListType OrderedList = True"
| "isListType TaskList = True"
| "isListType t = False"

fun isListItemType :: "ntype \<Rightarrow> bool" where
  "isListItemType ListItem = True"
| "isListItemType TaskListItem = True"
| "isListItemType t = False"

fun isListNode :: "node \<Rightarrow> bool" where
  "isListNode (Node t a cs) = isListType t"
| "isListNode (Text s) = False"

fun isListItemNode :: "node \<Rightarrow> bool" where
  "isListItemNode (Node t a cs) = isListItemType t"
| "isListItemNode (Text s) = False"

text \<open>
  Modelled from the spec: the node specifications (content expressions) of the document,
  paragraph, list and list-item extensions are not among the sources. Section 3 of the
  spec and the fixtures of the tests give them: a document holds blocks, a paragraph
  holds text, a list holds at least one item of its kind (task lists hold task items),
  an item holds a paragraph followed by further blocks, among them nested lists.
\<close>

fun isBlockType :: "ntype \<Rightarrow> bool" where
  "isBlockType Paragraph = True"
| "isBlockType BulletList = True"
| "isBlockType OrderedList = True"
| "isBlockType TaskList = True"
| "isBlockType t = False"

definition hasType :: "(ntype \<Rightarrow> bool) \<Rightarrow> node \<Rightarrow> bool" where
  "hasType P n = (case typeOf n of None \<Rightarrow> False | Some t \<Rightarrow> P t)"

fun validContent :: "ntype \<Rightarrow> node list \<Rightarrow> bool" where
  "validContent Doc cs = (cs \<noteq> [] \<and> list_all (hasType isBlockType) cs)"
| "validContent Paragraph cs = list_all isText cs"
| "validContent BulletList cs = (cs \<noteq> [] \<and> list_all (hasType (\<lambda>t. t = ListItem)) cs)"
| "validContent OrderedList cs = (cs \<noteq> [] \<and> list_all (hasType (\<lambda>t. t = ListItem)) cs)"
| "validContent TaskList cs = (cs \<noteq> [] \<and> list_all (hasType (\<lambda>t. t = TaskListItem)) cs)"
| "validContent ListItem cs =
     (cs \<noteq> [] \<and> hasType (\<lambda>t. t = Paragraph) (hd cs) \<and> list_all (hasType isBlockType) (tl cs))"
| "validContent TaskListItem cs =
     (cs \<noteq> [] \<and> hasType (\<lambda>t. t = Paragraph) (hd cs) \<and> list_all (hasType isBlockType) (tl cs))"

text \<open>
  \<^verbatim>\<open>type.compatibleContent(other)\<close>: the same type, or content expressions that can
  start with a common node type. \<^verbatim>\<open>firstTypes\<close> lists the types a content expression
  can start with (a paragraph starts with text, which no other node of the schema does).
\<close>

fun firstTypes :: "ntype \<Rightarrow> ntype list" where
  "firstTypes Doc = [Paragraph, BulletList, OrderedList, TaskList]"
| "firstTypes Paragraph = []"
| "firstTypes BulletList = [ListItem]"
| "firstTypes OrderedList = [ListItem]"
| "firstTypes TaskList = [TaskListItem]"
| "firstTypes ListItem = [Paragraph]"
| "firstTypes TaskListItem = [Paragraph]"

definition compatibleContent :: "ntype \<Rightarrow> ntype \<Rightarrow> bool" where
  "compatibleContent a b = (a = b \<or> (\<exists>t \<in> set (firstTypes a). t \<in> set (firstTypes b)))"

text \<open>Only paragraphs hold inline content.\<close>

definition inlineContent :: "node \<Rightarrow> bool" where
  "inlineContent n = (typeOf n = Some Paragraph)"

text \<open>
  \<^verbatim>\<open>node.check()\<close>: the node and all its descendants conform to the schema. The host
  raises a RangeError otherwise; here the test is a predicate and the callers raise.
  A text node is never empty (the host refuses to construct one).
\<close>

fun check :: "node \<Rightarrow> bool" where
  "check (Text s) = (s \<noteq> [])"
| "check (Node t a cs) = (validContent t cs \<and> list_all check cs)"

text \<open>\<^verbatim>\<open>node.canReplace(from, to, replacement)\<close> without marks.\<close>

definition canReplace :: "node \<Rightarrow> nat \<Rightarrow> nat \<Rightarrow> node list \<Rightarrow> bool" where
  "canReplace n i j repl =
     (case typeOf n of None \<Rightarrow> False
      | Some t \<Rightarrow> validContent t (take i (content n) @ repl @ drop j (content n)))"

subsection \<open>Fragments\<close>

text \<open>
  \<^verbatim>\<open>fragment.findIndex(pos)\<close>: the index of the child that holds the offset and the
  offset at which that child starts; an offset on a boundary belongs to the child after it.
  The host raises a RangeError for an offset beyond the fragment; every caller below
  guards the offset first.
\<close>

fun findIndexLoop :: "node list \<Rightarrow> nat \<Rightarrow> nat \<Rightarrow> nat \<Rightarrow> nat \<times> nat" where
  "findIndexLoop [] p i curPos = (i, curPos)"
| "findIndexLoop (c # cs) p i curPos =
     (let e = curPos + nodeSize c
      in if p \<le> e then (if e = p then (i + 1, e) else (i, curPos))
         else findIndexLoop cs p (i + 1) e)"

definition findIndex :: "node list \<Rightarrow> nat \<Rightarrow> nat \<times> nat" where
  "findIndex cs p =
     (if p = 0 then (0, p)
      else if p = fragSize cs then (length cs, p)
      else findIndexLoop cs p 0 0)"

text \<open>
  \<^verbatim>\<open>fragment.cut(from, to)\<close> and \<^verbatim>\<open>node.cut(from, to)\<close>: the children between two
  offsets, the children on the boundary cut themselves.
\<close>

fun cutNode :: "node \<Rightarrow> nat \<Rightarrow> nat \<Rightarrow> node"
  and cutFrag :: "node list \<Rightarrow> nat \<Rightarrow> nat \<Rightarrow> node list"
  and cutLoop :: "node list \<Rightarrow> nat \<Rightarrow> nat \<Rightarrow> nat \<Rightarrow> node list" where
  "cutNode (Text s) f t = Text (take (t - f) (drop f s))"
| "cutNode (Node ty a cs) f t =
     (if f = 0 \<and> t = sum_list (map nodeSize cs) then Node ty a cs else Node ty a (cutFrag cs f t))"
| "cutFrag cs f t =
     (if f = 0 \<and> t = sum_list (map nodeSize cs) then cs
      else if f < t then cutLoop cs 0 f t else [])"
| "cutLoop [] p f t = []"
| "cutLoop (c # cs) p f t =
     (if p < t then
        (let e = p + nodeSize c
         in (if f < e then
               [if p < f \<or> t < e then
                  (case c of
                     Text s \<Rightarrow> cutNode c (f - p) (min (length s) (t - p))
                   | Node ty a ds \<Rightarrow> cutNode c (f - p - 1) (min (sum_list (map nodeSize ds)) (t - p - 1)))
                else c]
             else []) @ cutLoop cs e f t)
      else [])"

text \<open>\<^verbatim>\<open>fragment.replaceChild(index, node)\<close>.\<close>

definition replaceChild :: "node list \<Rightarrow> nat \<Rightarrow> node \<Rightarrow> node list" where
  "replaceChild cs i n = cs[i := n]"

subsection \<open>Resolved positions\<close>

text \<open>
  \<^verbatim>\<open>ResolvedPos.resolve\<close>: the path of a position, one entry per depth holding the
  ancestor node, the index into it and the absolute offset at which the indexed child
  starts. The descent stops on a boundary between children and inside a text node.
\<close>

lemma size_nth_content: "i < length (content n) \<Longrightarrow> size (content n ! i) < size n"
proof (cases n)
  case (Text s)
  assume "i < length (content n)"
  with Text show ?thesis by simp
next
  case (Node t a cs)
  assume "i < length (content n)"
  with Node have "cs ! i \<in> set cs" by simp
  then have "size (cs ! i) \<le> size_list size cs" by (rule size_list_estimation') simp
  with Node show ?thesis by simp
qed

function resolvePath :: "node \<Rightarrow> nat \<Rightarrow> nat \<Rightarrow> (node \<times> nat \<times> nat) list" where
  "resolvePath n parentOffset start =
     (let index = fst (findIndex (content n) parentOffset);
          offset = snd (findIndex (content n) parentOffset);
          rem = parentOffset - offset
      in (n, index, start + offset) #
         (if rem = 0 \<or> length (content n) \<le> index then []
          else if isText (content n ! index) then []
          else resolvePath (content n ! index) (rem - 1) (start + offset + 1)))"
  by pat_completeness auto
termination
  by (relation "measure (\<lambda>(n, p, s). size n)") (auto simp: size_nth_content)

declare resolvePath.simps [simp del]

record resolvedPos =
  pos :: nat
  path :: "(node \<times> nat \<times> nat) list"

text \<open>\<^verbatim>\<open>node.resolve(pos)\<close> raises a RangeError for a position outside the document.\<close>

definition resolve :: "node \<Rightarrow> int \<Rightarrow> error + resolvedPos" where
  "resolve doc p =
     (if 0 \<le> p \<and> p \<le> int (fragSize (content doc))
      then Inr \<lparr>pos = nat p, path = resolvePath doc (nat p) 0\<rparr>
      else Inl RangeError)"

definition depth :: "resolvedPos \<Rightarrow> nat" where
  "depth rp = length (path rp) - 1"

definition nodeAt :: "resolvedPos \<Rightarrow> nat \<Rightarrow> node" where
  "nodeAt rp d = fst (path rp ! d)"

definition index :: "resolvedPos \<Rightarrow> nat \<Rightarrow> nat" where
  "index rp d = fst (snd (path rp ! d))"

definition start :: "resolvedPos \<Rightarrow> nat \<Rightarrow> nat" where
  "start rp d = (if d = 0 then 0 else snd (snd (path rp ! (d - 1))) + 1)"

definition endOf :: "resolvedPos \<Rightarrow> nat \<Rightarrow> nat" where
  "endOf rp d = start rp d + fragSize (content (nodeAt rp d))"

text \<open>
  \<^verbatim>\<open>before(d)\<close> and \<^verbatim>\<open>after(d)\<close> are called with \<open>d \<ge> 1\<close> only (the host raises
  a RangeError at depth 0).
\<close>

definition before :: "resolvedPos \<Rightarrow> nat \<Rightarrow> nat" where
  "before rp d = (if d = depth rp + 1 then pos rp else snd (snd (path rp ! (d - 1))))"

definition after :: "resolvedPos \<Rightarrow> nat \<Rightarrow> nat" where
  "after rp d =
     (if d = depth rp + 1 then pos rp
      else snd (snd (path rp ! (d - 1))) + nodeSize (nodeAt rp d))"

definition textOffset :: "resolvedPos \<Rightarrow> nat" where
  "textOffset rp = pos rp - snd (snd (last (path rp)))"

definition indexAfter :: "resolvedPos \<Rightarrow> nat \<Rightarrow> nat" where
  "indexAfter rp d = index rp d + (if d = depth rp \<and> textOffset rp = 0 then 0 else 1)"

definition parent :: "resolvedPos \<Rightarrow> node" where
  "parent rp = nodeAt rp (depth rp)"

definition parentOffset :: "resolvedPos \<Rightarrow> nat" where
  "parentOffset rp = pos rp - start rp (depth rp)"

text \<open>
  \<^verbatim>\<open>resolveDepth\<close>: a negative depth argument counts from the position's own depth.
  \<open>None\<close> stands for an index below the path, where the host reads \<^verbatim>\<open>undefined\<close>.
\<close>

definition resolveDepth :: "resolvedPos \<Rightarrow> int \<Rightarrow> nat option" where
  "resolveDepth rp v =
     (let d = (if v < 0 then int (depth rp) + v else v)
      in if d < 0 then None else Some (nat d))"

text \<open>\<^verbatim>\<open>nodeAfter\<close> and \<^verbatim>\<open>nodeBefore\<close> inside a text node: the two halves of the text.\<close>

definition textAfter :: "resolvedPos \<Rightarrow> node" where
  "textAfter rp = Text (drop (textOffset rp) (textOf (content (parent rp) ! index rp (depth rp))))"

definition textBefore :: "resolvedPos \<Rightarrow> node" where
  "textBefore rp = Text (take (textOffset rp) (textOf (content (parent rp) ! index rp (depth rp))))"

fun sharedDepthLoop :: "resolvedPos \<Rightarrow> nat \<Rightarrow> nat \<Rightarrow> nat" where
  "sharedDepthLoop rp p 0 = 0"
| "sharedDepthLoop rp p (Suc d) =
     (if start rp (Suc d) \<le> p \<and> p \<le> endOf rp (Suc d) then Suc d else sharedDepthLoop rp p d)"

definition sharedDepth :: "resolvedPos \<Rightarrow> nat \<Rightarrow> nat" where
  "sharedDepth rp p = sharedDepthLoop rp p (depth rp)"

subsection \<open>Slices\<close>

record slice =
  sliceContent :: "node list"
  openStart :: nat
  openEnd :: nat

definition sliceSize :: "slice \<Rightarrow> nat" where
  "sliceSize s = fragSize (sliceContent s) - openStart s - openEnd s"

definition emptySlice :: slice where
  "emptySlice = \<lparr>sliceContent = [], openStart = 0, openEnd = 0\<rparr>"

text \<open>\<^verbatim>\<open>node.slice(from, to)\<close>.\<close>

definition nodeSlice :: "node \<Rightarrow> int \<Rightarrow> int \<Rightarrow> error + slice" where
  "nodeSlice doc f t =
     (if f = t then Inr emptySlice
      else case resolve doc f of Inl e \<Rightarrow> Inl e
      | Inr rf \<Rightarrow>
        (case resolve doc t of Inl e \<Rightarrow> Inl e
         | Inr rt \<Rightarrow>
           (let d = sharedDepth rf (pos rt);
                st = start rf d;
                n = nodeAt rf d
            in Inr \<lparr>sliceContent = cutFrag (content n) (pos rf - st) (pos rt - st),
                    openStart = depth rf - d, openEnd = depth rt - d\<rparr>)))"

text \<open>
  \<^verbatim>\<open>slice.insertAt(pos, fragment)\<close>: the fragment inserted at an offset of the slice's
  content, \<open>None\<close> where the host returns \<^verbatim>\<open>null\<close>.
\<close>

function insertInto :: "node list \<Rightarrow> nat \<Rightarrow> node list \<Rightarrow> node option \<Rightarrow> node list option" where
  "insertInto cs dist ins par =
     (let index = fst (findIndex cs dist); offset = snd (findIndex cs dist)
      in if offset = dist \<or> length cs \<le> index \<or> isText (cs ! index) then
           (case par of
              Some p \<Rightarrow> if canReplace p index index ins
                        then Some (cutFrag cs 0 dist @ ins @ cutFrag cs dist (fragSize cs))
                        else None
            | None \<Rightarrow> Some (cutFrag cs 0 dist @ ins @ cutFrag cs dist (fragSize cs)))
         else (case insertInto (content (cs ! index)) (dist - offset - 1) ins (Some (cs ! index)) of
                 None \<Rightarrow> None
               | Some inner \<Rightarrow> Some (replaceChild cs index (copy (cs ! index) inner))))"
  by pat_completeness auto
termination
proof (relation "measure (\<lambda>(cs, d, i, p). size_list size cs)", goal_cases)
  case 1
  show ?case by simp
next
  case (2 cs dist ins par x xa)
  then have i: "x < length cs" and nt: "\<not> isText (cs ! x)" by auto
  obtain t a ds where n: "cs ! x = Node t a ds" using nt by (cases "cs ! x") auto
  have "cs ! x \<in> set cs" using i by simp
  then have "size (cs ! x) \<le> size_list size cs" by (rule size_list_estimation') simp
  with n show ?case by simp
qed

declare insertInto.simps [simp del]

definition insertAt :: "slice \<Rightarrow> nat \<Rightarrow> node list \<Rightarrow> slice option" where
  "insertAt s p frag =
     (case insertInto (sliceContent s) (p + openStart s) frag None of
        None \<Rightarrow> None
      | Some c \<Rightarrow> Some \<lparr>sliceContent = c, openStart = openStart s, openEnd = openEnd s\<rparr>)"

subsection \<open>The replace algorithm\<close>

text \<open>
  \<^verbatim>\<open>node.replace(from, to, slice)\<close> as the host's \<^verbatim>\<open>replace.js\<close> computes it. A
  \<open>ReplaceError\<close> is raised when the open depths are inconsistent, when two nodes
  along the seam cannot be joined, and when a node closed along the seam gets content
  its type does not allow.
\<close>

definition checkJoin :: "node \<Rightarrow> node \<Rightarrow> bool" where
  "checkJoin main sub =
     (case (typeOf sub, typeOf main) of
        (Some s, Some m) \<Rightarrow> compatibleContent s m
      | (None, None) \<Rightarrow> True
      | _ \<Rightarrow> False)"

definition joinable :: "resolvedPos \<Rightarrow> resolvedPos \<Rightarrow> nat \<Rightarrow> error + node" where
  "joinable bf af d =
     (if checkJoin (nodeAt bf d) (nodeAt af d) then Inr (nodeAt bf d) else Inl ReplaceError)"

definition close :: "node \<Rightarrow> node list \<Rightarrow> error + node" where
  "close n cs =
     (case typeOf n of
        None \<Rightarrow> Inl ReplaceError
      | Some t \<Rightarrow> if validContent t cs then Inr (copy n cs) else Inl ReplaceError)"

text \<open>\<^verbatim>\<open>addNode\<close> joins a text node to a text node before it.\<close>

definition addNode :: "node \<Rightarrow> node list \<Rightarrow> node list" where
  "addNode c tgt =
     (if tgt \<noteq> [] \<and> isText c \<and> isText (last tgt)
      then butlast tgt @ [Text (textOf (last tgt) @ textOf c)]
      else tgt @ [c])"

definition addRange :: "resolvedPos option \<Rightarrow> resolvedPos option \<Rightarrow> nat \<Rightarrow> node list \<Rightarrow> node list" where
  "addRange st en d tgt =
     (let n = (case en of Some e \<Rightarrow> nodeAt e d | None \<Rightarrow> (case st of Some s \<Rightarrow> nodeAt s d | None \<Rightarrow> Text []));
          endIndex = (case en of Some e \<Rightarrow> index e d | None \<Rightarrow> childCount n);
          startIndex = (case st of None \<Rightarrow> 0
                        | Some s \<Rightarrow> if d < depth s \<or> textOffset s \<noteq> 0 then index s d + 1 else index s d);
          tgt1 = (case st of None \<Rightarrow> tgt
                  | Some s \<Rightarrow> if d < depth s then tgt
                              else if textOffset s \<noteq> 0 then addNode (textAfter s) tgt else tgt);
          tgt2 = foldl (\<lambda>acc i. addNode (content n ! i) acc) tgt1 [startIndex ..< endIndex]
      in case en of
           Some e \<Rightarrow> if depth e = d \<and> textOffset e \<noteq> 0 then addNode (textBefore e) tgt2 else tgt2
         | None \<Rightarrow> tgt2)"

function replaceTwoWay :: "resolvedPos \<Rightarrow> resolvedPos \<Rightarrow> nat \<Rightarrow> error + node list" where
  "replaceTwoWay f t d =
     (let c = addRange None (Some f) d []
      in if d < depth f then
           (case joinable f t (d + 1) of
              Inl e \<Rightarrow> Inl e
            | Inr ty \<Rightarrow>
              (case replaceTwoWay f t (d + 1) of
                 Inl e \<Rightarrow> Inl e
               | Inr inner \<Rightarrow>
                 (case close ty inner of
                    Inl e \<Rightarrow> Inl e
                  | Inr nd \<Rightarrow> Inr (addRange (Some t) None d (addNode nd c)))))
         else Inr (addRange (Some t) None d c))"
  by pat_completeness auto
termination
  by (relation "measure (\<lambda>(f, t, d). depth f - d)") auto

declare replaceTwoWay.simps [simp del]

text \<open>The part of \<^verbatim>\<open>replaceThreeWay\<close> after the joined middle: the two open sides closed separately.\<close>

definition threeWaySides ::
  "resolvedPos \<Rightarrow> resolvedPos \<Rightarrow> resolvedPos \<Rightarrow> resolvedPos \<Rightarrow> nat \<Rightarrow>
   node option \<Rightarrow> node option \<Rightarrow> node list \<Rightarrow> error + node list" where
  "threeWaySides f s e t d openS openE target =
     (case (case openS of
              None \<Rightarrow> Inr target
            | Some os \<Rightarrow>
              (case replaceTwoWay f s (d + 1) of
                 Inl er \<Rightarrow> Inl er
               | Inr inner \<Rightarrow> (case close os inner of Inl er \<Rightarrow> Inl er | Inr nd \<Rightarrow> Inr (addNode nd target)))) of
        Inl er \<Rightarrow> Inl er
      | Inr t1 \<Rightarrow>
        (let t2 = addRange (Some s) (Some e) d t1
         in case openE of
              None \<Rightarrow> Inr (addRange (Some t) None d t2)
            | Some oe \<Rightarrow>
              (case replaceTwoWay e t (d + 1) of
                 Inl er \<Rightarrow> Inl er
               | Inr inner \<Rightarrow>
                 (case close oe inner of
                    Inl er \<Rightarrow> Inl er
                  | Inr nd \<Rightarrow> Inr (addRange (Some t) None d (addNode nd t2))))))"

function replaceThreeWay ::
  "resolvedPos \<Rightarrow> resolvedPos \<Rightarrow> resolvedPos \<Rightarrow> resolvedPos \<Rightarrow> nat \<Rightarrow> error + node list" where
  "replaceThreeWay f s e t d =
     (case (if d < depth f then map_sum id Some (joinable f s (d + 1)) else Inr None) of
        Inl er \<Rightarrow> Inl er
      | Inr openS \<Rightarrow>
        (case (if d < depth t then map_sum id Some (joinable e t (d + 1)) else Inr None) of
           Inl er \<Rightarrow> Inl er
         | Inr openE \<Rightarrow>
           (let target = addRange None (Some f) d []
            in if openS \<noteq> None \<and> openE \<noteq> None \<and> index s d = index e d then
                 (if checkJoin (the openS) (the openE) then
                    (case replaceThreeWay f s e t (d + 1) of
                       Inl er \<Rightarrow> Inl er
                     | Inr inner \<Rightarrow>
                       (case close (the openS) inner of
                          Inl er \<Rightarrow> Inl er
                        | Inr nd \<Rightarrow> Inr (addRange (Some t) None d (addNode nd target))))
                  else Inl ReplaceError)
               else threeWaySides f s e t d openS openE target)))"
  by pat_completeness auto
termination
  by (relation "measure (\<lambda>(f, s, e, t, d). depth f - d)") (auto split: if_splits)

declare replaceThreeWay.simps [simp del]

fun wrapLoop :: "resolvedPos \<Rightarrow> node \<Rightarrow> nat \<Rightarrow> node" where
  "wrapLoop along n 0 = n"
| "wrapLoop along n (Suc i) = wrapLoop along (copy (nodeAt along i) [n]) i"

definition prepareSliceForReplace :: "slice \<Rightarrow> resolvedPos \<Rightarrow> error + (resolvedPos \<times> resolvedPos)" where
  "prepareSliceForReplace sl along =
     (let extra = depth along - openStart sl;
          n = wrapLoop along (copy (nodeAt along extra) (sliceContent sl)) extra
      in case resolve n (int (openStart sl + extra)) of
           Inl er \<Rightarrow> Inl er
         | Inr s \<Rightarrow>
           (case resolve n (int (fragSize (content n)) - int (openEnd sl) - int extra) of
              Inl er \<Rightarrow> Inl er
            | Inr e \<Rightarrow> Inr (s, e)))"

function replaceOuter :: "resolvedPos \<Rightarrow> resolvedPos \<Rightarrow> slice \<Rightarrow> nat \<Rightarrow> error + node" where
  "replaceOuter f t sl d =
     (if index f d = index t d \<and> d < depth f - openStart sl then
        (case replaceOuter f t sl (d + 1) of
           Inl er \<Rightarrow> Inl er
         | Inr inner \<Rightarrow> Inr (copy (nodeAt f d) (replaceChild (content (nodeAt f d)) (index f d) inner)))
      else if fragSize (sliceContent sl) = 0 then
        (case replaceTwoWay f t d of Inl er \<Rightarrow> Inl er | Inr cs \<Rightarrow> close (nodeAt f d) cs)
      else if openStart sl = 0 \<and> openEnd sl = 0 \<and> depth f = d \<and> depth t = d then
        close (parent f)
          (cutFrag (content (parent f)) 0 (parentOffset f) @ sliceContent sl @
           cutFrag (content (parent f)) (parentOffset t) (fragSize (content (parent f))))
      else
        (case prepareSliceForReplace sl f of
           Inl er \<Rightarrow> Inl er
         | Inr (s, e) \<Rightarrow>
           (case replaceThreeWay f s e t d of Inl er \<Rightarrow> Inl er | Inr cs \<Rightarrow> close (nodeAt f d) cs)))"
  by pat_completeness auto
termination
  by (relation "measure (\<lambda>(f, t, sl, d). depth f - openStart sl - d)") auto

declare replaceOuter.simps [simp del]

definition replace :: "resolvedPos \<Rightarrow> resolvedPos \<Rightarrow> slice \<Rightarrow> error + node" where
  "replace f t sl =
     (if depth f < openStart sl then Inl ReplaceError
      else if int (depth f) - int (openStart sl) \<noteq> int (depth t) - int (openEnd sl) then Inl ReplaceError
      else replaceOuter f t sl 0)"

definition nodeReplace :: "node \<Rightarrow> int \<Rightarrow> int \<Rightarrow> slice \<Rightarrow> error + node" where
  "nodeReplace doc f t sl =
     (case resolve doc f of
        Inl er \<Rightarrow> Inl er
      | Inr rf \<Rightarrow> (case resolve doc t of Inl er \<Rightarrow> Inl er | Inr rt \<Rightarrow> replace rf rt sl))"

subsection \<open>Steps and position maps\<close>

text \<open>
  The two step kinds the command emits. A \<^verbatim>\<open>ReplaceStep(from, to, slice)\<close> replaces a
  range by a slice; a \<^verbatim>\<open>ReplaceAroundStep(from, to, gapFrom, gapTo, slice, insert)\<close>
  replaces a range by a slice into which the content of the gap is put back at offset
  \<open>insert\<close>. Both are built without the \<^verbatim>\<open>structure\<close> flag.
\<close>

datatype step =
    ReplaceStep int int slice
  | ReplaceAroundStep int int int int slice nat

text \<open>
  \<^verbatim>\<open>step.apply(doc)\<close>: \<open>Inr (Some doc')\<close> is a successful result, \<open>Inr None\<close> a failed
  result (the host's \<^verbatim>\<open>StepResult.fail\<close>, which catches a \<open>ReplaceError\<close>), \<open>Inl e\<close> an
  exception that escapes the step.
\<close>

definition fromReplace :: "node \<Rightarrow> int \<Rightarrow> int \<Rightarrow> slice \<Rightarrow> error + node option" where
  "fromReplace doc f t sl =
     (case nodeReplace doc f t sl of
        Inl ReplaceError \<Rightarrow> Inr None
      | Inl er \<Rightarrow> Inl er
      | Inr d \<Rightarrow> Inr (Some d))"

fun stepApply :: "step \<Rightarrow> node \<Rightarrow> error + node option" where
  "stepApply (ReplaceStep f t sl) doc = fromReplace doc f t sl"
| "stepApply (ReplaceAroundStep f t gapFrom gapTo sl ins) doc =
     (case nodeSlice doc gapFrom gapTo of
        Inl er \<Rightarrow> Inl er
      | Inr gap \<Rightarrow>
        if openStart gap \<noteq> 0 \<or> openEnd gap \<noteq> 0 then Inr None
        else (case insertAt sl ins (sliceContent gap) of
                None \<Rightarrow> Inr None
              | Some inserted \<Rightarrow> fromReplace doc f t inserted))"

text \<open>
  \<^verbatim>\<open>step.getMap()\<close>: a step map is a list of ranges \<open>(start, oldSize, newSize)\<close>.
\<close>

type_synonym stepMap = "(int \<times> int \<times> int) list"

fun getMap :: "step \<Rightarrow> stepMap" where
  "getMap (ReplaceStep f t sl) = [(f, t - f, int (sliceSize sl))]"
| "getMap (ReplaceAroundStep f t gapFrom gapTo sl ins) =
     [(f, gapFrom - f, int ins), (gapTo, t - gapTo, int (sliceSize sl) - int ins)]"

text \<open>
  \<^verbatim>\<open>StepMap.map(pos, assoc)\<close> for a map that is not inverted: the loop over the ranges,
  with the accumulated difference of sizes.
\<close>

fun mapRanges :: "stepMap \<Rightarrow> int \<Rightarrow> int \<Rightarrow> int \<Rightarrow> int" where
  "mapRanges [] diff p assoc = p + diff"
| "mapRanges ((st, oldSize, newSize) # rs) diff p assoc =
     (if p < st then p + diff
      else if p \<le> st + oldSize then
        (let side = (if oldSize = 0 then assoc
                     else if p = st then - 1
                     else if p = st + oldSize then 1
                     else assoc)
         in st + diff + (if side < 0 then 0 else newSize))
      else mapRanges rs (diff + newSize - oldSize) p assoc)"

definition stepMapMap :: "stepMap \<Rightarrow> int \<Rightarrow> int" where
  "stepMapMap m p = mapRanges m 0 p 1"

text \<open>\<^verbatim>\<open>Mapping.map(pos)\<close>: the maps of the steps applied in order, each with \<open>assoc = 1\<close>.\<close>

definition mappingMap :: "stepMap list \<Rightarrow> int \<Rightarrow> int" where
  "mappingMap ms p = foldl (\<lambda>q m. stepMapMap m q) p ms"

subsection \<open>Transactions\<close>

text \<open>
  A transaction holds the current document, the steps applied so far with their maps,
  and the selection (anchor and head, positions of the current document).
\<close>

record transaction =
  doc :: node
  steps :: "step list"
  mapping :: "stepMap list"
  anchor :: nat
  head :: nat

text \<open>
  The resolved ends of the selection, \<^verbatim>\<open>$from\<close> the smaller and \<^verbatim>\<open>$to\<close> the larger
  of anchor and head. A selection object always points into its document, so no range
  check is made here.
\<close>

definition resolvePos :: "node \<Rightarrow> nat \<Rightarrow> resolvedPos" where
  "resolvePos d p = \<lparr>pos = p, path = resolvePath d p 0\<rparr>"

definition selFrom :: "transaction \<Rightarrow> resolvedPos" where
  "selFrom tr = resolvePos (doc tr) (min (anchor tr) (head tr))"

definition selTo :: "transaction \<Rightarrow> resolvedPos" where
  "selTo tr = resolvePos (doc tr) (max (anchor tr) (head tr))"

text \<open>
  \<^verbatim>\<open>tr.step(step)\<close>: applies the step to the current document; a failed result raises
  a \<open>TransformError\<close>, a successful one appends the step and its map.
\<close>

definition trStep :: "transaction \<Rightarrow> step \<Rightarrow> error + transaction" where
  "trStep tr s =
     (case stepApply s (doc tr) of
        Inl er \<Rightarrow> Inl er
      | Inr None \<Rightarrow> Inl TransformError
      | Inr (Some d) \<Rightarrow>
        Inr (tr\<lparr>doc := d, steps := steps tr @ [s], mapping := mapping tr @ [getMap s]\<rparr>))"

text \<open>
  \<^verbatim>\<open>fitsTrivially\<close> of the host's \<^verbatim>\<open>replaceStep\<close>: a closed slice between two positions
  of one parent that the parent's content expression accepts.
\<close>

definition fitsTrivially :: "resolvedPos \<Rightarrow> resolvedPos \<Rightarrow> slice \<Rightarrow> bool" where
  "fitsTrivially f t sl =
     (openStart sl = 0 \<and> openEnd sl = 0 \<and> start f (depth f) = start t (depth t) \<and>
      canReplace (parent f) (index f (depth f)) (index t (depth t)) (sliceContent sl))"

text \<open>
  \<^verbatim>\<open>tr.replace(from, to, slice)\<close>. Where the slice does not fit trivially the host
  searches for a fitting placement; that search is outside this model and is the
  explicit outcome \<open>NotModelled\<close>.
\<close>

definition trReplace :: "transaction \<Rightarrow> int \<Rightarrow> int \<Rightarrow> slice \<Rightarrow> error + transaction" where
  "trReplace tr f t sl =
     (if f = t \<and> sliceSize sl = 0 then Inr tr
      else case resolve (doc tr) f of
        Inl er \<Rightarrow> Inl er
      | Inr rf \<Rightarrow>
        (case resolve (doc tr) t of
           Inl er \<Rightarrow> Inl er
         | Inr rt \<Rightarrow>
           if fitsTrivially rf rt sl then trStep tr (ReplaceStep f t sl) else Inl NotModelled))"

definition trDelete :: "transaction \<Rightarrow> int \<Rightarrow> int \<Rightarrow> error + transaction" where
  "trDelete tr f t = trReplace tr f t emptySlice"

text \<open>\<^verbatim>\<open>coveredDepths\<close>: the depths at which the range covers a whole node. No node of the schema is isolating.\<close>

fun coveredLoop :: "resolvedPos \<Rightarrow> resolvedPos \<Rightarrow> nat \<Rightarrow> nat list" where
  "coveredLoop f t 0 = []"
| "coveredLoop f t (Suc d) =
     (if int (start f d) < int (pos f) - (int (depth f) - int d) \<or>
         int (pos t) + (int (depth t) - int d) < int (endOf t d)
      then []
      else (if start f d = start t d \<or>
               (d = depth f \<and> d = depth t \<and> inlineContent (parent f) \<and> inlineContent (parent t) \<and>
                d \<noteq> 0 \<and> int (start t (d - 1)) = int (start f d) - 1)
            then [d] else []) @ coveredLoop f t d)"

definition coveredDepths :: "resolvedPos \<Rightarrow> resolvedPos \<Rightarrow> nat list" where
  "coveredDepths f t = coveredLoop f t (min (depth f) (depth t) + 1)"

definition validEnd :: "node \<Rightarrow> bool" where
  "validEnd n = (case typeOf n of None \<Rightarrow> True | Some t \<Rightarrow> validContent t [])"

text \<open>\<^verbatim>\<open>tr.deleteRange(from, to)\<close>: the first loop over the covered depths, then the loop over the depths from 1.\<close>

fun deleteCovered :: "resolvedPos \<Rightarrow> resolvedPos \<Rightarrow> nat list \<Rightarrow> (int \<times> int) option" where
  "deleteCovered f t [] = None"
| "deleteCovered f t (d # ds) =
     (if (ds = [] \<and> d = 0) \<or> validEnd (nodeAt f d) then Some (int (start f d), int (endOf t d))
      else if 0 < d \<and> (ds = [] \<or> canReplace (nodeAt f (d - 1)) (index f (d - 1)) (indexAfter t (d - 1)) [])
      then Some (int (before f d), int (after t d))
      else deleteCovered f t ds)"

fun deleteOpenStart :: "resolvedPos \<Rightarrow> resolvedPos \<Rightarrow> int \<Rightarrow> int \<Rightarrow> nat \<Rightarrow> nat \<Rightarrow> (int \<times> int) option" where
  "deleteOpenStart f t fp tp d 0 = None"
| "deleteOpenStart f t fp tp d (Suc k) =
     (if fp - int (start f d) = int (depth f) - int d \<and> int (endOf f d) < tp \<and>
         int (endOf t d) - tp \<noteq> int (depth t) - int d
      then Some (int (before f d), tp)
      else deleteOpenStart f t fp tp (d + 1) k)"

definition deleteRange :: "transaction \<Rightarrow> int \<Rightarrow> int \<Rightarrow> error + transaction" where
  "deleteRange tr fp tp =
     (case resolve (doc tr) fp of
        Inl er \<Rightarrow> Inl er
      | Inr f \<Rightarrow>
        (case resolve (doc tr) tp of
           Inl er \<Rightarrow> Inl er
         | Inr t \<Rightarrow>
           (case deleteCovered f t (coveredDepths f t) of
              Some (a, b) \<Rightarrow> trDelete tr a b
            | None \<Rightarrow>
              (case deleteOpenStart f t fp tp 1 (min (depth f) (depth t)) of
                 Some (a, b) \<Rightarrow> trDelete tr a b
               | None \<Rightarrow> trDelete tr fp tp))))"

text \<open>
  \<^verbatim>\<open>tr.replaceRangeWith(from, to, node)\<close> for a block node and \<open>from \<noteq> to\<close>: the range is
  replaced by the closed slice holding the node when it fits trivially. The search for
  an insertion point (taken when \<open>from = to\<close>) and the host's search over wrapping
  depths are outside this model.
\<close>

definition replaceRangeWith :: "transaction \<Rightarrow> int \<Rightarrow> int \<Rightarrow> node \<Rightarrow> error + transaction" where
  "replaceRangeWith tr fp tp n =
     (if fp = tp then Inl NotModelled
      else case resolve (doc tr) fp of
        Inl er \<Rightarrow> Inl er
      | Inr f \<Rightarrow>
        (case resolve (doc tr) tp of
           Inl er \<Rightarrow> Inl er
         | Inr t \<Rightarrow>
           (let sl = \<lparr>sliceContent = [n], openStart = 0, openEnd = 0\<rparr>
            in if fitsTrivially f t sl then trStep tr (ReplaceStep fp tp sl) else Inl NotModelled)))"

text \<open>\<^verbatim>\<open>tr.setSelection(TextSelection.create(tr.doc, anchor, head))\<close>: both positions are resolved in the current document.\<close>

definition setSelection :: "transaction \<Rightarrow> int \<Rightarrow> int \<Rightarrow> error + transaction" where
  "setSelection tr a h =
     (case resolve (doc tr) a of
        Inl er \<Rightarrow> Inl er
      | Inr ra \<Rightarrow>
        (case resolve (doc tr) h of
           Inl er \<Rightarrow> Inl er
         | Inr rh \<Rightarrow> Inr (tr\<lparr>anchor := pos ra, head := pos rh\<rparr>)))"

text \<open>\<^verbatim>\<open>fragment.append(other)\<close> joins two text nodes that meet.\<close>

definition fragAppend :: "node list \<Rightarrow> node list \<Rightarrow> node list" where
  "fragAppend xs ys =
     (if fragSize ys = 0 then xs
      else if fragSize xs = 0 then ys
      else if isText (last xs) \<and> isText (hd ys)
      then butlast xs @ [Text (textOf (last xs) @ textOf (hd ys))] @ tl ys
      else xs @ ys)"

subsection \<open>Node ranges\<close>

text \<open>
  \<^verbatim>\<open>$from.blockRange($to, pred)\<close>: the range around the two positions at the deepest
  depth whose node satisfies the predicate and holds both positions. The search starts
  one level above a position inside inline content and above a cursor.
\<close>

record nodeRange =
  rangeFrom :: resolvedPos
  rangeTo :: resolvedPos
  rangeDepth :: nat

definition rangeStart :: "nodeRange \<Rightarrow> nat" where
  "rangeStart r = before (rangeFrom r) (rangeDepth r + 1)"

definition rangeEnd :: "nodeRange \<Rightarrow> nat" where
  "rangeEnd r = after (rangeTo r) (rangeDepth r + 1)"

definition startIndex :: "nodeRange \<Rightarrow> nat" where
  "startIndex r = index (rangeFrom r) (rangeDepth r)"

definition endIndex :: "nodeRange \<Rightarrow> nat" where
  "endIndex r = indexAfter (rangeTo r) (rangeDepth r)"

fun blockRangeLoop :: "resolvedPos \<Rightarrow> resolvedPos \<Rightarrow> (node \<Rightarrow> bool) \<Rightarrow> nat \<Rightarrow> nodeRange option" where
  "blockRangeLoop f t pred 0 = None"
| "blockRangeLoop f t pred (Suc d) =
     (if pos t \<le> endOf f d \<and> pred (nodeAt f d)
      then Some \<lparr>rangeFrom = f, rangeTo = t, rangeDepth = d\<rparr>
      else blockRangeLoop f t pred d)"

definition blockRange :: "resolvedPos \<Rightarrow> resolvedPos \<Rightarrow> (node \<Rightarrow> bool) \<Rightarrow> nodeRange option" where
  "blockRange f t pred =
     blockRangeLoop f t pred
       (depth f + 1 - (if inlineContent (parent f) \<or> pos f = pos t then 1 else 0))"

section \<open>The list commands\<close>

text \<open>
  Modelled from the spec: \<^verbatim>\<open>calculateItemRange\<close> of \<^verbatim>\<open>list-commands\<close> is imported by
  the command but is not among the sources. Section 4.1 of the spec: it determines the
  deepest list node enclosing both ends of the selection and the contiguous span of its
  item children that the selection covers, and yields no range when the selection is
  not inside a list. This is the host's block range with the list predicate.
\<close>

definition calculateItemRange :: "transaction \<Rightarrow> nodeRange option" where
  "calculateItemRange tr = blockRange (selFrom tr) (selTo tr) isListNode"

subsection \<open>findPreviousItem\<close>

record previousItemResult =
  previousItem :: node
  previousList :: node
  previousItemStart :: int
  previousListStart :: int

text \<open>The two counting loops: the sizes of the children before an index.\<close>

fun sizesBefore :: "node \<Rightarrow> nat \<Rightarrow> int" where
  "sizesBefore n 0 = 0"
| "sizesBefore n (Suc i) = sizesBefore n i + int (nodeSize (content n ! i))"

text \<open>
  \<open>Inr None\<close> is the result \<^verbatim>\<open>false\<close>. The only exception is the RangeError of
  \<^verbatim>\<open>previousList.child(previousList.childCount - 1)\<close> on a list without children.
  Where \<^verbatim>\<open>range.depth - 1\<close> is negative the host counts the depth from the position's
  own depth, and reads \<^verbatim>\<open>undefined\<close> (no index, hence \<^verbatim>\<open>false\<close>) below the path.
\<close>

definition findPreviousItem ::
  "node \<Rightarrow> resolvedPos \<Rightarrow> nodeRange \<Rightarrow> error + previousItemResult option" where
  "findPreviousItem selectedList fromP rng =
     (if 1 \<le> startIndex rng then
        (case child selectedList (int (startIndex rng) - 1) of
           Inl er \<Rightarrow> Inl er
         | Inr item \<Rightarrow>
           (let listStart = int (start (resolvePos (nodeAt fromP 0) (rangeStart rng)) (rangeDepth rng))
            in Inr (Some \<lparr>previousItem = item, previousList = selectedList,
                   previousItemStart = listStart + 1 + sizesBefore selectedList (startIndex rng - 1),
                   previousListStart = listStart\<rparr>)))
      else
        (case resolveDepth fromP (int (rangeDepth rng) - 1) of
           None \<Rightarrow> Inr None
         | Some pd \<Rightarrow>
           (let listIndex = index fromP pd
            in if 1 \<le> listIndex then
                 (let listParent = nodeAt fromP pd;
                      listParentStart = int (start fromP pd)
                  in case child listParent (int listIndex - 1) of
                       Inl er \<Rightarrow> Inl er
                     | Inr prevList \<Rightarrow>
                       if \<not> isListNode prevList then Inr None
                       else
                         (let listStart = listParentStart + 1 + sizesBefore listParent (listIndex - 1)
                          in case child prevList (int (childCount prevList) - 1) of
                               Inl er \<Rightarrow> Inl er
                             | Inr item \<Rightarrow>
                               if \<not> isListItemNode item then Inr None
                               else Inr (Some \<lparr>previousItem = item, previousList = prevList,
                                      previousItemStart =
                                        listStart + int (nodeSize prevList) - int (nodeSize item) - 1,
                                      previousListStart = listStart\<rparr>)))
               else Inr None)))"

subsection \<open>sliceSelectedItems\<close>

definition sliceSelectedItems ::
  "node \<Rightarrow> resolvedPos \<Rightarrow> nodeRange \<Rightarrow> error + (slice \<times> slice option)" where
  "sliceSelectedItems d to rng =
     (let st = int (rangeStart rng);
          mid = (if rangeDepth rng + 2 \<le> depth to then int (endOf to (rangeDepth rng + 2))
                 else int (rangeEnd rng) - 1);
          en = int (rangeEnd rng)
      in if en \<le> mid + 1 then
           (case nodeSlice d st en of Inl er \<Rightarrow> Inl er | Inr sel \<Rightarrow> Inr (sel, None))
         else
           (case nodeSlice d st mid of
              Inl er \<Rightarrow> Inl er
            | Inr sel \<Rightarrow>
              (case nodeSlice d (mid + 1) (en - 1) of
                 Inl er \<Rightarrow> Inl er
               | Inr unsel \<Rightarrow> Inr (sel, Some unsel))))"

subsection \<open>indentList\<close>

text \<open>
  The command mutates the transaction it is given and either returns a boolean or
  leaves by an exception. Both outcomes carry the transaction as it stands at that
  moment, so that a mutation made before an exception stays visible.
\<close>

datatype outcome = Returned bool transaction | Thrown error transaction

text \<open>
  The test \<^verbatim>\<open>previousList === selectedList\<close> compares object identity. Two list nodes of
  one document are the same object here when they start at the same position:
  \<^verbatim>\<open>previousListStart\<close> against the start of the selected list.
\<close>

definition sameList :: "transaction \<Rightarrow> nodeRange \<Rightarrow> previousItemResult \<Rightarrow> bool" where
  "sameList tr rng r =
     (previousListStart r = int (start (resolvePos (doc tr) (rangeStart rng)) (rangeDepth rng)))"

definition finishSelection :: "transaction \<Rightarrow> transaction \<Rightarrow> nodeRange \<Rightarrow> previousItemResult \<Rightarrow> outcome" where
  "finishSelection tr0 tr rng r =
     (let f = int (pos (selFrom tr0)); t = int (pos (selTo tr0))
      in case (if sameList tr0 rng r then setSelection tr f t else setSelection tr (f - 2) (t - 2)) of
           Inl er \<Rightarrow> Thrown er tr
         | Inr tr' \<Rightarrow> Returned True tr')"

definition indentList :: "transaction \<Rightarrow> outcome" where
  "indentList tr =
     (case calculateItemRange tr of
        None \<Rightarrow> Returned False tr
      | Some rng \<Rightarrow>
        (let selectedList = parent (resolvePos (doc tr) (rangeStart rng))
         in if \<not> isListNode selectedList then Returned False tr
            else
              (case findPreviousItem selectedList (selFrom tr) rng of
                 Inl er \<Rightarrow> Thrown er tr
               | Inr None \<Rightarrow> Returned False tr
               | Inr (Some r) \<Rightarrow>
                 if typeOf (previousList r) = typeOf selectedList then
                   (case trStep tr
                           (ReplaceAroundStep (int (rangeStart rng) - 1) (int (rangeEnd rng) - 1)
                              (int (rangeStart rng)) (int (rangeEnd rng))
                              \<lparr>sliceContent = [copy selectedList []], openStart = 0, openEnd = 0\<rparr> 1) of
                      Inl er \<Rightarrow> Thrown er tr
                    | Inr tr1 \<Rightarrow> finishSelection tr tr1 rng r)
                 else
                   (case sliceSelectedItems (doc tr) (selTo tr) rng of
                      Inl er \<Rightarrow> Thrown er tr
                    | Inr (selectedSlice, unselectedSlice) \<Rightarrow>
                      (let newPreviousItemContent =
                             fragAppend
                               (fragAppend (content (previousItem r))
                                  [copy selectedList (sliceContent selectedSlice)])
                               (case unselectedSlice of Some u \<Rightarrow> sliceContent u | None \<Rightarrow> [])
                       in case deleteRange tr (int (rangeStart rng)) (int (rangeEnd rng)) of
                            Inl er \<Rightarrow> Thrown er tr
                          | Inr tr1 \<Rightarrow>
                            (let previousItemEnd = previousItemStart r + int (nodeSize (previousItem r)) - 2;
                                 newPreviousItem = copy (previousItem r) newPreviousItemContent
                             in if \<not> check newPreviousItem then Thrown RangeError tr1
                                else
                                  (case replaceRangeWith tr1 (previousItemStart r - 1) (previousItemEnd + 1)
                                          newPreviousItem of
                                     Inl er \<Rightarrow> Thrown er tr1
                                   | Inr tr2 \<Rightarrow> finishSelection tr tr2 rng r)))))))"

section \<open>The fixtures of the tests\<close>

text \<open>
  The node builders of \<^verbatim>\<open>list-setup.ts\<close> and the table of list kinds the tests run
  over: ordered and unordered lists of plain items, task lists of checked and of
  unchecked items (the attribute \<open>1\<close> marks a checked item).
\<close>

definition p :: "string \<Rightarrow> node" where
  "p s = Node Paragraph 0 [Text s]"

definition docNode :: "node list \<Rightarrow> node" where
  "docNode cs = Node Doc 0 cs"

definition ul :: "node list \<Rightarrow> node" where
  "ul cs = Node BulletList 0 cs"

definition ol :: "node list \<Rightarrow> node" where
  "ol cs = Node OrderedList 0 cs"

definition li :: "node list \<Rightarrow> node" where
  "li cs = Node ListItem 0 cs"

definition taskList :: "node list \<Rightarrow> node" where
  "taskList cs = Node TaskList 0 cs"

definition checkedItem :: "node list \<Rightarrow> node" where
  "checkedItem cs = Node TaskListItem 1 cs"

definition uncheckedItem :: "node list \<Rightarrow> node" where
  "uncheckedItem cs = Node TaskListItem 0 cs"

datatype listKind = OrderedKind | UnorderedKind | TaskCheckedKind | TaskUncheckedKind

fun listOf :: "listKind \<Rightarrow> node list \<Rightarrow> node" where
  "listOf OrderedKind = ol"
| "listOf UnorderedKind = ul"
| "listOf TaskCheckedKind = taskList"
| "listOf TaskUncheckedKind = taskList"

fun itemOf :: "listKind \<Rightarrow> node list \<Rightarrow> node" where
  "itemOf OrderedKind = li"
| "itemOf UnorderedKind = li"
| "itemOf TaskCheckedKind = checkedItem"
| "itemOf TaskUncheckedKind = uncheckedItem"

text \<open>A fresh transaction on a document with the selection set.\<close>

definition editorWith :: "node \<Rightarrow> nat \<Rightarrow> nat \<Rightarrow> transaction" where
  "editorWith n a h = \<lparr>doc = n, steps = [], mapping = [], anchor = a, head = h\<rparr>"

definition threeItems :: "listKind \<Rightarrow> node" where
  "threeItems k =
     docNode [listOf k [itemOf k [p ''item 1''], itemOf k [p ''item 2''], itemOf k [p ''item 3'']]]"

definition secondNested :: "listKind \<Rightarrow> node" where
  "secondNested k =
     docNode [listOf k [itemOf k [p ''item 1'', listOf k [itemOf k [p ''item 2'']]],
                        itemOf k [p ''item 3'']]]"

section \<open>Positions and paths\<close>

text \<open>
  Lemmas about \<^verbatim>\<open>findIndex\<close> and resolved paths: a path is characterised by the
  offsets of the children it descends through.
\<close>

definition offsetOf :: "node list \<Rightarrow> nat \<Rightarrow> nat" where
  "offsetOf cs i = fragSize (take i cs)"

lemma fragSize_simps [simp]:
  "fragSize [] = 0" "fragSize (c # cs) = nodeSize c + fragSize cs"
  "fragSize (xs @ ys) = fragSize xs + fragSize ys"
  by (simp_all add: fragSize_def)

lemma offsetOf_0 [simp]: "offsetOf cs 0 = 0"
  by (simp add: offsetOf_def)

lemma offsetOf_Suc: "i < length cs \<Longrightarrow> offsetOf cs (Suc i) = offsetOf cs i + nodeSize (cs ! i)"
  by (simp add: offsetOf_def take_Suc_conv_app_nth)

lemma offsetOf_length [simp]: "offsetOf cs (length cs) = fragSize cs"
  by (simp add: offsetOf_def)

lemma offsetOf_Cons_Suc [simp]: "offsetOf (c # cs) (Suc i) = nodeSize c + offsetOf cs i"
  by (simp add: offsetOf_def)

lemma offsetOf_le: "offsetOf cs i \<le> fragSize cs"
proof -
  have "fragSize cs = fragSize (take i cs @ drop i cs)" by simp
  also have "\<dots> = offsetOf cs i + fragSize (drop i cs)" unfolding fragSize_simps offsetOf_def ..
  finally show ?thesis by simp
qed

lemma offsetOf_mono: "i \<le> j \<Longrightarrow> offsetOf cs i \<le> offsetOf cs j"
proof -
  assume "i \<le> j"
  then have "take i cs = take i (take j cs)" by (simp add: min_def)
  then have "offsetOf cs i = offsetOf (take j cs) i" by (simp add: offsetOf_def)
  also have "\<dots> \<le> fragSize (take j cs)" by (rule offsetOf_le)
  finally show ?thesis by (simp add: offsetOf_def)
qed

lemma offsetOf_Suc_le: "i < length cs \<Longrightarrow> offsetOf cs i + nodeSize (cs ! i) \<le> fragSize cs"
  using offsetOf_le [of cs "Suc i"] by (simp add: offsetOf_Suc)

definition allPos :: "node list \<Rightarrow> bool" where
  "allPos cs = (\<forall>c \<in> set cs. 0 < nodeSize c)"

lemma offsetOf_strict: "allPos cs \<Longrightarrow> i < j \<Longrightarrow> j \<le> length cs \<Longrightarrow> offsetOf cs i < offsetOf cs j"
proof -
  assume ap: "allPos cs" and ij: "i < j" and j: "j \<le> length cs"
  have "offsetOf cs i < offsetOf cs (Suc i)"
    using ap ij j by (simp add: offsetOf_Suc allPos_def)
  also have "\<dots> \<le> offsetOf cs j" using ij by (intro offsetOf_mono) simp
  finally show ?thesis .
qed

lemma findIndexLoop_spec:
  "cur < q \<Longrightarrow> q \<le> cur + fragSize cs \<Longrightarrow>
   (case findIndexLoop cs q i cur of (i', off) \<Rightarrow>
      i \<le> i' \<and> i' \<le> i + length cs \<and> off = cur + offsetOf cs (i' - i) \<and> off \<le> q \<and>
      (off < q \<longrightarrow> i' - i < length cs \<and> q < off + nodeSize (cs ! (i' - i))))"
proof (induction cs arbitrary: i cur)
  case Nil
  then show ?case by simp
next
  case (Cons c cs)
  show ?case
  proof (cases "q \<le> cur + nodeSize c")
    case True
    then show ?thesis using Cons.prems by (auto simp: Let_def)
  next
    case False
    then have lt: "cur + nodeSize c < q" by simp
    have le: "q \<le> (cur + nodeSize c) + fragSize cs" using Cons.prems by simp
    obtain i' off where r: "findIndexLoop cs q (i + 1) (cur + nodeSize c) = (i', off)"
      by (cases "findIndexLoop cs q (i + 1) (cur + nodeSize c)")
    from Cons.IH [OF lt le, of "i + 1"] r
    have ih: "Suc i \<le> i'" "i' \<le> Suc i + length cs"
      "off = cur + nodeSize c + offsetOf cs (i' - Suc i)" "off \<le> q"
      "off < q \<longrightarrow> i' - Suc i < length cs \<and> q < off + nodeSize (cs ! (i' - Suc i))"
      by auto
    have d: "i' - i = Suc (i' - Suc i)" using ih(1) by simp
    show ?thesis
      using False r ih by (simp add: Let_def d)
  qed
qed

lemma findIndex_spec:
  assumes "q \<le> fragSize cs"
  shows "fst (findIndex cs q) \<le> length cs \<and>
         snd (findIndex cs q) = offsetOf cs (fst (findIndex cs q)) \<and>
         snd (findIndex cs q) \<le> q \<and>
         (snd (findIndex cs q) < q \<longrightarrow>
            fst (findIndex cs q) < length cs \<and>
            q < snd (findIndex cs q) + nodeSize (cs ! fst (findIndex cs q)))"
proof (cases "q = 0 \<or> q = fragSize cs")
  case True
  then show ?thesis by (auto simp: findIndex_def)
next
  case False
  then have "0 < q" "q \<le> 0 + fragSize cs" using assms by auto
  from findIndexLoop_spec [OF this, of 0] False show ?thesis
    by (auto simp: findIndex_def split: prod.splits)
qed

lemma findIndex_boundary:
  assumes "allPos cs" "i \<le> length cs"
  shows "findIndex cs (offsetOf cs i) = (i, offsetOf cs i)"
proof -
  let ?p = "offsetOf cs i"
  let ?r = "findIndex cs ?p"
  have sp: "fst ?r \<le> length cs" "snd ?r = offsetOf cs (fst ?r)" "snd ?r \<le> ?p"
       "snd ?r < ?p \<longrightarrow> fst ?r < length cs \<and> ?p < snd ?r + nodeSize (cs ! fst ?r)"
    using findIndex_spec [OF offsetOf_le, of cs i] by auto
  have "fst ?r = i"
  proof (rule ccontr)
    assume ne: "fst ?r \<noteq> i"
    show False
    proof (cases "fst ?r < i")
      case True
      then have lt: "snd ?r < ?p" using sp(2) offsetOf_strict [OF assms(1) True assms(2)] by simp
      then have "?p < offsetOf cs (Suc (fst ?r))" using sp by (simp add: offsetOf_Suc)
      moreover have "offsetOf cs (Suc (fst ?r)) \<le> ?p" using True by (intro offsetOf_mono) simp
      ultimately show False by simp
    next
      case False
      then have "i < fst ?r" using ne by simp
      from offsetOf_strict [OF assms(1) this sp(1)] sp(2,3) show False by simp
    qed
  qed
  then show ?thesis using sp(2) by (simp add: prod_eq_iff)
qed

lemma findIndex_inside:
  assumes "allPos cs" "i < length cs" "0 < k" "k < nodeSize (cs ! i)"
  shows "findIndex cs (offsetOf cs i + k) = (i, offsetOf cs i)"
proof -
  let ?p = "offsetOf cs i + k"
  let ?r = "findIndex cs ?p"
  have ple: "?p \<le> fragSize cs"
  proof -
    have "?p \<le> offsetOf cs (Suc i)" using assms by (simp add: offsetOf_Suc)
    also have "\<dots> \<le> fragSize cs" by (rule offsetOf_le)
    finally show ?thesis .
  qed
  have sp: "fst ?r \<le> length cs" "snd ?r = offsetOf cs (fst ?r)" "snd ?r \<le> ?p"
       "snd ?r < ?p \<longrightarrow> fst ?r < length cs \<and> ?p < snd ?r + nodeSize (cs ! fst ?r)"
    using findIndex_spec [OF ple] by auto
  have "fst ?r = i"
  proof (rule ccontr)
    assume ne: "fst ?r \<noteq> i"
    show False
    proof (cases "fst ?r < i")
      case True
      then have "offsetOf cs (Suc (fst ?r)) \<le> offsetOf cs i" by (intro offsetOf_mono) simp
      moreover have "snd ?r < ?p" using sp(2) offsetOf_mono [of "fst ?r" i cs] True assms(3) by simp
      then have "?p < offsetOf cs (Suc (fst ?r))" using sp by (simp add: offsetOf_Suc)
      ultimately show False by simp
    next
      case False
      then have gt: "i < fst ?r" using ne by simp
      then have "offsetOf cs (Suc i) \<le> offsetOf cs (fst ?r)" by (intro offsetOf_mono) simp
      then show False using sp(2,3) assms by (simp add: offsetOf_Suc)
    qed
  qed
  then show ?thesis using sp(2) by (simp add: prod_eq_iff)
qed


fun textOk :: "node \<Rightarrow> bool" where
  "textOk (Text s) = (s \<noteq> [])"
| "textOk (Node t a cs) = list_all textOk cs"

lemma check_textOk: "check n \<Longrightarrow> textOk n"
  by (induction n) (auto simp: list_all_iff)

lemma nodeSize_Node_ge2: "\<not> isText n \<Longrightarrow> nodeSize n = 2 + fragSize (content n)"
  by (cases n) (simp_all add: fragSize_def)

lemma textOk_pos: "textOk n \<Longrightarrow> 0 < nodeSize n"
  by (cases n) simp_all

lemma textOk_content: "textOk n \<Longrightarrow> c \<in> set (content n) \<Longrightarrow> textOk c"
  by (cases n) (simp_all add: list_all_iff)

lemma textOk_allPos: "textOk n \<Longrightarrow> allPos (content n)"
  by (auto simp: allPos_def textOk_pos textOk_content)

fun pathFor :: "node \<Rightarrow> nat \<Rightarrow> nat \<Rightarrow> (node \<times> nat \<times> nat) list \<Rightarrow> bool" where
  "pathFor n s q [] = False"
| "pathFor n s q [(m, i, off)] =
     (m = n \<and> i \<le> length (content n) \<and> off = s + offsetOf (content n) i \<and>
      (q = off \<or> (i < length (content n) \<and> isText (content n ! i) \<and> off < q \<and>
                   q < off + nodeSize (content n ! i))))"
| "pathFor n s q ((m, i, off) # e # rest) =
     (m = n \<and> i < length (content n) \<and> off = s + offsetOf (content n) i \<and>
      \<not> isText (content n ! i) \<and> off < q \<and> q < off + nodeSize (content n ! i) \<and>
      pathFor (content n ! i) (off + 1) q (e # rest))"

lemma resolvePath_nonempty [simp]: "resolvePath n q s \<noteq> []"
  by (subst resolvePath.simps) (simp add: Let_def)

lemma pathFor_resolvePath:
  "q \<le> fragSize (content n) \<Longrightarrow> pathFor n s (s + q) (resolvePath n q s)"
proof (induction n q s rule: resolvePath.induct)
  case (1 n q s)
  let ?i = "fst (findIndex (content n) q)"
  let ?off = "snd (findIndex (content n) q)"
  note sp = findIndex_spec [OF "1.prems"]
  show ?case
  proof (cases "q - ?off = 0 \<or> length (content n) \<le> ?i")
    case True
    then have "q = ?off" using sp by auto
    then show ?thesis using True sp
      by (subst resolvePath.simps) (auto simp: Let_def)
  next
    case False
    then have lt: "?off < q" "?i < length (content n)" "q < ?off + nodeSize (content n ! ?i)"
      using sp by auto
    show ?thesis
    proof (cases "isText (content n ! ?i)")
      case True
      then show ?thesis using False sp lt
        by (subst resolvePath.simps) (auto simp: Let_def)
    next
      case nt: False
      let ?c = "content n ! ?i"
      have sz: "nodeSize ?c = 2 + fragSize (content ?c)" using nt by (rule nodeSize_Node_ge2)
      have b: "q - ?off - 1 \<le> fragSize (content ?c)" using lt sz by simp
      have ih: "pathFor ?c (s + ?off + 1) (s + ?off + 1 + (q - ?off - 1))
                  (resolvePath ?c (q - ?off - 1) (s + ?off + 1))"
        using "1.IH" [OF refl refl refl _ nt b] False by simp
      have e: "s + ?off + 1 + (q - ?off - 1) = s + q" using lt by simp
      obtain e rest where r: "resolvePath ?c (q - ?off - 1) (s + ?off + 1) = e # rest"
        by (cases "resolvePath ?c (q - ?off - 1) (s + ?off + 1)") simp_all
      show ?thesis
        using False nt sp lt ih r unfolding e
        by (subst resolvePath.simps) (simp add: Let_def)
    qed
  qed
qed

lemma pathFor_bounds:
  "pathFor n s q pth \<Longrightarrow> s \<le> q \<and> q \<le> s + fragSize (content n)"
proof (cases pth)
  case Nil
  assume "pathFor n s q pth"
  with Nil show ?thesis by simp
next
  case (Cons e rest)
  assume pf: "pathFor n s q pth"
  obtain m i off where e: "e = (m, i, off)" by (cases e)
  note le = offsetOf_Suc_le [of _ "content n"]
  show ?thesis
  proof (cases rest)
    case Nil
    with pf Cons e show ?thesis
      using le [of i] offsetOf_le [of "content n" i] by auto
  next
    case (Cons e2 rest2)
    with pf \<open>pth = e # rest\<close> e show ?thesis
      using le [of i] by auto
  qed
qed

lemma resolvePath_pathFor:
  "pathFor n s q pth \<Longrightarrow> textOk n \<Longrightarrow> resolvePath n (q - s) s = pth"
proof (induction n s q pth rule: pathFor.induct)
  case (1 n s q)
  then show ?case by simp
next
  case (2 n s q m i off)
  then have ap: "allPos (content n)" by (simp add: textOk_allPos)
  from "2.prems" have i: "i \<le> length (content n)" and off: "off = s + offsetOf (content n) i"
    and m: "m = n" by auto
  show ?case
  proof (cases "q = off")
    case True
    then have "q - s = offsetOf (content n) i" using off by simp
    then show ?thesis using findIndex_boundary [OF ap i] off m
      by (subst resolvePath.simps) (simp add: Let_def)
  next
    case False
    with "2.prems" have t: "i < length (content n)" "isText (content n ! i)" "off < q"
      "q < off + nodeSize (content n ! i)" by auto
    have "q - s = offsetOf (content n) i + (q - off)" using off t by simp
    moreover have "0 < q - off" "q - off < nodeSize (content n ! i)" using t by auto
    ultimately show ?thesis using findIndex_inside [OF ap t(1), of "q - off"] off m t
      by (subst resolvePath.simps) (simp add: Let_def)
  qed
next
  case (3 n s q m i off e rest)
  then have ap: "allPos (content n)" by (simp add: textOk_allPos)
  from "3.prems" have t: "m = n" "i < length (content n)" "off = s + offsetOf (content n) i"
    "\<not> isText (content n ! i)" "off < q" "q < off + nodeSize (content n ! i)"
    "pathFor (content n ! i) (off + 1) q (e # rest)" by auto
  have tc: "textOk (content n ! i)" using "3.prems"(2) t(2) by (auto intro: textOk_content)
  have ih: "resolvePath (content n ! i) (q - (off + 1)) (off + 1) = e # rest"
    using "3.IH" t tc by simp
  have qs: "q - s = offsetOf (content n) i + (q - off)" using t by simp
  have k: "0 < q - off" "q - off < nodeSize (content n ! i)" using t by auto
  have fi: "findIndex (content n) (q - s) = (i, offsetOf (content n) i)"
    unfolding qs by (rule findIndex_inside [OF ap t(2) k])
  have r1: "q - s - offsetOf (content n) i - 1 = q - (off + 1)" using t by simp
  have r2: "s + offsetOf (content n) i + 1 = off + 1" using t by simp
  show ?case
    apply (subst resolvePath.simps)
    using fi t k ih r1 r2 by (simp add: Let_def)
qed


fun chain :: "node \<Rightarrow> nat \<Rightarrow> (node \<times> nat \<times> nat) list \<Rightarrow> node \<Rightarrow> nat \<Rightarrow> bool" where
  "chain n s [] L sL = (n = L \<and> s = sL)"
| "chain n s ((m, i, off) # rest) L sL =
     (m = n \<and> i < length (content n) \<and> off = s + offsetOf (content n) i \<and>
      \<not> isText (content n ! i) \<and> chain (content n ! i) (off + 1) rest L sL)"

definition startP :: "nat \<Rightarrow> (node \<times> nat \<times> nat) list \<Rightarrow> nat \<Rightarrow> nat" where
  "startP s pth d = (if d = 0 then s else snd (snd (pth ! (d - 1))) + 1)"

lemma pathFor_nonempty: "pathFor n s q pth \<Longrightarrow> pth \<noteq> []"
  by (cases pth) auto

lemma pathFor_hd: "pathFor n s q pth \<Longrightarrow> fst (pth ! 0) = n"
  by (induction n s q pth rule: pathFor.induct) auto

lemma chain_pathFor:
  "chain n s pre L sL \<Longrightarrow> pathFor L sL q rest \<Longrightarrow> pathFor n s q (pre @ rest)"
proof (induction pre arbitrary: n s)
  case Nil
  then show ?case by simp
next
  case (Cons e pre)
  obtain m i off where e: "e = (m, i, off)" by (cases e)
  from Cons.prems e have c: "m = n" "i < length (content n)" "off = s + offsetOf (content n) i"
    "\<not> isText (content n ! i)" "chain (content n ! i) (off + 1) pre L sL" by auto
  have tl: "pathFor (content n ! i) (off + 1) q (pre @ rest)"
    using Cons.IH [OF c(5) Cons.prems(2)] .
  from pathFor_bounds [OF tl] nodeSize_Node_ge2 [OF c(4)]
  have b: "off < q" "q < off + nodeSize (content n ! i)" by auto
  obtain e2 r2 where pr: "pre @ rest = e2 # r2"
    using pathFor_nonempty [OF tl] by (cases "pre @ rest") auto
  show ?case using c b tl e unfolding append_Cons pr by simp
qed

lemma pathFor_chain:
  "pathFor n s q pth \<Longrightarrow> d < length pth \<Longrightarrow>
   chain n s (take d pth) (fst (pth ! d)) (startP s pth d) \<and>
   pathFor (fst (pth ! d)) (startP s pth d) q (drop d pth)"
proof (induction d arbitrary: n s pth)
  case 0
  then show ?case using pathFor_hd [OF "0.prems"(1)] by (simp add: startP_def)
next
  case (Suc d)
  then obtain e1 e2 rest where pth: "pth = e1 # e2 # rest"
    by (cases pth; cases "tl pth") auto
  obtain m i off where e: "e1 = (m, i, off)" by (cases e1)
  from Suc.prems(1) pth e have c: "m = n" "i < length (content n)" "off = s + offsetOf (content n) i"
    "\<not> isText (content n ! i)" "pathFor (content n ! i) (off + 1) q (e2 # rest)" by auto
  have dl: "d < length (e2 # rest)" using Suc.prems(2) pth by simp
  have sp: "startP s pth (Suc d) = startP (off + 1) (e2 # rest) d"
    by (cases d) (simp_all add: startP_def pth e)
  have tk: "take (Suc d) pth = e1 # take d (e2 # rest)" "drop (Suc d) pth = drop d (e2 # rest)"
    "pth ! Suc d = (e2 # rest) ! d" by (simp_all add: pth)
  from Suc.IH [OF c(5) dl] show ?case
    unfolding tk sp using c e by simp
qed

lemma chain_append:
  "chain n s pre M sM \<Longrightarrow> chain M sM pre2 L sL \<Longrightarrow> chain n s (pre @ pre2) L sL"
  by (induction pre arbitrary: n s) auto

lemma chain_entry:
  "chain n s pre L sL \<Longrightarrow> k < length pre \<Longrightarrow>
   fst (snd (pre ! k)) < length (content (fst (pre ! k))) \<and>
   \<not> isText (content (fst (pre ! k)) ! fst (snd (pre ! k))) \<and>
   content (fst (pre ! k)) ! fst (snd (pre ! k)) = (if Suc k < length pre then fst (pre ! Suc k) else L) \<and>
   snd (snd (pre ! k)) = startP s pre k + offsetOf (content (fst (pre ! k))) (fst (snd (pre ! k)))"
proof (induction pre arbitrary: n s k)
  case Nil
  then show ?case by simp
next
  case (Cons e pre)
  obtain m i off where e: "e = (m, i, off)" by (cases e)
  from Cons.prems e have c: "m = n" "i < length (content n)" "off = s + offsetOf (content n) i"
    "\<not> isText (content n ! i)" "chain (content n ! i) (off + 1) pre L sL" by auto
  show ?case
  proof (cases k)
    case 0
    have "pre \<noteq> [] \<Longrightarrow> fst (pre ! 0) = content n ! i"
      using c(5) by (cases pre) auto
    moreover have "pre = [] \<Longrightarrow> L = content n ! i" using c(5) by simp
    ultimately show ?thesis using 0 c e by (auto simp: startP_def)
  next
    case (Suc k')
    then have kl: "k' < length pre" using Cons.prems(2) by simp
    have sp: "startP s (e # pre) (Suc k') = startP (off + 1) pre k'"
      by (cases k') (simp_all add: startP_def e)
    from Cons.IH [OF c(5) kl] show ?thesis using Suc sp by (auto split: if_splits)
  qed
qed

lemma chain_end_start:
  "chain n s pre L sL \<Longrightarrow> sL = startP s pre (length pre)"
proof (induction pre arbitrary: n s)
  case Nil
  then show ?case by (simp add: startP_def)
next
  case (Cons e pre)
  obtain m i off where e: "e = (m, i, off)" by (cases e)
  from Cons.prems e have c: "chain (content n ! i) (off + 1) pre L sL" by auto
  have "startP s (e # pre) (Suc (length pre)) = startP (off + 1) pre (length pre)"
    by (cases pre) (simp_all add: startP_def e)
  with Cons.IH [OF c] show ?case by simp
qed

text \<open>Resolving a position inside a node reached by a chain.\<close>

lemma resolve_in_chain:
  assumes "textOk D" "chain D 0 pre L sL" "pathFor L sL q rest"
  shows "resolvePath D q 0 = pre @ rest"
  using resolvePath_pathFor [OF chain_pathFor [OF assms(2,3)] assms(1)] by simp

lemma resolvePos_pathFor:
  "q \<le> fragSize (content D) \<Longrightarrow> pathFor D 0 q (path (resolvePos D q))"
  using pathFor_resolvePath [of q D 0] by (simp add: resolvePos_def)

lemma blockRangeLoop_Some:
  "blockRangeLoop f t P k = Some r \<Longrightarrow>
   rangeFrom r = f \<and> rangeTo r = t \<and> rangeDepth r < k \<and> P (nodeAt f (rangeDepth r)) \<and>
   pos t \<le> endOf f (rangeDepth r)"
  by (induction k) (auto split: if_splits)

lemma blockRange_Some:
  assumes "blockRange f t P = Some r"
  shows "rangeFrom r = f" "rangeTo r = t" "rangeDepth r \<le> depth f" "P (nodeAt f (rangeDepth r))"
    "pos t \<le> endOf f (rangeDepth r)"
    "inlineContent (parent f) \<or> pos f = pos t \<Longrightarrow> rangeDepth r < depth f"
  using blockRangeLoop_Some [OF assms [unfolded blockRange_def]]
  by (auto split: if_splits)

section \<open>Properties of the indent command\<close>

text \<open>
  The universal statements below are about transactions whose selection lies inside the
  document (a selection object of the host always does) and whose document root is not
  itself a list (the root of an editor document is the \<^verbatim>\<open>doc\<close> node).
\<close>

definition selectionInDoc :: "transaction \<Rightarrow> bool" where
  "selectionInDoc tr =
     (anchor tr \<le> fragSize (content (doc tr)) \<and> head tr \<le> fragSize (content (doc tr)))"

fun everyListHasItem :: "node \<Rightarrow> bool" where
  "everyListHasItem (Text s) = True"
| "everyListHasItem (Node t a cs) =
     ((isListType t \<longrightarrow> list_ex isListItemNode cs) \<and> list_all everyListHasItem cs)"

definition noPreviousList :: "transaction \<Rightarrow> nodeRange \<Rightarrow> bool" where
  "noPreviousList tr r =
     (startIndex r = 0 \<and>
      (index (selFrom tr) (rangeDepth r - 1) = 0 \<or>
       \<not> isListNode (content (nodeAt (selFrom tr) (rangeDepth r - 1)) !
                       (index (selFrom tr) (rangeDepth r - 1) - 1))))"

text \<open>
  The previous item in the words of the spec (section 4.2, step 1), to be compared with
  what \<^verbatim>\<open>findPreviousItem\<close> computes.
\<close>

definition previousItemSpec :: "resolvedPos \<Rightarrow> nodeRange \<Rightarrow> node option" where
  "previousItemSpec f r =
     (if 1 \<le> startIndex r then Some (content (nodeAt f (rangeDepth r)) ! (startIndex r - 1))
      else
        (let par = nodeAt f (rangeDepth r - 1);
             i = index f (rangeDepth r - 1)
         in if 1 \<le> i \<and> isListNode (content par ! (i - 1)) \<and>
               isListItemNode (last (content (content par ! (i - 1))))
            then Some (last (content (content par ! (i - 1))))
            else None))"

lemma selFrom_simps [simp]:
  "pos (selFrom tr) = min (anchor tr) (head tr)"
  "pos (selTo tr) = max (anchor tr) (head tr)"
  "path (selFrom tr) = resolvePath (doc tr) (min (anchor tr) (head tr)) 0"
  "path (selTo tr) = resolvePath (doc tr) (max (anchor tr) (head tr)) 0"
  by (simp_all add: selFrom_def selTo_def resolvePos_def)

lemma selFrom_pathFor:
  "selectionInDoc tr \<Longrightarrow> pathFor (doc tr) 0 (pos (selFrom tr)) (path (selFrom tr))"
  using pathFor_resolvePath [of "min (anchor tr) (head tr)" "doc tr" 0]
  by (simp add: selectionInDoc_def min_def)

lemma selTo_pathFor:
  "selectionInDoc tr \<Longrightarrow> pathFor (doc tr) 0 (pos (selTo tr)) (path (selTo tr))"
  using pathFor_resolvePath [of "max (anchor tr) (head tr)" "doc tr" 0]
  by (simp add: selectionInDoc_def max_def)

lemma depth_lt_length: "pathFor n s q (path rp) \<Longrightarrow> d \<le> depth rp \<longleftrightarrow> d < length (path rp)"
  using pathFor_nonempty [of n s q "path rp"] by (cases "path rp") (auto simp: depth_def)

text \<open>The facts about a resolved item range that the proofs below share.\<close>

lemma itemRange_facts:
  assumes sd: "selectionInDoc tr" and root: "\<not> isListNode (doc tr)"
    and cr: "calculateItemRange tr = Some r"
  shows "rangeFrom r = selFrom tr" "rangeTo r = selTo tr"
    "1 \<le> rangeDepth r" "rangeDepth r < length (path (selFrom tr))"
    "isListNode (nodeAt (selFrom tr) (rangeDepth r))"
    "pos (selTo tr) \<le> endOf (selFrom tr) (rangeDepth r)"
proof -
  note br = blockRange_Some [OF cr [unfolded calculateItemRange_def]]
  note pf = selFrom_pathFor [OF sd]
  show "rangeFrom r = selFrom tr" "rangeTo r = selTo tr" by (rule br)+
  show l: "isListNode (nodeAt (selFrom tr) (rangeDepth r))" by (rule br)
  show "pos (selTo tr) \<le> endOf (selFrom tr) (rangeDepth r)" by (rule br)
  show "rangeDepth r < length (path (selFrom tr))"
    using br(3) depth_lt_length [OF pf] by simp
  have "nodeAt (selFrom tr) 0 = doc tr" using pathFor_hd [OF pf] by (simp add: nodeAt_def)
  with l root show "1 \<le> rangeDepth r" by (cases "rangeDepth r") auto
qed

lemma parent_entry:
  assumes pf: "pathFor n s q (path rp)" and d: "Suc k < length (path rp)"
  shows "index rp k < length (content (nodeAt rp k))"
    "content (nodeAt rp k) ! index rp k = nodeAt rp (Suc k)"
    "\<not> isText (nodeAt rp (Suc k))"
proof -
  from pathFor_chain [OF pf d]
  have c: "chain n s (take (Suc k) (path rp)) (nodeAt rp (Suc k)) (startP s (path rp) (Suc k))"
    by (simp add: nodeAt_def)
  have kl: "k < length (take (Suc k) (path rp))" using d by simp
  from chain_entry [OF c kl] d
  show "index rp k < length (content (nodeAt rp k))"
    "content (nodeAt rp k) ! index rp k = nodeAt rp (Suc k)"
    "\<not> isText (nodeAt rp (Suc k))"
    by (auto simp: index_def nodeAt_def)
qed

lemma findPreviousItem_none:
  assumes sd: "selectionInDoc tr" and root: "\<not> isListNode (doc tr)"
    and cr: "calculateItemRange tr = Some r" and np: "noPreviousList tr r"
  shows "findPreviousItem L (selFrom tr) r = Inr None"
proof -
  note f = itemRange_facts [OF sd root cr]
  let ?f = "selFrom tr"
  let ?pd = "rangeDepth r - 1"
  have rd: "resolveDepth ?f (int (rangeDepth r) - 1) = Some ?pd"
    using f(3) by (simp add: resolveDepth_def Let_def nat_diff_distrib')
  have sk: "Suc ?pd < length (path ?f)" using f(3,4) by simp
  note pe = parent_entry [OF selFrom_pathFor [OF sd] sk]
  show ?thesis
  proof (cases "index ?f ?pd = 0")
    case True
    then show ?thesis using np rd by (simp add: findPreviousItem_def noPreviousList_def)
  next
    case False
    then have ch: "child (nodeAt ?f ?pd) (int (index ?f ?pd) - 1) =
        Inr (content (nodeAt ?f ?pd) ! (index ?f ?pd - 1))"
      using pe(1) by (simp add: child_def childCount_def nat_diff_distrib')
    show ?thesis using np rd False ch
      by (simp add: findPreviousItem_def noPreviousList_def Let_def)
  qed
qed

text \<open>
  C3. When no item range resolves for the selection, and when the resolved range starts
  at the first item of its list and the list has no preceding sibling that is a list
  (either it is the first child of its parent, or the sibling before it is not a list),
  the command returns \<open>false\<close> and the transaction is returned exactly as it was
  given: no step is appended and the document is untouched. The first item of a
  top-level list of any kind is such a range.
\<close>

theorem indent_first_item_fails:
  assumes "selectionInDoc tr" and "\<not> isListNode (doc tr)"
    and "calculateItemRange tr = None \<or>
         (\<exists>r. calculateItemRange tr = Some r \<and> noPreviousList tr r)"
  shows "indentList tr = Returned False tr"
proof (cases "calculateItemRange tr")
  case None
  then show ?thesis by (simp add: indentList_def)
next
  case (Some r)
  with assms(3) have np: "noPreviousList tr r" by simp
  show ?thesis
    using Some findPreviousItem_none [OF assms(1,2) Some np]
    by (simp add: indentList_def Let_def)
qed


lemma chain_hereditary:
  assumes hered: "\<And>n c. P n \<Longrightarrow> c \<in> set (content n) \<Longrightarrow> P c"
  shows "chain n s pre L sL \<Longrightarrow> P n \<Longrightarrow> P L"
proof (induction pre arbitrary: n s)
  case Nil
  then show ?case by simp
next
  case (Cons e pre)
  obtain m i off where e: "e = (m, i, off)" by (cases e)
  from Cons.prems e have c: "i < length (content n)" "chain (content n ! i) (off + 1) pre L sL"
    by auto
  have "P (content n ! i)" using hered [OF Cons.prems(2)] c(1) by simp
  from Cons.IH [OF c(2) this] show ?case .
qed

lemma path_node_hereditary:
  assumes hered: "\<And>n c. P n \<Longrightarrow> c \<in> set (content n) \<Longrightarrow> P c"
    and "P n" and pf: "pathFor n s q (path rp)" and k: "k < length (path rp)"
  shows "P (nodeAt rp k)"
  using chain_hereditary [of P, OF hered conjunct1 [OF pathFor_chain [OF pf k]] assms(2)]
  by (simp add: nodeAt_def)

lemma everyListHasItem_content:
  "everyListHasItem n \<Longrightarrow> c \<in> set (content n) \<Longrightarrow> everyListHasItem c"
  by (cases n) (auto simp: list_all_iff)

lemma everyListHasItem_nonempty:
  "everyListHasItem n \<Longrightarrow> isListNode n \<Longrightarrow> content n \<noteq> []"
  by (cases n) (auto simp: list_ex_iff)

lemma index_le_length:
  assumes pf: "pathFor n s q (path rp)" and k: "k < length (path rp)"
  shows "index rp k \<le> length (content (nodeAt rp k))"
proof -
  from pathFor_chain [OF pf k]
  have p: "pathFor (nodeAt rp k) (startP s (path rp) k) q (drop k (path rp))"
    by (simp add: nodeAt_def)
  obtain e rest where dr: "drop k (path rp) = e # rest" "e = path rp ! k"
    using k by (metis Cons_nth_drop_Suc)
  obtain m i off where e: "e = (m, i, off)" by (cases e)
  have "i \<le> length (content (nodeAt rp k))"
    using p dr(1) e by (cases rest) auto
  moreover have "fst (snd (path rp ! k)) = i" using dr(2) e by (metis fst_conv snd_conv)
  ultimately show ?thesis by (simp add: index_def)
qed

text \<open>
  C6. On a document in which every list has an item, \<^verbatim>\<open>findPreviousItem\<close> called as
  the command calls it finds what the spec describes (\<open>previousItemSpec\<close> follows the
  spec's words): the sibling item just before the range when the range starts at index
  1 or later; otherwise the last child of the sibling just before the list in the list's
  parent, provided there is such a sibling, it is a list and its last child is a list
  item; and \<open>false\<close> (here \<open>None\<close>) in all other cases.
\<close>

theorem findPreviousItem_spec:
  assumes sd: "selectionInDoc tr" and root: "\<not> isListNode (doc tr)"
    and inv: "everyListHasItem (doc tr)"
    and cr: "calculateItemRange tr = Some r"
  shows "\<exists>res. findPreviousItem (nodeAt (selFrom tr) (rangeDepth r)) (selFrom tr) r = Inr res \<and>
           map_option previousItem res = previousItemSpec (selFrom tr) r"
proof -
  note f = itemRange_facts [OF sd root cr]
  note pf = selFrom_pathFor [OF sd]
  let ?f = "selFrom tr"
  let ?d = "rangeDepth r"
  let ?L = "nodeAt ?f ?d"
  show ?thesis
  proof (cases "1 \<le> startIndex r")
    case True
    have "startIndex r \<le> length (content ?L)"
      using index_le_length [OF pf f(4)] by (simp add: startIndex_def f(1))
    then have "child ?L (int (startIndex r) - 1) = Inr (content ?L ! (startIndex r - 1))"
      using True by (simp add: child_def childCount_def nat_diff_distrib')
    then show ?thesis using True
      by (simp add: findPreviousItem_def previousItemSpec_def Let_def)
  next
    case False
    let ?pd = "?d - 1"
    let ?par = "nodeAt ?f ?pd"
    let ?i = "index ?f ?pd"
    have rd: "resolveDepth ?f (int ?d - 1) = Some ?pd"
      using f(3) by (simp add: resolveDepth_def Let_def nat_diff_distrib')
    have sk: "Suc ?pd < length (path ?f)" using f(3,4) by simp
    note pe = parent_entry [OF pf sk]
    show ?thesis
    proof (cases "1 \<le> ?i")
      case i0: False
      then show ?thesis using False rd
        by (simp add: findPreviousItem_def previousItemSpec_def Let_def)
    next
      case True
      let ?prev = "content ?par ! (?i - 1)"
      have ch: "child ?par (int ?i - 1) = Inr ?prev"
        using pe(1) True by (simp add: child_def childCount_def nat_diff_distrib')
      show ?thesis
      proof (cases "isListNode ?prev")
        case nl: False
        then show ?thesis using False rd True ch
          by (simp add: findPreviousItem_def previousItemSpec_def Let_def)
      next
        case lst: True
        have "everyListHasItem ?par"
          using path_node_hereditary [of everyListHasItem, OF everyListHasItem_content inv pf]
            sk by simp
        moreover have "?prev \<in> set (content ?par)" using pe(1) True by simp
        ultimately have "everyListHasItem ?prev" by (rule everyListHasItem_content)
        then have ne: "content ?prev \<noteq> []" using lst by (rule everyListHasItem_nonempty)
        then have ch2: "child ?prev (int (childCount ?prev) - 1) = Inr (last (content ?prev))"
          by (simp add: child_def childCount_def nat_diff_distrib' last_conv_nth)
        show ?thesis using False rd True ch ch2 lst
          by (simp add: findPreviousItem_def previousItemSpec_def Let_def)
      qed
    qed
  qed
qed

text \<open>What a successful run of the command went through.\<close>

lemma setSelection_Inr:
  "setSelection tr a h = Inr tr' \<Longrightarrow>
   tr' = tr\<lparr>anchor := nat a, head := nat h\<rparr> \<and> 0 \<le> a \<and> 0 \<le> h \<and>
   a \<le> int (fragSize (content (doc tr))) \<and> h \<le> int (fragSize (content (doc tr)))"
  by (auto simp: setSelection_def resolve_def split: if_splits sum.splits)

lemma finishSelection_True:
  assumes "finishSelection tr0 tr rng res = Returned b tr'"
  shows "b" "doc tr' = doc tr" "steps tr' = steps tr" "mapping tr' = mapping tr"
    "sameList tr0 rng res \<Longrightarrow>
       int (anchor tr') = int (pos (selFrom tr0)) \<and> int (head tr') = int (pos (selTo tr0))"
    "\<not> sameList tr0 rng res \<Longrightarrow>
       int (anchor tr') = int (pos (selFrom tr0)) - 2 \<and> int (head tr') = int (pos (selTo tr0)) - 2"
  using assms
  by (auto simp: finishSelection_def Let_def split: if_splits sum.splits dest!: setSelection_Inr)

lemma trStep_Inr:
  "trStep tr s = Inr tr1 \<Longrightarrow>
   stepApply s (doc tr) = Inr (Some (doc tr1)) \<and> steps tr1 = steps tr @ [s] \<and>
   mapping tr1 = mapping tr @ [getMap s] \<and> anchor tr1 = anchor tr \<and> head tr1 = head tr"
  by (auto simp: trStep_def split: sum.splits option.splits)

lemma trReplace_Inr:
  "trReplace tr f t sl = Inr tr1 \<Longrightarrow>
   tr1 = tr \<or> trStep tr (ReplaceStep f t sl) = Inr tr1"
  by (auto simp: trReplace_def split: if_splits sum.splits)

lemma deleteRange_Inr:
  "deleteRange tr a b = Inr tr1 \<Longrightarrow>
   tr1 = tr \<or> (\<exists>f t. trStep tr (ReplaceStep f t emptySlice) = Inr tr1)"
  by (auto simp: deleteRange_def trDelete_def split: sum.splits option.splits prod.splits
      dest!: trReplace_Inr)

lemma replaceRangeWith_Inr:
  "replaceRangeWith tr a b n = Inr tr2 \<Longrightarrow>
   trStep tr (ReplaceStep a b \<lparr>sliceContent = [n], openStart = 0, openEnd = 0\<rparr>) = Inr tr2"
  by (auto simp: replaceRangeWith_def Let_def split: if_splits sum.splits)

definition caseAStep :: "node \<Rightarrow> nodeRange \<Rightarrow> step" where
  "caseAStep selectedList rng =
     ReplaceAroundStep (int (rangeStart rng) - 1) (int (rangeEnd rng) - 1)
       (int (rangeStart rng)) (int (rangeEnd rng))
       \<lparr>sliceContent = [copy selectedList []], openStart = 0, openEnd = 0\<rparr> 1"

definition rebuiltItem :: "previousItemResult \<Rightarrow> node \<Rightarrow> slice \<Rightarrow> slice option \<Rightarrow> node" where
  "rebuiltItem res selectedList sel unsel =
     copy (previousItem res)
       (fragAppend
          (fragAppend (content (previousItem res)) [copy selectedList (sliceContent sel)])
          (case unsel of Some u \<Rightarrow> sliceContent u | None \<Rightarrow> []))"

lemma indentList_True_cases:
  assumes "indentList tr = Returned True tr'"
  obtains (A) rng res tr1 where
      "calculateItemRange tr = Some rng"
      "isListNode (parent (resolvePos (doc tr) (rangeStart rng)))"
      "findPreviousItem (parent (resolvePos (doc tr) (rangeStart rng))) (selFrom tr) rng = Inr (Some res)"
      "typeOf (previousList res) = typeOf (parent (resolvePos (doc tr) (rangeStart rng)))"
      "trStep tr (caseAStep (parent (resolvePos (doc tr) (rangeStart rng))) rng) = Inr tr1"
      "finishSelection tr tr1 rng res = Returned True tr'"
  | (B) rng res sel unsel tr1 tr2 where
      "calculateItemRange tr = Some rng"
      "isListNode (parent (resolvePos (doc tr) (rangeStart rng)))"
      "findPreviousItem (parent (resolvePos (doc tr) (rangeStart rng))) (selFrom tr) rng = Inr (Some res)"
      "typeOf (previousList res) \<noteq> typeOf (parent (resolvePos (doc tr) (rangeStart rng)))"
      "sliceSelectedItems (doc tr) (selTo tr) rng = Inr (sel, unsel)"
      "deleteRange tr (int (rangeStart rng)) (int (rangeEnd rng)) = Inr tr1"
      "check (rebuiltItem res (parent (resolvePos (doc tr) (rangeStart rng))) sel unsel)"
      "replaceRangeWith tr1 (previousItemStart res - 1)
         (previousItemStart res + int (nodeSize (previousItem res)) - 2 + 1)
         (rebuiltItem res (parent (resolvePos (doc tr) (rangeStart rng))) sel unsel) = Inr tr2"
      "finishSelection tr tr2 rng res = Returned True tr'"
proof (cases "calculateItemRange tr")
  case None
  with assms show ?thesis by (simp add: indentList_def)
next
  case (Some rng)
  let ?L = "parent (resolvePos (doc tr) (rangeStart rng))"
  from assms Some have l: "isListNode ?L"
    by (auto simp: indentList_def Let_def split: if_splits)
  from assms Some l obtain res where
    fp: "findPreviousItem ?L (selFrom tr) rng = Inr (Some res)"
    by (auto simp: indentList_def Let_def split: sum.splits option.splits)
  show ?thesis
  proof (cases "typeOf (previousList res) = typeOf ?L")
    case True
    with assms Some l fp obtain tr1 where
      "trStep tr (caseAStep ?L rng) = Inr tr1" "finishSelection tr tr1 rng res = Returned True tr'"
      by (auto simp: indentList_def Let_def caseAStep_def split: sum.splits)
    with A [OF Some l fp True] show ?thesis by blast
  next
    case False
    with assms Some l fp obtain sel unsel where
      ss: "sliceSelectedItems (doc tr) (selTo tr) rng = Inr (sel, unsel)"
      by (auto simp: indentList_def Let_def split: sum.splits)
    with assms Some l fp False obtain tr1 where
      dr: "deleteRange tr (int (rangeStart rng)) (int (rangeEnd rng)) = Inr tr1"
      by (auto simp: indentList_def Let_def split: sum.splits)
    from assms Some l fp False ss dr have ck: "check (rebuiltItem res ?L sel unsel)"
      by (auto simp: indentList_def Let_def rebuiltItem_def split: sum.splits if_splits)
    from assms Some l fp False ss dr ck obtain tr2 where
      rr: "replaceRangeWith tr1 (previousItemStart res - 1)
             (previousItemStart res + int (nodeSize (previousItem res)) - 2 + 1)
             (rebuiltItem res ?L sel unsel) = Inr tr2"
      and fs: "finishSelection tr tr2 rng res = Returned True tr'"
      by (auto simp: indentList_def Let_def rebuiltItem_def split: sum.splits if_splits)
    show ?thesis by (rule B [OF Some l fp False ss dr ck rr fs])
  qed
qed

subsection \<open>Position maps\<close>

lemma mappingMap_append: "mappingMap (ms @ ns) q = mappingMap ns (mappingMap ms q)"
  by (simp add: mappingMap_def)

lemma mappingMap_single [simp]: "mappingMap [m] q = stepMapMap m q"
  by (simp add: mappingMap_def)

lemma mappingMap_Nil [simp]: "mappingMap [] q = q"
  by (simp add: mappingMap_def)

lemma replaceStep_map_mono:
  "0 \<le> new \<Longrightarrow> q1 \<le> q2 \<Longrightarrow>
   stepMapMap [(st, old, new)] q1 \<le> stepMapMap [(st, old, new)] q2"
  by (auto simp: stepMapMap_def Let_def)

lemma caseA_map_mono:
  "q1 \<le> q2 \<Longrightarrow>
   stepMapMap [(a, 1, 1), (e, - 1, 1)] q1 \<le> stepMapMap [(a, 1, 1), (e, - 1, 1)] q2"
  by (auto simp: stepMapMap_def Let_def)

lemma getMap_ReplaceStep_mono:
  "q1 \<le> q2 \<Longrightarrow> stepMapMap (getMap (ReplaceStep f t sl)) q1 \<le> stepMapMap (getMap (ReplaceStep f t sl)) q2"
  by (simp add: replaceStep_map_mono)

lemma sliceSize_copy_list:
  "\<not> isText L \<Longrightarrow> sliceSize \<lparr>sliceContent = [copy L []], openStart = 0, openEnd = 0\<rparr> = 2"
  by (cases L) (simp_all add: sliceSize_def)

lemma isListNode_not_text: "isListNode n \<Longrightarrow> \<not> isText n"
  by (cases n) simp_all

lemma getMap_caseAStep:
  "isListNode L \<Longrightarrow>
   getMap (caseAStep L rng) = [(int (rangeStart rng) - 1, 1, 1), (int (rangeEnd rng), - 1, 1)]"
  by (simp add: caseAStep_def sliceSize_copy_list isListNode_not_text)

text \<open>
  C5. A successful run appends step maps to the transaction's mapping, and the
  composition of the appended maps preserves the order of positions: for any two
  positions \<open>p1 < p2\<close> of the document before the command, the mapped positions
  satisfy \<open>map p1 \<le> map p2\<close>.
\<close>

theorem indent_mapping_monotone:
  assumes "indentList tr = Returned True tr'"
  shows "\<exists>ms. mapping tr' = mapping tr @ ms \<and>
           (\<forall>p1 p2. p1 < p2 \<longrightarrow> mappingMap ms p1 \<le> mappingMap ms p2)"
  using assms
proof (cases rule: indentList_True_cases)
  case (A rng res tr1)
  let ?L = "parent (resolvePos (doc tr) (rangeStart rng))"
  have "mapping tr' = mapping tr @ [getMap (caseAStep ?L rng)]"
    using trStep_Inr [OF A(5)] finishSelection_True(4) [OF A(6)] by simp
  moreover have "\<forall>p1 p2. p1 < p2 \<longrightarrow>
      mappingMap [getMap (caseAStep ?L rng)] p1 \<le> mappingMap [getMap (caseAStep ?L rng)] p2"
    using caseA_map_mono by (simp add: getMap_caseAStep [OF A(2)])
  ultimately show ?thesis by blast
next
  case (B rng res sel unsel tr1 tr2)
  from deleteRange_Inr [OF B(6)] obtain m1 where
    m1: "mapping tr1 = mapping tr @ m1"
      "\<forall>q1 q2. q1 \<le> q2 \<longrightarrow> mappingMap m1 q1 \<le> mappingMap m1 q2"
  proof
    assume "tr1 = tr"
    then have "mapping tr1 = mapping tr @ []" by simp
    then show ?thesis by (rule that) simp
  next
    assume "\<exists>f t. trStep tr (ReplaceStep f t emptySlice) = Inr tr1"
    then obtain f t where "trStep tr (ReplaceStep f t emptySlice) = Inr tr1" by blast
    from trStep_Inr [OF this]
    have "mapping tr1 = mapping tr @ [getMap (ReplaceStep f t emptySlice)]" by simp
    then show ?thesis
      by (rule that) (simp add: replaceStep_map_mono)
  qed
  from trStep_Inr [OF replaceRangeWith_Inr [OF B(8)]] obtain s2 where
    m2: "mapping tr2 = mapping tr1 @ [getMap s2]" "\<exists>f t sl. s2 = ReplaceStep f t sl"
    by blast
  have mono2: "\<forall>q1 q2. q1 \<le> q2 \<longrightarrow> stepMapMap (getMap s2) q1 \<le> stepMapMap (getMap s2) q2"
    using m2(2) getMap_ReplaceStep_mono by blast
  have "mapping tr' = mapping tr @ (m1 @ [getMap s2])"
    using m1(1) m2(1) finishSelection_True(4) [OF B(9)] by simp
  moreover have "\<forall>p1 p2. p1 < p2 \<longrightarrow>
      mappingMap (m1 @ [getMap s2]) p1 \<le> mappingMap (m1 @ [getMap s2]) p2"
    using m1(2) mono2 by (simp add: mappingMap_append)
  ultimately show ?thesis by blast
qed

section \<open>The geometry of a resolved item range\<close>

lemma check_content: "check n \<Longrightarrow> c \<in> set (content n) \<Longrightarrow> check c"
  by (cases n) (auto simp: list_all_iff)

lemma list_children:
  assumes "check L" "isListNode L" "c \<in> set (content L)"
  shows "\<not> isText c" "isListItemNode c" "check c"
proof -
  obtain t a cs where L: "L = Node t a cs" using assms(2) by (cases L) auto
  from assms L have "hasType isListItemType c"
    by (cases t) (auto simp: list_all_iff hasType_def split: option.splits)
  then show "\<not> isText c" "isListItemNode c"
    by (cases c; simp add: hasType_def)+
  show "check c" using assms(1,3) by (rule check_content)
qed

lemma list_nonempty: "check L \<Longrightarrow> isListNode L \<Longrightarrow> content L \<noteq> []"
  by (cases L; cases "typeOf L") (auto elim: isListType.elims)

definition selList :: "transaction \<Rightarrow> nodeRange \<Rightarrow> node" where
  "selList tr r = nodeAt (selFrom tr) (rangeDepth r)"

definition listStart :: "transaction \<Rightarrow> nodeRange \<Rightarrow> nat" where
  "listStart tr r = start (selFrom tr) (rangeDepth r)"

definition listPre :: "transaction \<Rightarrow> nodeRange \<Rightarrow> (node \<times> nat \<times> nat) list" where
  "listPre tr r = take (rangeDepth r) (path (selFrom tr))"

lemma start_startP: "start rp d = startP 0 (path rp) d"
  by (simp add: start_def startP_def)

text \<open>Accessors of a position whose path is a chain followed by a rest.\<close>

lemma split_path_accessors:
  assumes "path rp = pre @ rest" "rest \<noteq> []"
  shows "nodeAt rp (length pre) = fst (hd rest)"
    "index rp (length pre) = fst (snd (hd rest))"
    "depth rp = length pre + length rest - 1"
    "k < length rest \<Longrightarrow> nodeAt rp (length pre + k) = fst (rest ! k)"
    "k < length rest \<Longrightarrow> index rp (length pre + k) = fst (snd (rest ! k))"
    "k < length rest \<Longrightarrow> snd (snd (path rp ! (length pre + k))) = snd (snd (rest ! k))"
    "k < length pre \<Longrightarrow> nodeAt rp k = fst (pre ! k)"
    "k < length pre \<Longrightarrow> index rp k = fst (snd (pre ! k))"
    "last (path rp) = last rest"
  using assms by (auto simp: nodeAt_def index_def depth_def nth_append hd_conv_nth)

lemma itemRange_geometry:
  assumes sd: "selectionInDoc tr" and root: "\<not> isListNode (doc tr)" and ck: "check (doc tr)"
    and cr: "calculateItemRange tr = Some r"
  shows "chain (doc tr) 0 (listPre tr r) (selList tr r) (listStart tr r)"
    and "length (listPre tr r) = rangeDepth r"
    and "isListNode (selList tr r)" and "check (selList tr r)"
    and "startIndex r < endIndex r" and "endIndex r \<le> length (content (selList tr r))"
    and "rangeStart r = listStart tr r + offsetOf (content (selList tr r)) (startIndex r)"
    and "rangeEnd r = listStart tr r + offsetOf (content (selList tr r)) (endIndex r)"
    and "rangeStart r \<le> pos (selFrom tr)" and "pos (selTo tr) \<le> rangeEnd r"
    and "pos (selFrom tr) \<le> pos (selTo tr)"
proof -
  let ?D = "doc tr"
  let ?f = "selFrom tr"
  let ?t = "selTo tr"
  let ?d = "rangeDepth r"
  let ?L = "selList tr r"
  let ?sL = "listStart tr r"
  let ?pre = "listPre tr r"
  let ?cs = "content ?L"
  note fa = itemRange_facts [OF sd root cr]
  note br = blockRange_Some [OF cr [unfolded calculateItemRange_def]]
  note pf = selFrom_pathFor [OF sd]
  have tok: "textOk ?D" using ck by (rule check_textOk)
  from pathFor_chain [OF pf fa(4)]
  have ch: "chain ?D 0 ?pre ?L ?sL" and pfL: "pathFor ?L ?sL (pos ?f) (drop ?d (path ?f))"
    by (simp_all add: selList_def listStart_def listPre_def nodeAt_def start_startP)
  show "chain ?D 0 ?pre ?L ?sL" by (rule ch)
  show len: "length ?pre = ?d" using fa(4) by (simp add: listPre_def)
  show isl: "isListNode ?L" using fa(5) by (simp add: selList_def)
  show ckL: "check ?L"
    using chain_hereditary [of check, OF check_content ch ck] .
  note lc = list_children [OF ckL isl]
  show le: "pos ?f \<le> pos ?t" by simp
  have bf: "?sL \<le> pos ?f" using pathFor_bounds [OF pfL] by simp
  have bt: "pos ?t \<le> ?sL + fragSize ?cs"
    using fa(6) by (simp add: endOf_def selList_def listStart_def)
  define restT where "restT = resolvePath ?L (pos ?t - ?sL) ?sL"
  have pfT: "pathFor ?L ?sL (pos ?t) restT"
    using pathFor_resolvePath [of "pos ?t - ?sL" ?L ?sL] bf bt le unfolding restT_def
    by (simp del: selFrom_simps)
  have pt: "path ?t = ?pre @ restT"
    using resolve_in_chain [OF tok ch pfT] by simp
  define restF where "restF = drop ?d (path ?f)"
  have pfF: "pathFor ?L ?sL (pos ?f) restF" using pfL by (simp add: restF_def)
  have pff: "path ?f = ?pre @ restF" by (simp add: listPre_def restF_def)
  have neF: "restF \<noteq> []" and neT: "restT \<noteq> []"
    using pathFor_nonempty [OF pfF] pathFor_nonempty [OF pfT] by auto
  note accF = split_path_accessors [OF pff neF, unfolded len]
  note accT = split_path_accessors [OF pt neT, unfolded len]
  \<comment> \<open>the shape of the two rests\<close>
  obtain i offF moreF where rF: "restF = (?L, i, offF) # moreF"
    using pfF neF by (cases restF; cases "hd restF") (auto dest: pathFor_hd)
  obtain j' offT moreT where rT: "restT = (?L, j', offT) # moreT"
    using pfT neT by (cases restT; cases "hd restT") (auto dest: pathFor_hd)
  have si: "startIndex r = i" using accF(2) rF by (simp add: startIndex_def br(1))
  have offF: "offF = ?sL + offsetOf ?cs i" and il: "i \<le> length ?cs"
    using pfF rF by (cases moreF; auto)+
  have offT: "offT = ?sL + offsetOf ?cs j'" and jl: "j' \<le> length ?cs"
    using pfT rT by (cases moreT; auto)+
  have fcase: "(moreF = [] \<and> pos ?f = offF) \<or>
               (moreF \<noteq> [] \<and> i < length ?cs \<and> offF < pos ?f \<and> pos ?f < offF + nodeSize (?cs ! i))"
  proof (cases moreF)
    case Nil
    with pfF rF lc(1) show ?thesis by (auto simp del: selFrom_simps)
  next
    case (Cons e m)
    with pfF rF show ?thesis by (auto simp del: selFrom_simps)
  qed
  have tcase: "(moreT = [] \<and> pos ?t = offT) \<or>
               (moreT \<noteq> [] \<and> j' < length ?cs \<and> offT < pos ?t \<and> pos ?t < offT + nodeSize (?cs ! j') \<and>
                fst (hd moreT) = ?cs ! j')"
  proof (cases moreT)
    case Nil
    with pfT rT lc(1) show ?thesis by (auto simp del: selFrom_simps)
  next
    case (Cons e m)
    with pfT rT show ?thesis by (auto simp del: selFrom_simps dest: pathFor_hd)
  qed
  have dF: "depth ?f = ?d + length moreF" using accF(3) rF by simp
  have dT: "depth ?t = ?d + length moreT" using accT(3) rT by simp
  show rs: "rangeStart r = ?sL + offsetOf ?cs (startIndex r)"
  proof (cases "moreF = []")
    case True
    then show ?thesis using fcase dF offF si by (simp add: rangeStart_def br(1) before_def)
  next
    case False
    then have "depth ?f \<noteq> ?d" using dF by simp
    moreover have "snd (snd (path ?f ! ?d)) = offF" using accF(6) [of 0] rF by simp
    ultimately show ?thesis using offF si by (simp add: rangeStart_def br(1) before_def)
  qed
  have ei: "endIndex r = (if moreT = [] then j' else j' + 1)"
  proof (cases "moreT = []")
    case True
    then have "textOffset ?t = 0" using tcase accT(9) rT by (simp add: textOffset_def)
    then show ?thesis using True dT accT(2) rT by (simp add: endIndex_def br(2) indexAfter_def)
  next
    case False
    then show ?thesis using dT accT(2) rT by (simp add: endIndex_def br(2) indexAfter_def)
  qed
  show re: "rangeEnd r = ?sL + offsetOf ?cs (endIndex r)"
  proof (cases "moreT = []")
    case True
    then show ?thesis using tcase dT offT ei by (simp add: rangeEnd_def br(2) after_def)
  next
    case False
    then have ne: "depth ?t \<noteq> ?d" using dT by simp
    have o: "snd (snd (path ?t ! ?d)) = offT" using accT(6) [of 0] rT by simp
    have "nodeAt ?t (?d + 1) = fst (hd moreT)"
      using accT(4) [of 1] rT False by (cases moreT) auto
    then have n: "nodeAt ?t (?d + 1) = ?cs ! j'" using tcase False by simp
    show ?thesis using ne o n offT ei False tcase
      by (simp add: rangeEnd_def br(2) after_def offsetOf_Suc)
  qed
  show ej: "endIndex r \<le> length ?cs" using ei jl tcase by auto
  have ap: "allPos ?cs" using check_textOk [OF ckL] by (rule textOk_allPos)
  show "rangeStart r \<le> pos ?f" using rs si offF fcase by (auto simp del: selFrom_simps)
  show "pos ?t \<le> rangeEnd r"
    using re ei offT tcase by (auto simp del: selFrom_simps simp: offsetOf_Suc)
  show "startIndex r < endIndex r"
  proof (rule ccontr)
    assume "\<not> startIndex r < endIndex r"
    then have ge: "endIndex r \<le> i" using si by simp
    then have o: "offsetOf ?cs (endIndex r) \<le> offsetOf ?cs i" by (rule offsetOf_mono)
    show False
    proof (cases "moreF = []")
      case True
      then have lt: "pos ?f < pos ?t"
        using br(6) dF le by (cases "pos ?f = pos ?t") (auto simp del: selFrom_simps)
      show False
      proof (cases "moreT = []")
        case mt: True
        then show False using lt o True fcase tcase offF offT ei by (simp del: selFrom_simps)
      next
        case mt: False
        then show False using lt o True fcase tcase offF offT ei
          by (simp del: selFrom_simps add: offsetOf_Suc)
      qed
    next
      case False
      show False
      proof (cases "moreT = []")
        case mt: True
        then show False using le o False fcase tcase offF offT ei by (simp del: selFrom_simps)
      next
        case mt: False
        then show False using le o False fcase tcase offF offT ei
          by (simp del: selFrom_simps add: offsetOf_Suc)
      qed
    qed
  qed
qed

section \<open>Case A: the step around the selected items\<close>

text \<open>Paths of the positions on a child boundary and at the end of a child's content.\<close>

lemma chain_bounds:
  assumes "chain D 0 pre L sL" "sL \<le> q" "q \<le> sL + fragSize (content L)"
  shows "q \<le> fragSize (content D)"
proof -
  have "pathFor L sL q (resolvePath L (q - sL) sL)"
    using pathFor_resolvePath [of "q - sL" L sL] assms by simp
  from pathFor_bounds [OF chain_pathFor [OF assms(1) this]] show ?thesis by simp
qed

lemma resolve_nat:
  "q \<le> fragSize (content D) \<Longrightarrow> resolve D (int q) = Inr \<lparr>pos = q, path = resolvePath D q 0\<rparr>"
  by (simp add: resolve_def)

lemma resolve_boundary:
  assumes tok: "textOk D" and ch: "chain D 0 pre L sL" and k: "k \<le> length (content L)"
  shows "resolve D (int (sL + offsetOf (content L) k)) =
         Inr \<lparr>pos = sL + offsetOf (content L) k,
              path = pre @ [(L, k, sL + offsetOf (content L) k)]\<rparr>"
proof -
  let ?q = "sL + offsetOf (content L) k"
  have pf: "pathFor L sL ?q [(L, k, ?q)]" using k by simp
  have b: "?q \<le> fragSize (content D)"
    using chain_bounds [OF ch, of ?q] offsetOf_le [of "content L" k] by simp
  show ?thesis unfolding resolve_nat [OF b] resolve_in_chain [OF tok ch pf] ..
qed

lemma resolve_child_end:
  assumes tok: "textOk D" and ch: "chain D 0 pre L sL" and k: "k < length (content L)"
    and nt: "\<not> isText (content L ! k)"
  shows "resolve D (int (sL + offsetOf (content L) (Suc k)) - 1) =
         Inr \<lparr>pos = sL + offsetOf (content L) (Suc k) - 1,
              path = pre @ [(L, k, sL + offsetOf (content L) k),
                            (content L ! k, length (content (content L ! k)),
                             sL + offsetOf (content L) (Suc k) - 1)]\<rparr>"
proof -
  let ?c = "content L ! k"
  let ?o = "sL + offsetOf (content L) k"
  let ?q = "sL + offsetOf (content L) (Suc k) - 1"
  have sz: "nodeSize ?c = 2 + fragSize (content ?c)" using nt by (rule nodeSize_Node_ge2)
  have q: "?q = ?o + 1 + fragSize (content ?c)" using k sz by (simp add: offsetOf_Suc)
  have pf: "pathFor L sL ?q [(L, k, ?o), (?c, length (content ?c), ?q)]"
    using k nt sz q by simp
  have b: "?q \<le> fragSize (content D)"
    using chain_bounds [OF ch, of ?q] offsetOf_le [of "content L" "Suc k"] q by simp
  have i: "int (sL + offsetOf (content L) (Suc k)) - 1 = int ?q" using q k sz
    by (simp add: offsetOf_Suc)
  show ?thesis unfolding i resolve_nat [OF b] resolve_in_chain [OF tok ch pf] ..
qed

text \<open>Cutting a fragment on child boundaries.\<close>

lemma cutLoop_from_before:
  assumes "allPos cs" "f \<le> q" "b \<le> length cs"
  shows "cutLoop cs q f (q + offsetOf cs b) = take b cs"
  using assms
proof (induction cs arbitrary: q b)
  case Nil
  then show ?case by simp
next
  case (Cons c cs)
  have pc: "0 < nodeSize c" and ap: "allPos cs" using Cons.prems(1) by (auto simp: allPos_def)
  show ?case
  proof (cases b)
    case 0
    then show ?thesis by simp
  next
    case (Suc b')
    then have b': "b' \<le> length cs" using Cons.prems by simp
    have f: "f \<le> q + nodeSize c" using Cons.prems(2) by simp
    from Cons.IH [OF ap f b'] show ?thesis
      using Suc pc Cons.prems(2) by (simp add: Let_def add.assoc)
  qed
qed

lemma cutLoop_boundaries:
  assumes "allPos cs" "a \<le> b" "b \<le> length cs"
  shows "cutLoop cs q (q + offsetOf cs a) (q + offsetOf cs b) = take (b - a) (drop a cs)"
  using assms
proof (induction cs arbitrary: q a b)
  case Nil
  then show ?case by simp
next
  case (Cons c cs)
  have pc: "0 < nodeSize c" and ap: "allPos cs" using Cons.prems(1) by (auto simp: allPos_def)
  show ?case
  proof (cases a)
    case 0
    then show ?thesis using cutLoop_from_before [OF Cons.prems(1) _ Cons.prems(3), of q q] by simp
  next
    case (Suc a')
    then obtain b' where b: "b = Suc b'" using Cons.prems(2) by (cases b) auto
    have le: "a' \<le> b'" "b' \<le> length cs" using Cons.prems Suc b by auto
    from Cons.IH [OF ap le, of "q + nodeSize c"]
    show ?thesis using Suc b pc by (simp add: Let_def add.assoc)
  qed
qed

lemma offsetOf_eq_0: "allPos cs \<Longrightarrow> a \<le> length cs \<Longrightarrow> offsetOf cs a = 0 \<Longrightarrow> a = 0"
  using offsetOf_strict [of cs 0 a] by (cases a) auto

lemma offsetOf_inj:
  "allPos cs \<Longrightarrow> a \<le> length cs \<Longrightarrow> b \<le> length cs \<Longrightarrow> offsetOf cs a = offsetOf cs b \<Longrightarrow> a = b"
  using offsetOf_strict [of cs a b] offsetOf_strict [of cs b a] by (cases a b rule: linorder_cases) auto

lemma cutFrag_boundaries:
  assumes ap: "allPos cs" and ab: "a \<le> b" and b: "b \<le> length cs"
  shows "cutFrag cs (offsetOf cs a) (offsetOf cs b) = take (b - a) (drop a cs)"
proof (cases "offsetOf cs a = 0 \<and> offsetOf cs b = fragSize cs")
  case True
  then have "a = 0" using offsetOf_eq_0 [OF ap] ab b by simp
  moreover have "b = length cs" using True offsetOf_inj [OF ap b, of "length cs"] by simp
  ultimately show ?thesis using True by (simp add: fragSize_def)
next
  case False
  show ?thesis
  proof (cases "a = b")
    case True
    have n: "\<not> (offsetOf cs b = 0 \<and> offsetOf cs b = sum_list (map nodeSize cs))"
      using False True by (simp add: fragSize_def)
    have "cutFrag cs (offsetOf cs b) (offsetOf cs b) = []"
      by (subst cutFrag.simps) (simp only: n if_False less_irrefl)
    then show ?thesis using True by simp
  next
    case ne: False
    then have lt: "offsetOf cs a < offsetOf cs b" using offsetOf_strict [OF ap _ b, of a] ab by simp
    have n: "\<not> (offsetOf cs a = 0 \<and> offsetOf cs b = sum_list (map nodeSize cs))"
      using False by (simp add: fragSize_def)
    have "cutFrag cs (offsetOf cs a) (offsetOf cs b) = cutLoop cs 0 (offsetOf cs a) (offsetOf cs b)"
      by (subst cutFrag.simps) (simp only: n lt if_False if_True)
    then show ?thesis using cutLoop_boundaries [OF ap ab b, of 0] by simp
  qed
qed


declare cutFrag.simps [simp del]

lemma chain_start:
  assumes "chain D 0 pre L sL" "path rp = pre @ rest"
  shows "start rp (length pre) = sL"
proof (cases "length pre")
  case 0
  then show ?thesis using assms by (simp add: start_def)
next
  case (Suc k)
  then have "startP 0 (path rp) (length pre) = startP 0 pre (length pre)"
    using assms(2) by (simp add: startP_def nth_append)
  then show ?thesis using chain_end_start [OF assms(1)] by (simp add: start_startP)
qed

lemma chain_textOk: "chain D s pre L sL \<Longrightarrow> textOk D \<Longrightarrow> textOk L"
  by (rule chain_hereditary [of textOk, OF textOk_content])

lemma sharedDepthLoop_top:
  "(d \<noteq> 0 \<Longrightarrow> start rp d \<le> q \<and> q \<le> endOf rp d) \<Longrightarrow> sharedDepthLoop rp q d = d"
  by (cases d) auto

lemma nodeSlice_boundaries:
  assumes tok: "textOk D" and ch: "chain D 0 pre L sL"
    and ab: "a < b" and b: "b \<le> length (content L)"
  shows "nodeSlice D (int (sL + offsetOf (content L) a)) (int (sL + offsetOf (content L) b)) =
         Inr \<lparr>sliceContent = take (b - a) (drop a (content L)), openStart = 0, openEnd = 0\<rparr>"
proof -
  let ?cs = "content L"
  let ?f = "\<lparr>pos = sL + offsetOf ?cs a, path = pre @ [(L, a, sL + offsetOf ?cs a)]\<rparr>"
  let ?t = "\<lparr>pos = sL + offsetOf ?cs b, path = pre @ [(L, b, sL + offsetOf ?cs b)]\<rparr>"
  have ap: "allPos ?cs" using chain_textOk [OF ch tok] by (rule textOk_allPos)
  have lt: "offsetOf ?cs a < offsetOf ?cs b" using offsetOf_strict [OF ap ab b] .
  have rf: "resolve D (int (sL + offsetOf ?cs a)) = Inr ?f"
    using resolve_boundary [OF tok ch, of a] ab b by simp
  have rt: "resolve D (int (sL + offsetOf ?cs b)) = Inr ?t"
    using resolve_boundary [OF tok ch b] .
  have df: "depth ?f = length pre" "depth ?t = length pre" by (simp_all add: depth_def)
  have st: "start ?f (length pre) = sL" by (rule chain_start [OF ch]) simp
  have nd: "nodeAt ?f (length pre) = L" by (simp add: nodeAt_def)
  have en: "endOf ?f (length pre) = sL + fragSize ?cs" by (simp add: endOf_def st nd)
  have sh: "sharedDepth ?f (sL + offsetOf ?cs b) = length pre"
    unfolding sharedDepth_def df
    by (rule sharedDepthLoop_top) (simp add: st en offsetOf_le)
  have ne: "int (sL + offsetOf ?cs a) \<noteq> int (sL + offsetOf ?cs b)" using lt by simp
  show ?thesis
    unfolding nodeSlice_def rf rt using ne
    by (simp add: Let_def sh st nd df cutFrag_boundaries [OF ap less_imp_le [OF ab] b] del: of_nat_add)
qed

lemma findIndex_single_inside:
  "0 < q \<Longrightarrow> q < nodeSize n \<Longrightarrow> findIndex [n] q = (0, 0)"
  by (simp add: findIndex_def Let_def)

lemma cutFrag_Nil [simp]: "cutFrag [] a b = []"
  by (simp add: cutFrag.simps)

lemma insertAt_empty_copy:
  assumes "\<not> isText L" "canReplace (copy L []) 0 0 gap"
  shows "insertAt \<lparr>sliceContent = [copy L []], openStart = 0, openEnd = 0\<rparr> 1 gap =
         Some \<lparr>sliceContent = [copy L gap], openStart = 0, openEnd = 0\<rparr>"
proof -
  obtain t a cs where L: "L = Node t a cs" using assms(1) by (cases L) auto
  have inner: "insertInto [] 0 gap (Some (Node t a [])) = Some gap"
    using assms(2) L
    by (subst insertInto.simps) (simp add: findIndex_def Let_def)
  have "insertInto [Node t a []] 1 gap None = Some [Node t a gap]"
    by (subst insertInto.simps)
      (simp add: findIndex_single_inside Let_def inner replaceChild_def)
  then show ?thesis by (simp add: insertAt_def L)
qed

text \<open>The content expressions of lists and items.\<close>

fun listItemTypeFor :: "ntype \<Rightarrow> ntype" where
  "listItemTypeFor TaskList = TaskListItem"
| "listItemTypeFor t = ListItem"

lemma validContent_list:
  "isListType t \<Longrightarrow>
   validContent t cs = (cs \<noteq> [] \<and> (\<forall>c \<in> set cs. typeOf c = Some (listItemTypeFor t)))"
  by (cases t) (auto simp: list_all_iff hasType_def split: option.splits)

lemma validContent_item_append:
  assumes "isListItemType t" "validContent t cs" "isListNode n"
  shows "validContent t (cs @ [n])"
proof -
  obtain lt a ds where n: "n = Node lt a ds" "isListType lt" using assms(3) by (cases n) auto
  have "hasType isBlockType n" using n by (cases lt) (simp_all add: hasType_def)
  then show ?thesis using assms(1,2) by (cases t; cases cs) (simp_all)
qed

lemma validContent_item_nontext:
  assumes "isListItemType t" "validContent t cs" "c \<in> set cs"
  shows "\<not> isText c"
proof -
  have "hasType (\<lambda>t. t = Paragraph) c \<or> hasType isBlockType c"
    using assms by (cases t; cases cs) (auto simp: list_all_iff)
  then show ?thesis by (cases c) (auto simp: hasType_def)
qed

lemma addNode_nontext: "\<not> isText c \<Longrightarrow> addNode c tgt = tgt @ [c]"
  by (simp add: addNode_def)

lemma foldl_addNode:
  assumes "b \<le> length cs" "\<forall>c \<in> set cs. \<not> isText c"
  shows "foldl (\<lambda>acc i. addNode (cs ! i) acc) tgt [a ..< b] = tgt @ take (b - a) (drop a cs)"
  using assms(1)
proof (induction b)
  case 0
  then show ?case by simp
next
  case (Suc b)
  show ?case
  proof (cases "a \<le> b")
    case True
    have nt: "\<not> isText (cs ! b)" using assms(2) Suc.prems by simp
    have "take (Suc b - a) (drop a cs) = take (b - a) (drop a cs) @ [cs ! b]"
      using True Suc.prems by (simp add: Suc_diff_le take_Suc_conv_app_nth)
    then show ?thesis using Suc True nt by (simp add: addNode_nontext)
  next
    case False
    then show ?thesis by simp
  qed
qed

lemma addRange_before:
  assumes "\<forall>c \<in> set (content (nodeAt f d)). \<not> isText c"
    and "index f d \<le> length (content (nodeAt f d))"
    and "depth f = d \<longrightarrow> textOffset f = 0"
  shows "addRange None (Some f) d [] = take (index f d) (content (nodeAt f d))"
  using assms by (auto simp: addRange_def Let_def foldl_addNode)

lemma addRange_after:
  assumes "\<forall>c \<in> set (content (nodeAt t d)). \<not> isText c"
    and "textOffset t = 0 \<or> d < depth t"
  shows "addRange (Some t) None d tgt =
         tgt @ drop (if d < depth t then index t d + 1 else index t d) (content (nodeAt t d))"
  using assms by (auto simp: addRange_def Let_def foldl_addNode childCount_def)

lemma addRange_between:
  assumes "\<forall>c \<in> set (content (nodeAt e d)). \<not> isText c"
    and "index e d \<le> length (content (nodeAt e d))"
    and "depth s = d" "depth e = d" "textOffset s = 0" "textOffset e = 0"
  shows "addRange (Some s) (Some e) d tgt =
         tgt @ take (index e d - index s d) (drop (index s d) (content (nodeAt e d)))"
  using assms by (simp add: addRange_def Let_def foldl_addNode)

lemma close_valid:
  "typeOf n = Some t \<Longrightarrow> validContent t cs \<Longrightarrow> close n cs = Inr (copy n cs)"
  by (simp add: close_def)

lemma typeOf_copy [simp]: "typeOf (copy n cs) = typeOf n"
  by (cases n) simp_all

lemma isText_copy [simp]: "isText (copy n cs) = isText n"
  by (cases n) simp_all

lemma content_copy [simp]: "\<not> isText n \<Longrightarrow> content (copy n cs) = cs"
  by (cases n) simp_all

lemma checkJoin_same: "typeOf a = typeOf b \<Longrightarrow> checkJoin a b"
  by (cases "typeOf a"; cases "typeOf b") (auto simp: checkJoin_def compatibleContent_def)

text \<open>The wrapper that \<^verbatim>\<open>prepareSliceForReplace\<close> builds, and the two positions in it.\<close>

lemma resolvePath_single_child:
  assumes "\<not> isText w" "content w = [n]" "\<not> isText n" "q \<le> fragSize (content n)"
  shows "resolvePath w (1 + q) s = (w, 0, s) # resolvePath n q (s + 1)"
proof -
  have sz: "nodeSize n = 2 + fragSize (content n)" using assms(3) by (rule nodeSize_Node_ge2)
  have fi: "findIndex [n] (Suc q) = (0, 0)"
    using assms(4) sz by (intro findIndex_single_inside) simp_all
  show ?thesis
    by (subst resolvePath.simps) (simp add: assms fi Let_def)
qed

lemma wrapLoop_props:
  assumes "\<forall>k < K. \<not> isText (nodeAt f k)" "\<not> isText n"
  shows "\<not> isText (wrapLoop f n K) \<and>
         nodeSize (wrapLoop f n K) = nodeSize n + 2 * K \<and>
         (\<exists>pw. length pw = K \<and>
            (\<forall>q \<le> fragSize (content n).
               resolvePath (wrapLoop f n K) (K + q) s = pw @ resolvePath n q (s + K)))"
  using assms
proof (induction K arbitrary: n)
  case 0
  then show ?case by simp
next
  case (Suc K)
  let ?n = "copy (nodeAt f K) [n]"
  have ntK: "\<not> isText (nodeAt f K)" using Suc.prems(1) by simp
  have nt: "\<not> isText ?n" using ntK by simp
  have cn: "content ?n = [n]" using ntK by simp
  have szn: "nodeSize n = 2 + fragSize (content n)" using Suc.prems(2) by (rule nodeSize_Node_ge2)
  have sz: "nodeSize ?n = nodeSize n + 2" using nodeSize_Node_ge2 [OF nt] cn by simp
  have all: "\<forall>k < K. \<not> isText (nodeAt f k)" using Suc.prems(1) by simp
  from Suc.IH [OF all nt] obtain pw where
    ih: "\<not> isText (wrapLoop f ?n K)" "nodeSize (wrapLoop f ?n K) = nodeSize ?n + 2 * K"
      "length pw = K"
      "\<And>q. q \<le> fragSize (content ?n) \<Longrightarrow>
         resolvePath (wrapLoop f ?n K) (K + q) s = pw @ resolvePath ?n q (s + K)"
    by blast
  have step: "resolvePath (wrapLoop f n (Suc K)) (Suc K + q) s =
        (pw @ [(?n, 0, s + K)]) @ resolvePath n q (s + Suc K)"
    if q: "q \<le> fragSize (content n)" for q
  proof -
    have q': "Suc q \<le> fragSize (content ?n)" using q cn szn by simp
    have one: "resolvePath ?n (Suc q) (s + K) = (?n, 0, s + K) # resolvePath n q (s + K + 1)"
      using resolvePath_single_child [OF nt cn Suc.prems(2) q] by simp
    show ?thesis using ih(4) [OF q'] one by simp
  qed
  have "length (pw @ [(?n, 0, s + K)]) = Suc K" using ih(3) by simp
  with step show ?case using ih(1,2) sz
    by (intro conjI exI [of _ "pw @ [(?n, 0, s + K)]"]) simp_all
qed

lemma item_facts:
  assumes "check L" "isListNode L" "k < length (content L)"
  shows "\<not> isText (content L ! k)" "check (content L ! k)"
    "\<exists>t. typeOf L = Some t \<and> isListType t \<and> typeOf (content L ! k) = Some (listItemTypeFor t)"
    "\<forall>c \<in> set (content (content L ! k)). \<not> isText c"
    "\<exists>t. typeOf (content L ! k) = Some t \<and> isListItemType t \<and>
         validContent t (content (content L ! k))"
proof -
  let ?c = "content L ! k"
  have mem: "?c \<in> set (content L)" using assms(3) by simp
  note lc = list_children [OF assms(1,2) mem]
  show "\<not> isText ?c" "check ?c" by (rule lc)+
  obtain t a cs where L: "L = Node t a cs" "isListType t" using assms(2) by (cases L) auto
  have v: "validContent t cs" using assms(1) L by simp
  show "\<exists>t. typeOf L = Some t \<and> isListType t \<and> typeOf ?c = Some (listItemTypeFor t)"
    using v mem L by (auto simp: validContent_list)
  obtain ti ai ds where c: "?c = Node ti ai ds" "isListItemType ti"
    using lc(2) by (cases ?c) auto
  have vi: "validContent ti ds" using lc(3) c by simp
  show "\<forall>c \<in> set (content ?c). \<not> isText c"
    using validContent_item_nontext [OF c(2) vi] c(1) by simp
  show "\<exists>t. typeOf ?c = Some t \<and> isListItemType t \<and> validContent t (content ?c)"
    using c vi by simp
qed

lemma caseA_threeWay:
  assumes dep: "depth f = Suc d" "depth t = Suc d" "depth s = Suc d" "depth e = Suc d"
    and fd: "nodeAt f d = L" "index f d = k"
    and td: "nodeAt t d = L" "index t d = j"
    and f1: "nodeAt f (Suc d) = P" "index f (Suc d) = length (content P)" "textOffset f = 0"
    and t1: "nodeAt t (Suc d) = Q" "index t (Suc d) = length (content Q)" "textOffset t = 0"
    and s1: "nodeAt s (Suc d) = copy P [NL]" "index s (Suc d) = 0" "textOffset s = 0"
    and e1: "nodeAt e (Suc d) = copy P [NL]" "index e (Suc d) = 1" "textOffset e = 0"
    and se: "index s d = index e d"
    and L: "isListNode L" "check L" and kj: "k < j" "j < length (content L)"
    and P: "P = content L ! k" and Q: "Q = content L ! j" and NL: "isListNode NL"
  shows "replaceThreeWay f s e t d =
         Inr (take k (content L) @ [copy P (content P @ [NL])] @ drop (Suc j) (content L))"
proof -
  have kl: "k < length (content L)" using kj by auto
  note pf = item_facts [OF L(2,1) kl, folded P]
  note qf = item_facts [OF L(2,1) kj(2), folded Q]
  have ntNL: "\<not> isText NL" using NL by (rule isListNode_not_text)
  have tyPQ: "typeOf P = typeOf Q" using pf(3) qf(3) by auto
  have lnt: "\<forall>c \<in> set (content L). \<not> isText c"
    using list_children(1) [OF L(2,1)] by blast
  \<comment> \<open>the inner level: the content of the previous item followed by the new list\<close>
  have a1: "addRange None (Some f) (Suc d) [] = content P"
    using addRange_before [of f "Suc d"] pf(4) f1 by simp
  have a2: "addRange (Some s) (Some e) (Suc d) (content P) = content P @ [NL]"
    using addRange_between [of e "Suc d" s "content P"] s1 e1 dep pf(1) ntNL by simp
  have a3: "addRange (Some t) None (Suc d) (content P @ [NL]) = content P @ [NL]"
    using addRange_after [of t "Suc d" "content P @ [NL]"] t1 dep qf(4) by simp
  have inner: "replaceThreeWay f s e t (Suc d) = Inr (content P @ [NL])"
    by (subst replaceThreeWay.simps) (simp add: dep a1 threeWaySides_def a2 a3 Let_def)
  \<comment> \<open>closing the previous item\<close>
  obtain tp where tp: "typeOf P = Some tp" "isListItemType tp" "validContent tp (content P)"
    using pf(5) by blast
  have cl: "close P (content P @ [NL]) = Inr (copy P (content P @ [NL]))"
    using close_valid [OF tp(1) validContent_item_append [OF tp(2,3) NL]] .
  \<comment> \<open>the level of the list\<close>
  have j1: "joinable f s (Suc d) = Inr P"
    using f1 s1 by (simp add: joinable_def checkJoin_same)
  have j2: "joinable e t (Suc d) = Inr (copy P [NL])"
    using e1 t1 tyPQ by (simp add: joinable_def checkJoin_same)
  have b1: "addRange None (Some f) d [] = take k (content L)"
    using addRange_before [of f d] fd lnt kl dep by simp
  have nP: "\<not> isText (copy P (content P @ [NL]))" using pf(1) by simp
  have ar: "addRange (Some t) None d X =
      X @ drop (if d < depth t then index t d + 1 else index t d) (content (nodeAt t d))" for X
    by (rule addRange_after) (simp_all add: td lnt dep)
  have b2: "addRange (Some t) None d (take k (content L) @ [copy P (content P @ [NL])]) =
      take k (content L) @ [copy P (content P @ [NL])] @ drop (Suc j) (content L)"
    unfolding ar by (simp add: td dep)
  show ?thesis
    by (subst replaceThreeWay.simps)
       (simp add: dep j1 j2 b1 se checkJoin_same inner cl addNode_nontext [OF nP] b2 Let_def)
qed

text \<open>
  The document with the node at the end of a chain replaced: the ancestors are copied
  with the one child on the chain exchanged, everything else is shared.
\<close>

fun rebuild :: "(node \<times> nat \<times> nat) list \<Rightarrow> node \<Rightarrow> node" where
  "rebuild [] X = X"
| "rebuild ((n, i, off) # rest) X = copy n (replaceChild (content n) i (rebuild rest X))"

lemma replaceOuter_descend:
  assumes pf: "path f = pre @ restF" and pt: "path t = pre @ restT"
    and ne: "restF \<noteq> []" "restT \<noteq> []"
    and dp: "length pre \<le> depth f - openStart sl"
    and top: "replaceOuter f t sl (length pre) = Inr X"
  shows "k \<le> length pre \<Longrightarrow> replaceOuter f t sl k = Inr (rebuild (drop k pre) X)"
proof (induction "length pre - k" arbitrary: k)
  case 0
  then show ?case using top by simp
next
  case (Suc m)
  then have k: "k < length pre" by simp
  have ih: "replaceOuter f t sl (Suc k) = Inr (rebuild (drop (Suc k) pre) X)"
    using Suc.hyps(1) [of "Suc k"] Suc.hyps(2) k by simp
  note af = split_path_accessors(7,8) [OF pf ne(1) k]
  note at = split_path_accessors(7,8) [OF pt ne(2) k]
  obtain n i off where e: "pre ! k = (n, i, off)" by (cases "pre ! k")
  have dr: "drop k pre = (n, i, off) # drop (Suc k) pre"
    using k e by (simp add: Cons_nth_drop_Suc [symmetric])
  have c: "index f k = index t k \<and> k < depth f - openStart sl"
    using af at dp k by simp
  show ?case
    apply (subst replaceOuter.simps)
    using c ih af e dr by simp
qed

lemma resolvePath_zero: "resolvePath n 0 s = [(n, 0, s)]"
  by (subst resolvePath.simps) (simp add: findIndex_def Let_def)

lemma resolvePath_end_single:
  "0 < nodeSize c \<Longrightarrow> content n = [c] \<Longrightarrow> resolvePath n (nodeSize c) s = [(n, 1, s + nodeSize c)]"
  by (subst resolvePath.simps) (simp add: findIndex_def Let_def)

lemma chain_nontext:
  "chain n s pre L sL \<Longrightarrow> k < length pre \<Longrightarrow> \<not> isText (fst (pre ! k))"
proof -
  assume c: "chain n s pre L sL" and k: "k < length pre"
  have "fst (snd (pre ! k)) < length (content (fst (pre ! k)))"
    using chain_entry [OF c k] by simp
  then show ?thesis by (cases "fst (pre ! k)") auto
qed

text \<open>
  The replace of Case A: from the end of the content of the item before the range to the
  end of the content of the last item of the range, with the range wrapped in a new list.
\<close>

lemma caseA_nodeReplace:
  assumes ck: "check D" and ch: "chain D 0 pre L sL" and L: "isListNode L" "check L"
    and kj: "k < j" "j < length (content L)" and NL: "isListNode NL"
  shows "nodeReplace D (int (sL + offsetOf (content L) (Suc k)) - 1)
           (int (sL + offsetOf (content L) (Suc j)) - 1)
           \<lparr>sliceContent = [NL], openStart = 0, openEnd = 0\<rparr> =
         Inr (rebuild pre
                (copy L (take k (content L) @
                         [copy (content L ! k) (content (content L ! k) @ [NL])] @
                         drop (Suc j) (content L))))"
proof -
  let ?cs = "content L"
  let ?P = "?cs ! k"
  let ?Q = "?cs ! j"
  let ?d = "length pre"
  let ?sl = "\<lparr>sliceContent = [NL], openStart = 0, openEnd = 0\<rparr>"
  let ?P' = "copy ?P [NL]"
  have tok: "textOk D" using ck by (rule check_textOk)
  have kl: "k < length ?cs" using kj by simp
  note pfa = item_facts [OF L(2,1) kl]
  note qfa = item_facts [OF L(2,1) kj(2)]
  have ntNL: "\<not> isText NL" using NL by (rule isListNode_not_text)
  have ntL: "\<not> isText L" using L(1) by (rule isListNode_not_text)
  define f where "f = \<lparr>pos = sL + offsetOf ?cs (Suc k) - 1,
      path = pre @ [(L, k, sL + offsetOf ?cs k), (?P, length (content ?P), sL + offsetOf ?cs (Suc k) - 1)]\<rparr>"
  define t where "t = \<lparr>pos = sL + offsetOf ?cs (Suc j) - 1,
      path = pre @ [(L, j, sL + offsetOf ?cs j), (?Q, length (content ?Q), sL + offsetOf ?cs (Suc j) - 1)]\<rparr>"
  have rf: "resolve D (int (sL + offsetOf ?cs (Suc k)) - 1) = Inr f"
    unfolding f_def by (rule resolve_child_end [OF tok ch kl pfa(1)])
  have rt: "resolve D (int (sL + offsetOf ?cs (Suc j)) - 1) = Inr t"
    unfolding t_def by (rule resolve_child_end [OF tok ch kj(2) qfa(1)])
  have pf: "path f = pre @ [(L, k, sL + offsetOf ?cs k), (?P, length (content ?P), pos f)]"
    and pt: "path t = pre @ [(L, j, sL + offsetOf ?cs j), (?Q, length (content ?Q), pos t)]"
    by (simp_all add: f_def t_def)
  note af = split_path_accessors [OF pf]
  note at = split_path_accessors [OF pt]
  have df: "depth f = Suc ?d" and dt: "depth t = Suc ?d" using af(3) at(3) by simp_all
  have fd: "nodeAt f ?d = L" "index f ?d = k" "nodeAt f (Suc ?d) = ?P"
    "index f (Suc ?d) = length (content ?P)" "textOffset f = 0"
    using af(1,2) af(4,5) [of 1] af(9) by (simp_all add: textOffset_def)
  have td: "nodeAt t ?d = L" "index t ?d = j" "nodeAt t (Suc ?d) = ?Q"
    "index t (Suc ?d) = length (content ?Q)" "textOffset t = 0"
    using at(1,2) at(4,5) [of 1] at(9) by (simp_all add: textOffset_def)
  \<comment> \<open>the prepared slice\<close>
  have ntk: "\<forall>m < Suc ?d. \<not> isText (nodeAt f m)"
  proof (intro allI impI)
    fix m assume "m < Suc ?d"
    then consider "m < ?d" | "m = ?d" by linarith
    then show "\<not> isText (nodeAt f m)"
    proof cases
      case 1
      then show ?thesis using af(7) [OF _ 1] chain_nontext [OF ch 1] by simp
    next
      case 2
      then show ?thesis using fd ntL by simp
    qed
  qed
  have ntP': "\<not> isText ?P'" using pfa(1) by simp
  have cP': "content ?P' = [NL]" using pfa(1) by simp
  define W where "W = wrapLoop f ?P' (Suc ?d)"
  from wrapLoop_props [OF ntk ntP', of 0] obtain pw where
    w: "\<not> isText W" "nodeSize W = nodeSize ?P' + 2 * Suc ?d" "length pw = Suc ?d"
      "\<And>q. q \<le> fragSize (content ?P') \<Longrightarrow> resolvePath W (Suc ?d + q) 0 = pw @ resolvePath ?P' q (0 + Suc ?d)"
    unfolding W_def by blast
  have szNL: "nodeSize NL = 2 + fragSize (content NL)" using ntNL by (rule nodeSize_Node_ge2)
  have szP': "nodeSize ?P' = 2 + nodeSize NL" using nodeSize_Node_ge2 [OF ntP'] cP' by simp
  have szW: "fragSize (content W) = nodeSize NL + 2 * Suc ?d"
    using nodeSize_Node_ge2 [OF w(1)] w(2) szP' by simp
  define s where "s = \<lparr>pos = Suc ?d, path = pw @ [(?P', 0, Suc ?d)]\<rparr>"
  define e where "e = \<lparr>pos = Suc ?d + nodeSize NL, path = pw @ [(?P', 1, Suc ?d + nodeSize NL)]\<rparr>"
  have rs: "resolve W (int (Suc ?d)) = Inr s"
  proof -
    have b: "Suc ?d \<le> fragSize (content W)" using szW by simp
    have p: "resolvePath W (Suc ?d) 0 = pw @ [(?P', 0, Suc ?d)]"
      using w(4) [of 0] by (simp add: resolvePath_zero)
    show ?thesis unfolding s_def resolve_nat [OF b] p ..
  qed
  have re: "resolve W (int (fragSize (content W)) - int 0 - int (Suc ?d)) = Inr e"
  proof -
    have i: "int (fragSize (content W)) - int 0 - int (Suc ?d) = int (Suc ?d + nodeSize NL)"
      using szW by simp
    have "resolvePath W (Suc ?d + nodeSize NL) 0 = pw @ [(?P', 1, Suc ?d + nodeSize NL)]"
      using w(4) [of "nodeSize NL"] cP' szNL resolvePath_end_single [of NL ?P' "Suc ?d"]
      by simp
    moreover have "Suc ?d + nodeSize NL \<le> fragSize (content W)" using szW by simp
    ultimately show ?thesis unfolding i e_def
      by (subst resolve_nat) simp_all
  qed
  have prep: "prepareSliceForReplace ?sl f = Inr (s, e)"
    using rs re by (simp add: prepareSliceForReplace_def Let_def df fd W_def)
  have ps: "path s = pw @ [(?P', 0, pos s)]" and pe: "path e = pw @ [(?P', 1, pos e)]"
    by (simp_all add: s_def e_def)
  note as = split_path_accessors [OF ps, unfolded w(3)]
  note ae = split_path_accessors [OF pe, unfolded w(3)]
  have sd: "depth s = Suc ?d" "nodeAt s (Suc ?d) = ?P'" "index s (Suc ?d) = 0" "textOffset s = 0"
    using as(1,2,3,9) by (simp_all add: textOffset_def)
  have ed: "depth e = Suc ?d" "nodeAt e (Suc ?d) = ?P'" "index e (Suc ?d) = 1" "textOffset e = 0"
    using ae(1,2,3,9) by (simp_all add: textOffset_def)
  have se: "index s ?d = index e ?d"
    using as(8) [of ?d] ae(8) [of ?d] by simp
  have three: "replaceThreeWay f s e t ?d =
      Inr (take k ?cs @ [copy ?P (content ?P @ [NL])] @ drop (Suc j) ?cs)"
    by (rule caseA_threeWay [OF df dt sd(1) ed(1) fd(1,2) td(1,2) fd(3,4,5) td(3,4,5)
          sd(2,3,4) ed(2,3,4) se L kj refl refl NL])
  \<comment> \<open>closing the list\<close>
  obtain tl where tl: "typeOf L = Some tl" "isListType tl"
    "typeOf ?P = Some (listItemTypeFor tl)"
    using pfa(3) by blast
  have vL: "validContent tl ?cs" using L(2) tl(1) by (cases L) auto
  have "validContent tl (take k ?cs @ [copy ?P (content ?P @ [NL])] @ drop (Suc j) ?cs)"
    using vL tl by (auto simp: validContent_list dest: in_set_takeD in_set_dropD)
  from close_valid [OF tl(1) this]
  have cl: "close L (take k ?cs @ [copy ?P (content ?P @ [NL])] @ drop (Suc j) ?cs) =
      Inr (copy L (take k ?cs @ [copy ?P (content ?P @ [NL])] @ drop (Suc j) ?cs))" .
  have top: "replaceOuter f t ?sl ?d =
      Inr (copy L (take k ?cs @ [copy ?P (content ?P @ [NL])] @ drop (Suc j) ?cs))"
    apply (subst replaceOuter.simps)
    using kj szNL cl by (simp add: fd td df dt prep three)
  have "replaceOuter f t ?sl 0 =
      Inr (rebuild (drop 0 pre)
             (copy L (take k ?cs @ [copy ?P (content ?P @ [NL])] @ drop (Suc j) ?cs)))"
    by (rule replaceOuter_descend [OF pf pt _ _ _ top]) (simp_all add: df)
  then show ?thesis
    unfolding nodeReplace_def rf rt by (simp add: replace_def df dt)
qed

text \<open>
  The list after the indent of its items \<open>i \<dots> j - 1\<close> into the item before them: the
  items become the children of a new list (a copy of the list itself) that is appended
  to the content of item \<open>i - 1\<close>.
\<close>

definition nestRange :: "node \<Rightarrow> nat \<Rightarrow> nat \<Rightarrow> node" where
  "nestRange L i j =
     copy L (take (i - 1) (content L) @
             [copy (content L ! (i - 1))
                (content (content L ! (i - 1)) @ [copy L (take (j - i) (drop i (content L)))])] @
             drop j (content L))"

lemma selectedList_eq:
  assumes sd: "selectionInDoc tr" and root: "\<not> isListNode (doc tr)" and ck: "check (doc tr)"
    and cr: "calculateItemRange tr = Some r"
  shows "parent (resolvePos (doc tr) (rangeStart r)) = selList tr r"
    and "start (resolvePos (doc tr) (rangeStart r)) (rangeDepth r) = listStart tr r"
proof -
  note g = itemRange_geometry [OF sd root ck cr]
  have tok: "textOk (doc tr)" using ck by (rule check_textOk)
  have il: "startIndex r \<le> length (content (selList tr r))" using g(5,6) by simp
  have "pathFor (selList tr r) (listStart tr r) (rangeStart r)
      [(selList tr r, startIndex r, rangeStart r)]"
    using il by (simp add: g(7))
  from resolve_in_chain [OF tok g(1) this]
  have p: "path (resolvePos (doc tr) (rangeStart r)) =
      listPre tr r @ [(selList tr r, startIndex r, rangeStart r)]"
    by (simp add: resolvePos_def)
  note a = split_path_accessors [OF p, unfolded g(2)]
  show "parent (resolvePos (doc tr) (rangeStart r)) = selList tr r"
    using a(1,3) by (simp add: parent_def)
  show "start (resolvePos (doc tr) (rangeStart r)) (rangeDepth r) = listStart tr r"
    using chain_start [OF g(1) p] g(2) by simp
qed

lemma caseA_stepApply:
  assumes sd: "selectionInDoc tr" and root: "\<not> isListNode (doc tr)" and ck: "check (doc tr)"
    and cr: "calculateItemRange tr = Some r" and si: "1 \<le> startIndex r"
  shows "stepApply (caseAStep (selList tr r) r) (doc tr) =
         Inr (Some (rebuild (listPre tr r) (nestRange (selList tr r) (startIndex r) (endIndex r))))"
proof -
  let ?L = "selList tr r"
  let ?cs = "content ?L"
  let ?i = "startIndex r"
  let ?j = "endIndex r"
  let ?gap = "take (?j - ?i) (drop ?i ?cs)"
  note g = itemRange_geometry [OF sd root ck cr]
  have tok: "textOk (doc tr)" using ck by (rule check_textOk)
  have ntL: "\<not> isText ?L" using g(3) by (rule isListNode_not_text)
  have sl: "nodeSlice (doc tr) (int (rangeStart r)) (int (rangeEnd r)) =
      Inr \<lparr>sliceContent = ?gap, openStart = 0, openEnd = 0\<rparr>"
    unfolding g(7,8) by (rule nodeSlice_boundaries [OF tok g(1) g(5) g(6)])
  obtain tl where tl: "typeOf ?L = Some tl" "isListType tl" using g(3) by (cases ?L) auto
  have vL: "validContent tl ?cs" using g(4) tl(1) by (cases ?L) auto
  have gne: "?gap \<noteq> []" using g(5,6) by simp
  have vg: "validContent tl ?gap"
    using vL tl gne by (auto simp: validContent_list dest: in_set_takeD in_set_dropD)
  have cr: "canReplace (copy ?L []) 0 0 ?gap" using vg tl ntL by (simp add: canReplace_def)
  note ia = insertAt_empty_copy [OF ntL cr]
  have NL: "isListNode (copy ?L ?gap)" using g(3) by (cases ?L) auto
  have kj: "?i - 1 < ?j - 1" "?j - 1 < length ?cs" using si g(5,6) by auto
  have e1: "int (rangeStart r) - 1 = int (listStart tr r + offsetOf ?cs (Suc (?i - 1))) - 1"
    and e2: "int (rangeEnd r) - 1 = int (listStart tr r + offsetOf ?cs (Suc (?j - 1))) - 1"
    using si g(5) by (simp_all add: g(7,8))
  have sj: "Suc (?j - 1) = ?j" using g(5) by simp
  from caseA_nodeReplace [OF ck g(1) g(3) g(4) kj NL]
  have nr: "nodeReplace (doc tr) (int (rangeStart r) - 1) (int (rangeEnd r) - 1)
      \<lparr>sliceContent = [copy ?L ?gap], openStart = 0, openEnd = 0\<rparr> =
      Inr (rebuild (listPre tr r) (nestRange ?L ?i ?j))"
    unfolding e1 e2 nestRange_def sj by simp
  show ?thesis
    by (simp add: caseAStep_def sl ia [unfolded One_nat_def] fromReplace_def nr)
qed

lemma chain_snoc:
  "chain n s (pre @ [e]) L sL \<Longrightarrow> \<exists>M sM. chain n s pre M sM \<and> chain M sM [e] L sL"
proof (induction pre arbitrary: n s)
  case Nil
  then show ?case by (cases e) auto
next
  case (Cons x pre)
  obtain m i off where x: "x = (m, i, off)" by (cases x)
  from Cons.prems x have c: "m = n" "i < length (content n)" "off = s + offsetOf (content n) i"
    "\<not> isText (content n ! i)" "chain (content n ! i) (off + 1) (pre @ [e]) L sL" by auto
  from Cons.IH [OF c(5)] obtain M sM where
    "chain (content n ! i) (off + 1) pre M sM" "chain M sM [e] L sL" by blast
  then show ?case using c x by auto
qed

lemma resolve_before_node:
  assumes tok: "textOk D" and ch: "chain D 0 pre L sL" and ne: "pre \<noteq> []"
  shows "resolve D (int sL - 1) = Inr \<lparr>pos = sL - 1, path = pre\<rparr>"
proof -
  obtain pre' e where pre: "pre = pre' @ [e]" using ne by (cases pre rule: rev_cases) auto
  from chain_snoc [OF ch [unfolded pre]] obtain M sM where
    m: "chain D 0 pre' M sM" "chain M sM [e] L sL" by blast
  obtain n i off where e: "e = (n, i, off)" by (cases e)
  from m(2) e have c: "n = M" "i < length (content M)" "off = sM + offsetOf (content M) i"
    "sL = off + 1" by auto
  have pf: "pathFor M sM off [(M, i, off)]" using c by simp
  have b: "off \<le> fragSize (content D)"
    using chain_bounds [OF m(1), of off] c offsetOf_le [of "content M" i] by simp
  have i: "int sL - 1 = int off" using c by simp
  show ?thesis unfolding i resolve_nat [OF b] resolve_in_chain [OF tok m(1) pf]
    using c e pre by simp
qed

lemma caseA_first_item_fails:
  assumes sd: "selectionInDoc tr" and root: "\<not> isListNode (doc tr)" and ck: "check (doc tr)"
    and cr: "calculateItemRange tr = Some r" and si: "startIndex r = 0"
  shows "stepApply (caseAStep (selList tr r) r) (doc tr) = Inr None"
proof -
  let ?L = "selList tr r"
  let ?cs = "content ?L"
  let ?j = "endIndex r"
  let ?gap = "take ?j ?cs"
  note g = itemRange_geometry [OF sd root ck cr]
  note fa = itemRange_facts [OF sd root cr]
  have tok: "textOk (doc tr)" using ck by (rule check_textOk)
  have ntL: "\<not> isText ?L" using g(3) by (rule isListNode_not_text)
  have sl: "nodeSlice (doc tr) (int (rangeStart r)) (int (rangeEnd r)) =
      Inr \<lparr>sliceContent = ?gap, openStart = 0, openEnd = 0\<rparr>"
    using nodeSlice_boundaries [OF tok g(1), of 0 ?j] g(5,6) si unfolding g(7,8) si by simp
  obtain tl where tl: "typeOf ?L = Some tl" "isListType tl" using g(3) by (cases ?L) auto
  have vL: "validContent tl ?cs" using g(4) tl(1) by (cases ?L) auto
  have gne: "?gap \<noteq> []" using g(5,6) si by auto
  have vg: "validContent tl ?gap"
    using vL tl gne by (auto simp: validContent_list dest: in_set_takeD)
  have cr: "canReplace (copy ?L []) 0 0 ?gap" using vg tl ntL by (simp add: canReplace_def)
  note ia = insertAt_empty_copy [OF ntL cr]
  have pne: "listPre tr r \<noteq> []" using g(2) fa(3) by auto
  have s: "int (rangeStart r) - 1 = int (listStart tr r) - 1" by (simp add: g(7) si)
  note rf = resolve_before_node [OF tok g(1) pne]
  have kj: "?j - 1 < length ?cs" using g(5,6) by auto
  have e2: "int (rangeEnd r) - 1 = int (listStart tr r + offsetOf ?cs (Suc (?j - 1))) - 1"
    using g(5) by (simp add: g(8))
  note rt = resolve_child_end [OF tok g(1) kj list_children(1) [OF g(4,3) nth_mem [OF kj]]]
  have dne: "length (listPre tr r) - Suc 0 \<noteq> Suc (length (listPre tr r))" by arith
  have "nodeReplace (doc tr) (int (rangeStart r) - 1) (int (rangeEnd r) - 1)
      \<lparr>sliceContent = [copy ?L ?gap], openStart = 0, openEnd = 0\<rparr> = Inl ReplaceError"
    unfolding nodeReplace_def s rf e2 rt
    using dne by (simp add: replace_def depth_def del: of_nat_diff of_nat_Suc)
  then show ?thesis
    by (simp add: caseAStep_def sl ia [unfolded One_nat_def] fromReplace_def)
qed

text \<open>Validity of the rebuilt document.\<close>

lemma list_all_hasType_map:
  "list_all (hasType Q) cs = list_all (\<lambda>ty. case ty of None \<Rightarrow> False | Some t \<Rightarrow> Q t) (map typeOf cs)"
  by (induction cs) (simp_all add: hasType_def)

lemma list_all_isText_map:
  "list_all isText cs = list_all (\<lambda>ty. ty = None) (map typeOf cs)"
proof -
  have "isText c = (typeOf c = None)" for c by (cases c) simp_all
  then show ?thesis by (induction cs) simp_all
qed

lemma validContent_typeOf_cong:
  assumes "map typeOf cs = map typeOf cs'"
  shows "validContent t cs = validContent t cs'"
proof -
  have ne: "(cs = []) = (cs' = [])" using assms by (cases cs; cases cs') auto
  have hd: "cs \<noteq> [] \<Longrightarrow> hasType Q (hd cs) = hasType Q (hd cs')" for Q
    using assms by (cases cs; cases cs') (auto simp: hasType_def)
  have tl: "map typeOf (tl cs) = map typeOf (tl cs')"
    using assms by (cases cs; cases cs') auto
  show ?thesis
    using ne hd
    by (cases t)
       (auto simp: list_all_hasType_map list_all_isText_map assms tl)
qed

lemma validContent_update:
  assumes "i < length cs" "typeOf Y = typeOf (cs ! i)"
  shows "validContent t (cs[i := Y]) = validContent t cs"
proof (rule validContent_typeOf_cong)
  have "map typeOf (cs[i := Y]) = (map typeOf cs)[i := typeOf (cs ! i)]"
    using assms by (simp add: map_update)
  also have "\<dots> = map typeOf cs" using assms(1) by (metis list_update_id map_update)
  finally show "map typeOf (cs[i := Y]) = map typeOf cs" .
qed

lemma typeOf_rebuild:
  "chain n s pre L sL \<Longrightarrow> typeOf X = typeOf L \<Longrightarrow> typeOf (rebuild pre X) = typeOf n"
  by (cases pre) auto

lemma check_rebuild:
  "chain n s pre L sL \<Longrightarrow> check n \<Longrightarrow> check X \<Longrightarrow> typeOf X = typeOf L \<Longrightarrow>
   check (rebuild pre X)"
proof (induction pre arbitrary: n s)
  case Nil
  then show ?case by simp
next
  case (Cons e pre)
  obtain m i off where e: "e = (m, i, off)" by (cases e)
  from Cons.prems(1) e have c: "m = n" "i < length (content n)"
    "chain (content n ! i) (off + 1) pre L sL" by auto
  obtain t a cs where n: "n = Node t a cs" using c(2) by (cases n) auto
  have ckc: "check (cs ! i)" using Cons.prems(2) c(2) n by (simp add: list_all_iff)
  have ih: "check (rebuild pre X)"
    using Cons.IH [OF c(3) _ Cons.prems(3,4)] ckc n by simp
  have ty: "typeOf (rebuild pre X) = typeOf (cs ! i)"
    using typeOf_rebuild [OF c(3) Cons.prems(4)] n by simp
  have v: "validContent t (cs[i := rebuild pre X])"
    using validContent_update [of i cs, OF _ ty] c(2) n Cons.prems(2) by simp
  have "list_all check (cs[i := rebuild pre X])"
    using Cons.prems(2) ih n by (auto simp: list_all_iff dest: set_update_subset_insert [THEN subsetD])
  then show ?case using v e c n by (simp add: replaceChild_def)
qed

lemma check_nestRange:
  assumes L: "check L" "isListNode L" and ij: "1 \<le> i" "i < j" "j \<le> length (content L)"
  shows "check (nestRange L i j)" "typeOf (nestRange L i j) = typeOf L"
proof -
  let ?cs = "content L"
  let ?P = "?cs ! (i - 1)"
  let ?gap = "take (j - i) (drop i ?cs)"
  let ?NL = "copy L ?gap"
  obtain t a where Ln: "L = Node t a ?cs" "isListType t" using L(2) by (cases L) auto
  have vL: "validContent t ?cs" and cks: "\<forall>c \<in> set ?cs. check c"
    using L(1) Ln by (cases L; auto simp: list_all_iff)+
  have ki: "i - 1 < length ?cs" using ij by simp
  note pf = item_facts [OF L ki]
  have gne: "?gap \<noteq> []" using ij by simp
  have vg: "validContent t ?gap"
    using vL Ln(2) gne by (auto simp: validContent_list dest: in_set_takeD in_set_dropD)
  have "\<forall>c \<in> set ?gap. check c" using cks by (auto dest: in_set_takeD in_set_dropD)
  then have ckNL: "check ?NL" using vg Ln by (cases L) (auto simp: list_all_iff)
  have NL: "isListNode ?NL" using Ln by (cases L) auto
  obtain tp ap where P: "?P = Node tp ap (content ?P)" "isListItemType tp" "validContent tp (content ?P)"
    using pf(5) by (cases ?P) auto
  have ckP: "check ?P" by (rule pf(2))
  have ckP': "check (copy ?P (content ?P @ [?NL]))"
  proof -
    have "list_all check (content ?P)" using ckP P(1) by (cases ?P) auto
    then show ?thesis
      using validContent_item_append [OF P(2,3) NL] ckNL P(1)
      by (cases ?P) (auto simp: list_all_iff)
  qed
  have tyP: "typeOf ?P = Some (listItemTypeFor t)" using pf(3) Ln by (cases L) auto
  have "validContent t (take (i - 1) ?cs @ [copy ?P (content ?P @ [?NL])] @ drop j ?cs)"
    using vL Ln(2) tyP by (auto simp: validContent_list dest: in_set_takeD in_set_dropD)
  moreover have "list_all check (take (i - 1) ?cs @ [copy ?P (content ?P @ [?NL])] @ drop j ?cs)"
    using cks ckP' by (auto simp: list_all_iff dest: in_set_takeD in_set_dropD)
  ultimately show "check (nestRange L i j)"
    unfolding nestRange_def using Ln by (cases L) auto
  show "typeOf (nestRange L i j) = typeOf L" by (simp add: nestRange_def)
qed

lemma sizesBefore_offsetOf:
  "k \<le> length (content n) \<Longrightarrow> sizesBefore n k = int (offsetOf (content n) k)"
  by (induction k) (simp_all add: offsetOf_Suc)

lemma selFrom_root: "selectionInDoc tr \<Longrightarrow> nodeAt (selFrom tr) 0 = doc tr"
  using pathFor_hd [OF selFrom_pathFor] by (simp add: nodeAt_def)

text \<open>What \<^verbatim>\<open>findPreviousItem\<close> returns in its two branches.\<close>

lemma findPreviousItem_same_list:
  assumes sd: "selectionInDoc tr" and root: "\<not> isListNode (doc tr)" and ck: "check (doc tr)"
    and cr: "calculateItemRange tr = Some r" and si: "1 \<le> startIndex r"
    and fp: "findPreviousItem (selList tr r) (selFrom tr) r = Inr (Some res)"
  shows "previousItem res = content (selList tr r) ! (startIndex r - 1)"
    "previousList res = selList tr r" "sameList tr r res"
    "previousItemStart res =
       int (listStart tr r + offsetOf (content (selList tr r)) (startIndex r - 1)) + 1"
proof -
  note g = itemRange_geometry [OF sd root ck cr]
  note se = selectedList_eq [OF sd root ck cr]
  have il: "startIndex r - 1 < length (content (selList tr r))" using g(5,6) si by simp
  have ch: "child (selList tr r) (int (startIndex r) - 1) =
      Inr (content (selList tr r) ! (startIndex r - 1))"
    using il si by (simp add: child_def childCount_def nat_diff_distrib')
  from fp si ch have res: "res = \<lparr>previousItem = content (selList tr r) ! (startIndex r - 1),
      previousList = selList tr r,
      previousItemStart = int (listStart tr r) + 1 + sizesBefore (selList tr r) (startIndex r - 1),
      previousListStart = int (listStart tr r)\<rparr>"
    by (simp add: findPreviousItem_def Let_def selFrom_root [OF sd] se(2))
  show "previousItem res = content (selList tr r) ! (startIndex r - 1)"
    "previousList res = selList tr r" by (simp_all add: res)
  show "sameList tr r res" by (simp add: sameList_def res se(2))
  show "previousItemStart res =
       int (listStart tr r + offsetOf (content (selList tr r)) (startIndex r - 1)) + 1"
    using sizesBefore_offsetOf [of "startIndex r - 1" "selList tr r"] il by (simp add: res)
qed

text \<open>The list before the selected list, when the range starts at the first item.\<close>

lemma previous_list_geometry:
  assumes sd: "selectionInDoc tr" and root: "\<not> isListNode (doc tr)" and ck: "check (doc tr)"
    and cr: "calculateItemRange tr = Some r"
  shows "\<exists>preM M sM li.
           listPre tr r = preM @ [(M, li, sM + offsetOf (content M) li)] \<and>
           chain (doc tr) 0 preM M sM \<and> li < length (content M) \<and>
           content M ! li = selList tr r \<and>
           listStart tr r = sM + offsetOf (content M) li + 1 \<and>
           M = nodeAt (selFrom tr) (rangeDepth r - 1) \<and>
           li = index (selFrom tr) (rangeDepth r - 1) \<and>
           sM = start (selFrom tr) (rangeDepth r - 1) \<and> check M"
proof -
  note g = itemRange_geometry [OF sd root ck cr]
  note fa = itemRange_facts [OF sd root cr]
  have ne: "listPre tr r \<noteq> []" using g(2) fa(3) by auto
  then obtain preM e where pre: "listPre tr r = preM @ [e]"
    by (cases "listPre tr r" rule: rev_cases) auto
  from chain_snoc [OF g(1) [unfolded pre]] obtain M sM where
    m: "chain (doc tr) 0 preM M sM" "chain M sM [e] (selList tr r) (listStart tr r)" by blast
  obtain n li off where e: "e = (n, li, off)" by (cases e)
  from m(2) e have c: "n = M" "li < length (content M)" "off = sM + offsetOf (content M) li"
    "content M ! li = selList tr r" "listStart tr r = off + 1" by auto
  have lp: "length preM = rangeDepth r - 1" using g(2) pre by simp
  have "path (selFrom tr) = listPre tr r @ drop (rangeDepth r) (path (selFrom tr))"
    by (simp add: listPre_def)
  then have pth: "path (selFrom tr) = preM @ (e # drop (rangeDepth r) (path (selFrom tr)))"
    unfolding pre by simp
  note a = split_path_accessors [OF pth, unfolded lp]
  have "M = nodeAt (selFrom tr) (rangeDepth r - 1)" "li = index (selFrom tr) (rangeDepth r - 1)"
    using a(1,2) e c by simp_all
  moreover have "sM = start (selFrom tr) (rangeDepth r - 1)"
    using chain_start [OF m(1) pth] lp by simp
  moreover have "check M" using chain_hereditary [of check, OF check_content m(1) ck] .
  ultimately show ?thesis using pre e c m(1) by blast
qed

lemma findPreviousItem_other_list:
  assumes sd: "selectionInDoc tr" and root: "\<not> isListNode (doc tr)" and ck: "check (doc tr)"
    and cr: "calculateItemRange tr = Some r" and si: "startIndex r = 0"
    and fp: "findPreviousItem (selList tr r) (selFrom tr) r = Inr (Some res)"
  shows "\<not> sameList tr r res"
proof -
  note fa = itemRange_facts [OF sd root cr]
  note se = selectedList_eq [OF sd root ck cr]
  from previous_list_geometry [OF sd root ck cr] obtain preM M sM li where
    m: "li < length (content M)" "listStart tr r = sM + offsetOf (content M) li + 1"
      "M = nodeAt (selFrom tr) (rangeDepth r - 1)" "li = index (selFrom tr) (rangeDepth r - 1)"
      "sM = start (selFrom tr) (rangeDepth r - 1)" by blast
  have rd: "resolveDepth (selFrom tr) (int (rangeDepth r) - 1) = Some (rangeDepth r - 1)"
    using fa(3) by (simp add: resolveDepth_def Let_def nat_diff_distrib')
  from fp si rd have li1: "1 \<le> li"
    by (auto simp: findPreviousItem_def Let_def m(4) split: if_splits)
  have ch: "child M (int li - 1) = Inr (content M ! (li - 1))"
    using m(1) li1 by (simp add: child_def childCount_def nat_diff_distrib')
  from fp si rd li1 ch m(3,4,5) have
    "previousListStart res = int sM + 1 + sizesBefore M (li - 1)"
    by (auto simp: findPreviousItem_def Let_def split: if_splits sum.splits)
  then have "previousListStart res = int (sM + offsetOf (content M) (li - 1) + 1)"
    using sizesBefore_offsetOf [of "li - 1" M] m(1) by simp
  moreover have "offsetOf (content M) (li - 1) \<le> offsetOf (content M) li"
    by (rule offsetOf_mono) simp
  moreover have "offsetOf (content M) li \<noteq> offsetOf (content M) (li - 1)"
  proof -
    have "allPos (content M)"
      using previous_list_geometry [OF sd root ck cr] m(3) check_textOk textOk_allPos by blast
    from offsetOf_strict [OF this, of "li - 1" li] li1 m(1) show ?thesis by simp
  qed
  ultimately show ?thesis
    by (simp add: sameList_def se(2) m(2))
qed

section \<open>The result of Case A and the selection\<close>

text \<open>A successful run, seen from the resolved range.\<close>

lemma indent_success_range:
  assumes sd: "selectionInDoc tr" and root: "\<not> isListNode (doc tr)" and ck: "check (doc tr)"
    and run: "indentList tr = Returned True tr'"
  obtains r res where "calculateItemRange tr = Some r"
    "findPreviousItem (selList tr r) (selFrom tr) r = Inr (Some res)"
    "parent (resolvePos (doc tr) (rangeStart r)) = selList tr r"
proof -
  from run obtain r where cr: "calculateItemRange tr = Some r"
    by (cases "calculateItemRange tr") (auto simp: indentList_def)
  note se = selectedList_eq [OF sd root ck cr]
  from run cr se obtain res where
    fp: "findPreviousItem (selList tr r) (selFrom tr) r = Inr (Some res)"
    by (auto simp: indentList_def Let_def split: if_splits sum.splits option.splits)
  show ?thesis by (rule that [OF cr fp se(1)])
qed

lemma indent_caseA_result:
  assumes sd: "selectionInDoc tr" and root: "\<not> isListNode (doc tr)" and ck: "check (doc tr)"
    and run: "indentList tr = Returned True tr'"
    and cr: "calculateItemRange tr = Some r"
    and fp: "findPreviousItem (selList tr r) (selFrom tr) r = Inr (Some res)"
    and ty: "typeOf (previousList res) = typeOf (selList tr r)"
  shows "1 \<le> startIndex r"
    and "doc tr' = rebuild (listPre tr r) (nestRange (selList tr r) (startIndex r) (endIndex r))"
    and "steps tr' = steps tr @ [caseAStep (selList tr r) r]"
    and "mapping tr' = mapping tr @ [getMap (caseAStep (selList tr r) r)]"
    and "anchor tr' = pos (selFrom tr)" and "head tr' = pos (selTo tr)"
proof -
  note se = selectedList_eq [OF sd root ck cr]
  note g = itemRange_geometry [OF sd root ck cr]
  from run cr se fp ty g(3) obtain tr1 where
    st: "trStep tr (caseAStep (selList tr r) r) = Inr tr1"
    and fs: "finishSelection tr tr1 r res = Returned True tr'"
    by (auto simp: indentList_def Let_def caseAStep_def split: sum.splits)
  note t1 = trStep_Inr [OF st]
  show si: "1 \<le> startIndex r"
  proof (rule ccontr)
    assume "\<not> 1 \<le> startIndex r"
    then have "startIndex r = 0" by simp
    from caseA_first_item_fails [OF sd root ck cr this] t1 show False by simp
  qed
  from caseA_stepApply [OF sd root ck cr si] t1
  have d1: "doc tr1 = rebuild (listPre tr r) (nestRange (selList tr r) (startIndex r) (endIndex r))"
    by simp
  note f = finishSelection_True [OF fs]
  show "doc tr' = rebuild (listPre tr r) (nestRange (selList tr r) (startIndex r) (endIndex r))"
    using f(2) d1 by simp
  show "steps tr' = steps tr @ [caseAStep (selList tr r) r]" using f(3) t1 by simp
  show "mapping tr' = mapping tr @ [getMap (caseAStep (selList tr r) r)]" using f(4) t1 by simp
  have "sameList tr r res" using findPreviousItem_same_list(3) [OF sd root ck cr si fp] .
  from f(5) [OF this] show "anchor tr' = pos (selFrom tr)" "head tr' = pos (selTo tr)"
    by (simp_all del: selFrom_simps)
qed


section \<open>Case B: the two replacements\<close>

text \<open>
  A closed slice of nodes put in place of a run of whole children of one node: the
  replace algorithm rebuilds the ancestors around the new content.
\<close>

lemma fragSize_0_nontext:
  assumes "\<forall>c \<in> set C. \<not> isText c"
  shows "(fragSize C = 0) = (C = [])"
proof (cases C)
  case Nil
  then show ?thesis by simp
next
  case (Cons c cs)
  with assms have "\<not> isText c" by simp
  then have "nodeSize c = 2 + fragSize (content c)" by (rule nodeSize_Node_ge2)
  with Cons show ?thesis by simp
qed

lemma flat_replace:
  assumes tok: "textOk D" and ch: "chain D 0 pre L sL"
    and nt: "\<forall>c \<in> set (content L). \<not> isText c"
    and ab: "a < b" "b \<le> length (content L)"
    and ty: "typeOf L = Some ty"
    and C: "\<forall>c \<in> set C. \<not> isText c"
    and vc: "validContent ty (take a (content L) @ C @ drop b (content L))"
  shows "nodeReplace D (int (sL + offsetOf (content L) a)) (int (sL + offsetOf (content L) b))
           \<lparr>sliceContent = C, openStart = 0, openEnd = 0\<rparr> =
         Inr (rebuild pre (copy L (take a (content L) @ C @ drop b (content L))))"
proof -
  let ?cs = "content L"
  let ?d = "length pre"
  let ?sl = "\<lparr>sliceContent = C, openStart = 0, openEnd = 0\<rparr>"
  have al: "a \<le> length ?cs" using ab by simp
  define f where "f = \<lparr>pos = sL + offsetOf ?cs a, path = pre @ [(L, a, sL + offsetOf ?cs a)]\<rparr>"
  define t where "t = \<lparr>pos = sL + offsetOf ?cs b, path = pre @ [(L, b, sL + offsetOf ?cs b)]\<rparr>"
  have rf: "resolve D (int (sL + offsetOf ?cs a)) = Inr f"
    unfolding f_def by (rule resolve_boundary [OF tok ch al])
  have rt: "resolve D (int (sL + offsetOf ?cs b)) = Inr t"
    unfolding t_def by (rule resolve_boundary [OF tok ch ab(2)])
  have pf: "path f = pre @ [(L, a, pos f)]" and pt: "path t = pre @ [(L, b, pos t)]"
    by (simp_all add: f_def t_def)
  note af = split_path_accessors [OF pf]
  note at = split_path_accessors [OF pt]
  have df: "depth f = ?d" and dt: "depth t = ?d" using af(3) at(3) by simp_all
  have fd: "nodeAt f ?d = L" "index f ?d = a" "textOffset f = 0"
    using af(1,2,9) by (simp_all add: textOffset_def)
  have td: "nodeAt t ?d = L" "index t ?d = b" "textOffset t = 0"
    using at(1,2,9) by (simp_all add: textOffset_def)
  have sf: "start f ?d = sL" by (rule chain_start [OF ch pf])
  have st: "start t ?d = sL" by (rule chain_start [OF ch pt])
  have posf: "pos f = sL + offsetOf ?cs a" and post: "pos t = sL + offsetOf ?cs b"
    by (simp_all add: f_def t_def)
  have pof: "parentOffset f = offsetOf ?cs a" by (simp add: parentOffset_def df sf posf)
  have pot: "parentOffset t = offsetOf ?cs b" by (simp add: parentOffset_def dt st post)
  have ap: "allPos ?cs" using chain_textOk [OF ch tok] by (rule textOk_allPos)
  have cl: "close L (take a ?cs @ C @ drop b ?cs) = Inr (copy L (take a ?cs @ C @ drop b ?cs))"
    by (rule close_valid [OF ty vc])
  have top: "replaceOuter f t ?sl ?d = Inr (copy L (take a ?cs @ C @ drop b ?cs))"
  proof (cases "C = []")
    case True
    have b1: "addRange None (Some f) ?d [] = take a ?cs"
      using addRange_before [of f ?d] nt al fd by simp
    have b2: "addRange (Some t) None ?d (take a ?cs) = take a ?cs @ drop b ?cs"
      using addRange_after [of t ?d "take a ?cs"] nt td dt by simp
    have two: "replaceTwoWay f t ?d = Inr (take a ?cs @ drop b ?cs)"
      by (subst replaceTwoWay.simps) (simp add: df b1 b2)
    show ?thesis
      apply (subst replaceOuter.simps)
      using ab cl True by (simp add: fd td df dt two)
  next
    case False
    then have fz: "fragSize C \<noteq> 0" using fragSize_0_nontext [OF C] by simp
    have c1: "cutFrag ?cs 0 (offsetOf ?cs a) = take a ?cs"
      using cutFrag_boundaries [OF ap le0 al] by simp
    have c2: "cutFrag ?cs (offsetOf ?cs b) (fragSize ?cs) = drop b ?cs"
      using cutFrag_boundaries [OF ap ab(2) le_refl] by simp
    show ?thesis
      apply (subst replaceOuter.simps)
      using ab cl fz by (simp add: fd td df dt parent_def pof pot c1 c2)
  qed
  have "replaceOuter f t ?sl 0 =
      Inr (rebuild (drop 0 pre) (copy L (take a ?cs @ C @ drop b ?cs)))"
    by (rule replaceOuter_descend [OF pf pt _ _ _ top]) (simp_all add: df)
  then show ?thesis
    unfolding nodeReplace_def rf rt by (simp add: replace_def df dt)
qed


text \<open>
  The path to a node after the node has been replaced: the same indices and offsets,
  the ancestors rebuilt.
\<close>

fun repath :: "(node \<times> nat \<times> nat) list \<Rightarrow> node \<Rightarrow> (node \<times> nat \<times> nat) list" where
  "repath [] X = []"
| "repath ((n, i, off) # rest) X = (rebuild ((n, i, off) # rest) X, i, off) # repath rest X"

lemma length_repath [simp]: "length (repath pre X) = length pre"
  by (induction pre X rule: repath.induct) simp_all

lemma isText_rebuild:
  "chain n s pre L sL \<Longrightarrow> \<not> isText X \<Longrightarrow> \<not> isText n \<Longrightarrow> \<not> isText (rebuild pre X)"
  by (cases pre) auto

lemma chain_root_nontext: "chain n s pre L sL \<Longrightarrow> \<not> isText L \<Longrightarrow> \<not> isText n"
  by (cases pre; cases n) auto

lemma offsetOf_update: "i \<le> k \<Longrightarrow> offsetOf (cs[k := X]) i = offsetOf cs i"
  by (simp add: offsetOf_def)

lemma chain_repath:
  "chain n s pre L sL \<Longrightarrow> \<not> isText X \<Longrightarrow> chain (rebuild pre X) s (repath pre X) X sL"
proof (induction pre arbitrary: n s)
  case Nil
  then show ?case by simp
next
  case (Cons e rest)
  obtain m i off where e: "e = (m, i, off)" by (cases e)
  from Cons.prems(1) e have c: "m = n" "i < length (content n)" "off = s + offsetOf (content n) i"
    "\<not> isText (content n ! i)" "chain (content n ! i) (off + 1) rest L sL"
    by auto
  have ntn: "\<not> isText n" using c(2) by (cases n) auto
  have ih: "chain (rebuild rest X) (off + 1) (repath rest X) X sL"
    by (rule Cons.IH [OF c(5) Cons.prems(2)])
  have ntr: "\<not> isText (rebuild rest X)"
    by (rule isText_rebuild [OF c(5) Cons.prems(2) c(4)])
  show ?case
    using c ntn ih ntr by (simp add: e replaceChild_def offsetOf_update)
qed

lemma copy_copy [simp]: "copy (copy n cs) ds = copy n ds"
  by (cases n) simp_all

lemma rebuild_repath: "rebuild (repath pre X) Y = rebuild pre Y"
proof (induction pre X rule: repath.induct)
  case (1 X)
  show ?case by simp
next
  case (2 n i off rest X)
  show ?case
  proof (cases n)
    case (Text s)
    then show ?thesis by simp
  next
    case (Node t a cs)
    then show ?thesis using 2 by (simp add: replaceChild_def)
  qed
qed

lemma rebuild_append:
  "rebuild (pre @ [(M, i, off)]) X = rebuild pre (copy M (replaceChild (content M) i X))"
  by (induction pre) auto

text \<open>A node that holds a list is the document or an item; none of its children is text.\<close>

lemma parent_of_list:
  assumes "check M" "k < length (content M)" "isListNode (content M ! k)"
  shows "\<forall>c \<in> set (content M). \<not> isText c"
    and "\<exists>t. typeOf M = Some t \<and> (t = Doc \<or> isListItemType t) \<and> validContent t (content M)"
proof -
  obtain t a cs where M: "M = Node t a cs" using assms(2) by (cases M) auto
  from assms M have v: "validContent t cs" and k: "k < length cs" and l: "isListNode (cs ! k)"
    by simp_all
  have kin: "cs ! k \<in> set cs" using k by simp
  obtain tk ak ck where ck: "cs ! k = Node tk ak ck" "isListType tk"
    using l by (cases "cs ! k") auto
  have t: "t = Doc \<or> isListItemType t"
    using v kin ck by (cases t; cases tk) (auto simp: list_all_iff hasType_def)
  show "\<exists>t. typeOf M = Some t \<and> (t = Doc \<or> isListItemType t) \<and> validContent t (content M)"
    using t v M by simp
  show "\<forall>c \<in> set (content M). \<not> isText c"
  proof
    fix c assume "c \<in> set (content M)"
    then have cin: "c \<in> set cs" using M by simp
    from t show "\<not> isText c"
    proof
      assume "t = Doc"
      with v cin show ?thesis by (cases c) (auto simp: list_all_iff hasType_def)
    next
      assume "isListItemType t"
      from validContent_item_nontext [OF this v cin] show ?thesis .
    qed
  qed
qed

lemma validContent_block_parent:
  assumes "t = Doc \<or> isListItemType t" "cs \<noteq> []"
  shows "validContent t cs =
           ((t = Doc \<longrightarrow> list_all (hasType isBlockType) cs) \<and>
            (isListItemType t \<longrightarrow> hasType (\<lambda>t. t = Paragraph) (hd cs) \<and>
                                list_all (hasType isBlockType) (tl cs)))"
  using assms by (cases t) auto


text \<open>
  Case B starts at the first item of a list whose sibling before it is a list of another
  type. \<open>M\<close> is the node that holds both lists, the previous one at index \<open>li - 1\<close> and
  the selected one at \<open>li\<close>.
\<close>

lemma fragSize_butlast:
  "cs \<noteq> [] \<Longrightarrow> fragSize cs = offsetOf cs (length cs - 1) + nodeSize (last cs)"
  by (induction cs rule: rev_induct) (simp_all add: offsetOf_def)

lemma caseB_geometry:
  assumes sd: "selectionInDoc tr" and root: "\<not> isListNode (doc tr)" and ck: "check (doc tr)"
    and cr: "calculateItemRange tr = Some r" and si: "startIndex r = 0"
    and fp: "findPreviousItem (selList tr r) (selFrom tr) r = Inr (Some res)"
  shows "\<exists>preM M sM li.
           listPre tr r = preM @ [(M, li, sM + offsetOf (content M) li)] \<and>
           chain (doc tr) 0 preM M sM \<and> 1 \<le> li \<and> li < length (content M) \<and>
           content M ! li = selList tr r \<and>
           listStart tr r = sM + offsetOf (content M) li + 1 \<and> check M \<and>
           previousList res = content M ! (li - 1) \<and> isListNode (previousList res) \<and>
           content (previousList res) \<noteq> [] \<and>
           previousItem res = last (content (previousList res)) \<and>
           previousItemStart res =
             int (sM + offsetOf (content M) (li - 1) + 1 +
                  offsetOf (content (previousList res)) (length (content (previousList res)) - 1) + 1)"
proof -
  note fa = itemRange_facts [OF sd root cr]
  from previous_list_geometry [OF sd root ck cr] obtain preM M sM li where
    m: "listPre tr r = preM @ [(M, li, sM + offsetOf (content M) li)]"
      "chain (doc tr) 0 preM M sM"
      "li < length (content M)" "content M ! li = selList tr r"
      "listStart tr r = sM + offsetOf (content M) li + 1"
      "M = nodeAt (selFrom tr) (rangeDepth r - 1)" "li = index (selFrom tr) (rangeDepth r - 1)"
      "sM = start (selFrom tr) (rangeDepth r - 1)" "check M" by blast
  have rd: "resolveDepth (selFrom tr) (int (rangeDepth r) - 1) = Some (rangeDepth r - 1)"
    using fa(3) by (simp add: resolveDepth_def Let_def nat_diff_distrib')
  from fp si rd have li1: "1 \<le> li"
    by (auto simp: findPreviousItem_def Let_def m(7) split: if_splits)
  let ?P = "content M ! (li - 1)"
  have ch: "child M (int li - 1) = Inr ?P"
    using m(3) li1 by (simp add: child_def childCount_def nat_diff_distrib')
  from fp si rd li1 ch m(6,7,8) have lp: "isListNode ?P"
    by (auto simp: findPreviousItem_def Let_def split: if_splits sum.splits)
  have pin: "?P \<in> set (content M)" using m(3) by simp
  have ckP: "check ?P" using check_content [OF m(9) pin] .
  have ne: "content ?P \<noteq> []" using list_nonempty [OF ckP lp] .
  have ch2: "child ?P (int (childCount ?P) - 1) = Inr (last (content ?P))"
    using ne by (simp add: child_def childCount_def last_conv_nth nat_diff_distrib')
  from fp si rd li1 ch lp ch2 m(6,7,8) have
    r1: "previousList res = ?P" and r2: "previousItem res = last (content ?P)"
    and r3: "previousItemStart res =
       int sM + 1 + sizesBefore M (li - 1) + int (nodeSize ?P) - int (nodeSize (last (content ?P))) - 1"
    by (auto simp: findPreviousItem_def Let_def split: if_splits sum.splits)
  have ntP: "\<not> isText ?P" using lp by (rule isListNode_not_text)
  have szP: "nodeSize ?P = 2 + fragSize (content ?P)" using ntP by (rule nodeSize_Node_ge2)
  have sb: "sizesBefore M (li - 1) = int (offsetOf (content M) (li - 1))"
    using sizesBefore_offsetOf [of "li - 1" M] m(3) by simp
  have r3': "previousItemStart res =
      int (sM + offsetOf (content M) (li - 1) + 1 +
           offsetOf (content ?P) (length (content ?P) - 1) + 1)"
    unfolding r3 sb szP using fragSize_butlast [OF ne] by simp
  show ?thesis
    using m(1,2,3,4,5,9) li1 lp ne r1 r2 r3' by (intro exI [of _ preM] exI [of _ M] exI [of _ sM] exI [of _ li]) simp
qed


text \<open>The same replacement as a step of the transaction.\<close>

lemma trReplace_flat:
  assumes tok: "textOk (doc tr)" and ch: "chain (doc tr) 0 pre L sL"
    and nt: "\<forall>c \<in> set (content L). \<not> isText c"
    and ab: "a < b" "b \<le> length (content L)"
    and ty: "typeOf L = Some ty"
    and C: "\<forall>c \<in> set C. \<not> isText c"
    and vc: "validContent ty (take a (content L) @ C @ drop b (content L))"
    and sl: "sl = \<lparr>sliceContent = C, openStart = 0, openEnd = 0\<rparr>"
    and fp: "fp = int (sL + offsetOf (content L) a)" and tp: "tp = int (sL + offsetOf (content L) b)"
  shows "trReplace tr fp tp sl =
         Inr (tr\<lparr>doc := rebuild pre (copy L (take a (content L) @ C @ drop b (content L))),
                 steps := steps tr @ [ReplaceStep fp tp sl],
                 mapping := mapping tr @ [getMap (ReplaceStep fp tp sl)]\<rparr>)"
proof -
  let ?cs = "content L"
  have al: "a \<le> length ?cs" using ab by simp
  define f where "f = \<lparr>pos = sL + offsetOf ?cs a, path = pre @ [(L, a, sL + offsetOf ?cs a)]\<rparr>"
  define t where "t = \<lparr>pos = sL + offsetOf ?cs b, path = pre @ [(L, b, sL + offsetOf ?cs b)]\<rparr>"
  have rf: "resolve (doc tr) fp = Inr f"
    unfolding f_def fp by (rule resolve_boundary [OF tok ch al])
  have rt: "resolve (doc tr) tp = Inr t"
    unfolding t_def tp by (rule resolve_boundary [OF tok ch ab(2)])
  have pf: "path f = pre @ [(L, a, pos f)]" and pt: "path t = pre @ [(L, b, pos t)]"
    by (simp_all add: f_def t_def)
  note af = split_path_accessors [OF pf]
  note at = split_path_accessors [OF pt]
  have df: "depth f = length pre" and dt: "depth t = length pre" using af(3) at(3) by simp_all
  have fd: "nodeAt f (length pre) = L" "index f (length pre) = a"
    using af(1,2) by simp_all
  have td: "nodeAt t (length pre) = L" "index t (length pre) = b"
    using at(1,2) by simp_all
  have sf: "start f (length pre) = sL" by (rule chain_start [OF ch pf])
  have st: "start t (length pre) = sL" by (rule chain_start [OF ch pt])
  have ap: "allPos ?cs" using chain_textOk [OF ch tok] by (rule textOk_allPos)
  have ne: "fp \<noteq> tp" using offsetOf_strict [OF ap ab] by (simp add: fp tp)
  have fits: "fitsTrivially f t sl"
    using vc by (simp add: fitsTrivially_def sl df dt sf st parent_def fd td canReplace_def ty)
  have nr: "nodeReplace (doc tr) fp tp sl =
      Inr (rebuild pre (copy L (take a ?cs @ C @ drop b ?cs)))"
    unfolding sl fp tp by (rule flat_replace [OF tok ch nt ab ty C vc])
  show ?thesis
    using ne by (simp add: trReplace_def rf rt fits trStep_def fromReplace_def nr)
qed

lemma replaceRangeWith_trReplace:
  "fp \<noteq> tp \<Longrightarrow>
   replaceRangeWith tr fp tp n =
     trReplace tr fp tp \<lparr>sliceContent = [n], openStart = 0, openEnd = 0\<rparr>"
  by (simp add: replaceRangeWith_def trReplace_def Let_def split: sum.splits)


text \<open>The starts of the ancestors along a chain grow by at least one per level.\<close>

lemma startP_Cons_Suc: "startP s ((m, i, off) # rest) (Suc k) = startP (off + 1) rest k"
  by (cases k) (simp_all add: startP_def)

lemma chain_start_grows:
  "chain n s pre L sL \<Longrightarrow> k \<le> length pre \<Longrightarrow> startP s pre k + (length pre - k) \<le> sL"
proof (induction pre arbitrary: n s k)
  case Nil
  then show ?case by (simp add: startP_def)
next
  case (Cons e rest)
  obtain m i off where e: "e = (m, i, off)" by (cases e)
  from Cons.prems(1) e have c: "off = s + offsetOf (content n) i"
    "chain (content n ! i) (off + 1) rest L sL" by auto
  show ?case
  proof (cases k)
    case 0
    from Cons.IH [OF c(2), of 0] have "off + 1 + length rest \<le> sL" by (simp add: startP_def)
    with c(1) 0 show ?thesis by (simp add: startP_def)
  next
    case (Suc k')
    with Cons.prems(2) have "k' \<le> length rest" by simp
    from Cons.IH [OF c(2) this] Suc show ?thesis by (simp add: e startP_Cons_Suc)
  qed
qed

lemma startP_append: "k \<le> length pre \<Longrightarrow> startP s (pre @ rest) k = startP s pre k"
  by (cases k) (simp_all add: startP_def nth_append)

lemma deleteOpenStart_None:
  "(\<And>d'. d0 \<le> d' \<Longrightarrow> d' < d0 + k \<Longrightarrow>
      \<not> (fp - int (start f d') = int (depth f) - int d' \<and> int (endOf f d') < tp \<and>
         int (endOf t d') - tp \<noteq> int (depth t) - int d')) \<Longrightarrow>
   deleteOpenStart f t fp tp d0 k = None"
proof (induction k arbitrary: d0)
  case 0
  show ?case by simp
next
  case (Suc k)
  have "deleteOpenStart f t fp tp (d0 + 1) k = None"
    by (rule Suc.IH) (rule Suc.prems, simp_all)
  moreover have "\<not> (fp - int (start f d0) = int (depth f) - int d0 \<and> int (endOf f d0) < tp \<and>
         int (endOf t d0) - tp \<noteq> int (depth t) - int d0)"
    by (rule Suc.prems) simp_all
  ultimately show ?case by simp
qed

text \<open>
  \<^verbatim>\<open>tr.deleteRange(range.start, range.end)\<close> in Case B: where the range covers every
  item of the selected list the whole list node is deleted, otherwise the items of the
  range.
\<close>

lemma caseB_deleteRange:
  assumes tok: "textOk (doc tr)" and chM: "chain (doc tr) 0 preM M sM"
    and ixb: "1 \<le> ix" "ix < length (content M)" and S: "content M ! ix = S" "isListNode S"
    and e: "0 < e" "e \<le> length (content S)"
  shows "deleteRange tr (int (sM + offsetOf (content M) ix + 1))
           (int (sM + offsetOf (content M) ix + 1 + offsetOf (content S) e)) =
         (if e = length (content S)
          then trDelete tr (int (sM + offsetOf (content M) ix)) (int (sM + offsetOf (content M) (Suc ix)))
          else trDelete tr (int (sM + offsetOf (content M) ix + 1))
                 (int (sM + offsetOf (content M) ix + 1 + offsetOf (content S) e)))"
proof -
  let ?cM = "content M"
  let ?cS = "content S"
  let ?offS = "sM + offsetOf ?cM ix"
  let ?sS = "?offS + 1"
  let ?pre = "preM @ [(M, ix, ?offS)]"
  let ?d = "Suc (length preM)"
  have ntS: "\<not> isText S" using S(2) by (rule isListNode_not_text)
  have "chain M sM [(M, ix, ?offS)] S ?sS" using ixb S(1) ntS by simp
  from chain_append [OF chM this] have chS: "chain (doc tr) 0 ?pre S ?sS" .
  have tokM: "textOk M" by (rule chain_textOk [OF chM tok])
  have tokS: "textOk S" by (rule chain_textOk [OF chS tok])
  have apM: "allPos ?cM" using tokM by (rule textOk_allPos)
  have apS: "allPos ?cS" using tokS by (rule textOk_allPos)
  define f where "f = \<lparr>pos = ?sS + offsetOf ?cS 0, path = ?pre @ [(S, 0, ?sS + offsetOf ?cS 0)]\<rparr>"
  define t where "t = \<lparr>pos = ?sS + offsetOf ?cS e, path = ?pre @ [(S, e, ?sS + offsetOf ?cS e)]\<rparr>"
  have rf: "resolve (doc tr) (int (?sS + offsetOf ?cS 0)) = Inr f"
    unfolding f_def by (rule resolve_boundary [OF tok chS]) simp
  have rt: "resolve (doc tr) (int (?sS + offsetOf ?cS e)) = Inr t"
    unfolding t_def by (rule resolve_boundary [OF tok chS e(2)])
  have rf': "resolve (doc tr) (int (sM + offsetOf ?cM ix + 1)) = Inr f" using rf by simp
  have rt': "resolve (doc tr) (int (sM + offsetOf ?cM ix + 1 + offsetOf ?cS e)) = Inr t"
    using rt by simp
  have posf: "pos f = ?sS" and post: "pos t = ?sS + offsetOf ?cS e" by (simp_all add: f_def t_def)
  have pf: "path f = preM @ [(M, ix, ?offS), (S, 0, ?sS)]"
    and pt: "path t = preM @ [(M, ix, ?offS), (S, e, ?sS + offsetOf ?cS e)]"
    by (simp_all add: f_def t_def)
  note af = split_path_accessors [OF pf]
  note at = split_path_accessors [OF pt]
  have df: "depth f = ?d" and dt: "depth t = ?d" using af(3) at(3) by simp_all
  have nf: "nodeAt f ?d = S" "nodeAt t ?d = S" using af(4) [of 1] at(4) [of 1] by simp_all
  have pf2: "path f = ?pre @ [(S, 0, ?sS)]" and pt2: "path t = ?pre @ [(S, e, ?sS + offsetOf ?cS e)]"
    by (simp_all add: f_def t_def)
  have sf: "start f ?d = ?sS" using chain_start [OF chS pf2] by simp
  have st: "start t ?d = ?sS" using chain_start [OF chS pt2] by simp
  have sfm: "start f (length preM) = sM" using chain_start [OF chM pf] .
  have ef: "endOf f ?d = ?sS + fragSize ?cS" and et: "endOf t ?d = ?sS + fragSize ?cS"
    by (simp_all add: endOf_def sf st nf)
  have bf: "before f ?d = ?offS"
    using af(6) [of 0] by (simp add: before_def df)
  have at': "after t ?d = sM + offsetOf ?cM (Suc ix)"
    using at(6) [of 0] ixb(2) S(1) by (simp add: after_def dt nf offsetOf_Suc)
  have offpos: "0 < offsetOf ?cM ix"
    using offsetOf_strict [OF apM, of 0 ix] ixb by simp
  have ve: "\<not> validEnd S"
    using S(2) by (cases S) (auto simp: validEnd_def validContent_list)
  show ?thesis
  proof (cases "e = length ?cS")
    case True
    have c2: "coveredLoop f t ?d = []"
      using offpos by (simp add: sfm posf df)
    have cov: "coveredDepths f t = [?d]"
      unfolding coveredDepths_def df dt
      using True
      by (simp add: coveredLoop.simps(2) [of f t ?d] df dt sf st posf post et c2
            del: coveredLoop.simps)
    have dc: "deleteCovered f t [?d] =
        Some (int ?offS, int (sM + offsetOf ?cM (Suc ix)))"
      using ve by (simp add: nf bf at')
    show ?thesis
      unfolding deleteRange_def rf' rt' sum.case cov dc
      using True by simp
  next
    case False
    then have el: "e < length ?cS" using e(2) by simp
    have lt: "offsetOf ?cS e < fragSize ?cS"
      using offsetOf_strict [OF apS el le_refl] by simp
    have cov: "coveredDepths f t = []"
      unfolding coveredDepths_def df dt
      using lt
      by (simp add: coveredLoop.simps(2) [of f t ?d] df dt sf st posf post et
            del: coveredLoop.simps)
    have dos: "deleteOpenStart f t (int ?sS) (int (?sS + offsetOf ?cS e)) 1 (min (depth f) (depth t)) = None"
    proof (rule deleteOpenStart_None)
      fix d' assume d1: "1 \<le> d'" and d2: "d' < 1 + min (depth f) (depth t)"
      then have dd: "d' \<le> ?d" by (simp add: df dt)
      show "\<not> (int ?sS - int (start f d') = int (depth f) - int d' \<and>
                int (endOf f d') < int (?sS + offsetOf ?cS e) \<and>
                int (endOf t d') - int (?sS + offsetOf ?cS e) \<noteq> int (depth t) - int d')"
      proof (cases "d' = ?d")
        case True
        then show ?thesis using lt by (simp add: ef)
      next
        case False
        with dd have dl: "d' \<le> length preM" by simp
        have "start f d' = startP 0 (path f) d'" by (rule start_startP)
        also have "\<dots> = startP 0 preM d'" unfolding pf by (rule startP_append [OF dl])
        finally have s: "start f d' = startP 0 preM d'" .
        from chain_start_grows [OF chM dl] have "start f d' + (length preM - d') \<le> sM"
          by (simp add: s)
        with offpos dl have "int ?sS - int (start f d') \<noteq> int (depth f) - int d'"
          by (simp add: df)
        then show ?thesis by simp
      qed
    qed
    show ?thesis
      unfolding deleteRange_def rf' rt' sum.case cov dos
      using False by simp
  qed
qed


text \<open>
  The node that holds the two lists after Case B: the last item of the previous list
  (at index \<open>k - 1\<close>) is replaced by the rebuilt item, and the selected list (at index
  \<open>k\<close>) keeps the items from index \<open>e\<close> on, or is gone when none is left.
\<close>

definition moveUnder :: "node \<Rightarrow> nat \<Rightarrow> nat \<Rightarrow> node \<Rightarrow> node" where
  "moveUnder M k e item =
     copy M (take (k - 1) (content M) @
             [copy (content M ! (k - 1)) (butlast (content (content M ! (k - 1))) @ [item])] @
             (if e = length (content (content M ! k)) then []
              else [copy (content M ! k) (drop e (content (content M ! k)))]) @
             drop (Suc k) (content M))"

lemma validContent_remove_child:
  assumes t: "t = Doc \<or> isListItemType t" and v: "validContent t cs"
    and k: "1 \<le> k" "k < length cs"
  shows "validContent t (take k cs @ drop (Suc k) cs)"
proof -
  obtain c ds where cs: "cs = c # ds" using k by (cases cs) auto
  obtain k' where k': "k = Suc k'" using k(1) by (cases k) auto
  have sub: "set (take k' ds @ drop (Suc k') ds) \<subseteq> set ds"
    by (auto dest: in_set_takeD in_set_dropD)
  from t show ?thesis
  proof
    assume "t = Doc"
    with v cs k' sub show ?thesis by (auto simp: list_all_iff)
  next
    assume "isListItemType t"
    with v cs k' sub show ?thesis by (cases t) (auto simp: list_all_iff)
  qed
qed

lemma take_pred_snoc: "1 \<le> k \<Longrightarrow> k \<le> length cs \<Longrightarrow> take k cs = take (k - 1) cs @ [cs ! (k - 1)]"
  by (cases k) (simp_all add: take_Suc_conv_app_nth)

lemma update_after_remove:
  assumes "1 \<le> k" "k < length cs"
  shows "(take k cs @ drop (Suc k) cs)[k - 1 := X] = take (k - 1) cs @ [X] @ drop (Suc k) cs"
proof -
  have "take k cs = take (k - 1) cs @ [cs ! (k - 1)]"
    using assms by (intro take_pred_snoc) simp_all
  then show ?thesis using assms by (simp add: list_update_append)
qed

lemma update_two:
  assumes "1 \<le> k" "k < length cs"
  shows "(cs[k := Y])[k - 1 := X] = take (k - 1) cs @ [X] @ [Y] @ drop (Suc k) cs"
proof -
  obtain j where j: "k = Suc j" using assms(1) by (cases k) auto
  have "cs = take j cs @ cs ! j # drop (Suc j) cs"
    using assms(2) j by (simp add: id_take_nth_drop)
  also have "drop (Suc j) cs = cs ! k # drop (Suc k) cs"
    using assms(2) j by (simp add: Cons_nth_drop_Suc)
  finally have c: "cs = take j cs @ cs ! j # cs ! k # drop (Suc k) cs" .
  have lj: "length (take j cs) = j" using assms(2) j by simp
  from c have "(cs[k := Y])[j := X] =
      ((take j cs @ cs ! j # cs ! k # drop (Suc k) cs)[k := Y])[j := X]"
    by (rule arg_cong [where f = "\<lambda>z. (z[k := Y])[j := X]"])
  also have "\<dots> = take j cs @ X # Y # drop (Suc k) cs"
    using lj j by (simp add: list_update_append)
  finally show ?thesis by (simp add: j)
qed

text \<open>The two steps of Case B on the document, from the geometry of the two lists.\<close>

lemma caseB_steps:
  assumes ck: "check (doc tr)" and chM: "chain (doc tr) 0 preM M sM" and ckM: "check M"
    and k: "1 \<le> k" "k < length (content M)"
    and S: "content M ! k = S" "isListNode S"
    and P: "content M ! (k - 1) = P" "isListNode P"
    and e: "0 < e" "e \<le> length (content S)"
    and N: "\<not> isText N" "typeOf N = typeOf (last (content P))"
    and dr: "deleteRange tr (int (sM + offsetOf (content M) k + 1))
               (int (sM + offsetOf (content M) k + 1 + offsetOf (content S) e)) = Inr tr1"
    and rr: "replaceRangeWith tr1
               (int (sM + offsetOf (content M) (k - 1) + 1 + offsetOf (content P) (length (content P) - 1)))
               (int (sM + offsetOf (content M) (k - 1) + 1 + offsetOf (content P) (length (content P))))
               N = Inr tr2"
  shows "doc tr2 = rebuild preM (moveUnder M k e N)"
    and "length (steps tr2) = length (steps tr) + 2"
proof -
  let ?cM = "content M"
  let ?cS = "content S"
  let ?cP = "content P"
  let ?m = "length ?cP"
  let ?offS = "sM + offsetOf ?cM k"
  let ?sS = "?offS + 1"
  let ?offP = "sM + offsetOf ?cM (k - 1)"
  let ?sP = "?offP + 1"
  have tok: "textOk (doc tr)" using ck by (rule check_textOk)
  have kin: "S \<in> set ?cM" using k S(1) by auto
  have k1: "k - 1 < length ?cM" using k by simp
  have pin: "P \<in> set ?cM" using k1 P(1) by auto
  have ckS: "check S" using check_content [OF ckM kin] .
  have ckP: "check P" using check_content [OF ckM pin] .
  have ntS: "\<not> isText S" using S(2) by (rule isListNode_not_text)
  have ntP: "\<not> isText P" using P(2) by (rule isListNode_not_text)
  have ntM: "\<not> isText M" using k by (cases M) auto
  note pl = parent_of_list [OF ckM k(2) S(2) [folded S(1)]]
  obtain tM where tM: "typeOf M = Some tM" "tM = Doc \<or> isListItemType tM" "validContent tM ?cM"
    using pl(2) by blast
  note lcS = list_children [OF ckS S(2)]
  note lcP = list_children [OF ckP P(2)]
  have neP: "?cP \<noteq> []" using list_nonempty [OF ckP P(2)] .
  obtain tS where tS: "typeOf S = Some tS" "isListType tS" using S(2) by (cases S) auto
  obtain tP where tP: "typeOf P = Some tP" "isListType tP" using P(2) by (cases P) auto
  have vS: "validContent tS ?cS" using ckS tS(1) by (cases S) auto
  have vP: "validContent tP ?cP" using ckP tP(1) by (cases P) auto
  have ntcS: "\<forall>c \<in> set ?cS. \<not> isText c"
    using lcS(1) by blast
  have ntcP: "\<forall>c \<in> set ?cP. \<not> isText c"
    using lcP(1) by blast
  \<comment> \<open>the first step\<close>
  define cM1 where "cM1 = (if e = length ?cS then take k ?cM @ drop (Suc k) ?cM
                           else ?cM[k := copy S (drop e ?cS)])"
  define M1 where "M1 = copy M cM1"
  have "chain M sM [(M, k, ?offS)] S ?sS" using k S(1) ntS by simp
  from chain_append [OF chM this] have chS: "chain (doc tr) 0 (preM @ [(M, k, ?offS)]) S ?sS" .
  have d1: "doc tr1 = rebuild preM M1 \<and> length (steps tr1) = length (steps tr) + 1"
  proof (cases "e = length ?cS")
    case True
    have vc: "validContent tM (take k ?cM @ [] @ drop (Suc k) ?cM)"
      using validContent_remove_child [OF tM(2,3) k] by simp
    have "trReplace tr (int ?offS) (int (sM + offsetOf ?cM (Suc k))) emptySlice =
        Inr (tr\<lparr>doc := rebuild preM (copy M (take k ?cM @ [] @ drop (Suc k) ?cM)),
                steps := steps tr @ [ReplaceStep (int ?offS) (int (sM + offsetOf ?cM (Suc k))) emptySlice],
                mapping := mapping tr @ [getMap (ReplaceStep (int ?offS) (int (sM + offsetOf ?cM (Suc k))) emptySlice)]\<rparr>)"
      by (rule trReplace_flat [OF tok chM pl(1) _ _ tM(1) _ vc]) (use k in \<open>simp_all add: emptySlice_def\<close>)
    with dr True show ?thesis
      unfolding caseB_deleteRange [OF tok chM k S e]
      by (auto simp: trDelete_def M1_def cM1_def)
  next
    case False
    have vc: "validContent tS (take 0 ?cS @ [] @ drop e ?cS)"
      using vS tS(2) False e by (auto simp: validContent_list dest: in_set_dropD)
    have "trReplace tr (int (?sS + offsetOf ?cS 0)) (int (?sS + offsetOf ?cS e)) emptySlice =
        Inr (tr\<lparr>doc := rebuild (preM @ [(M, k, ?offS)]) (copy S (take 0 ?cS @ [] @ drop e ?cS)),
                steps := steps tr @ [ReplaceStep (int (?sS + offsetOf ?cS 0)) (int (?sS + offsetOf ?cS e)) emptySlice],
                mapping := mapping tr @ [getMap (ReplaceStep (int (?sS + offsetOf ?cS 0)) (int (?sS + offsetOf ?cS e)) emptySlice)]\<rparr>)"
      by (rule trReplace_flat [OF tok chS ntcS e tS(1) _ vc]) (simp_all add: emptySlice_def)
    with dr False show ?thesis
      unfolding caseB_deleteRange [OF tok chM k S e]
      by (auto simp: trDelete_def M1_def cM1_def rebuild_append replaceChild_def)
  qed
  \<comment> \<open>the node that holds the lists after the first step\<close>
  have ntM1: "\<not> isText M1" using ntM by (simp add: M1_def)
  have cM1: "content M1 = cM1" using ntM by (simp add: M1_def)
  have tyM1: "typeOf M1 = typeOf M" by (simp add: M1_def)
  have l1: "k - 1 < length cM1" using k by (auto simp: cM1_def)
  have p1: "cM1 ! (k - 1) = P" using k P(1) by (auto simp: cM1_def nth_append)
  have o1: "offsetOf cM1 (k - 1) = offsetOf ?cM (k - 1)"
    using k by (auto simp: cM1_def offsetOf_def)
  have vM1: "validContent tM cM1"
  proof (cases "e = length ?cS")
    case True
    then show ?thesis using validContent_remove_child [OF tM(2,3) k] by (simp add: cM1_def)
  next
    case False
    have "validContent tM (?cM[k := copy S (drop e ?cS)]) = validContent tM ?cM"
      by (rule validContent_update) (use k S(1) in simp_all)
    with False tM(3) show ?thesis by (simp add: cM1_def)
  qed
  have ckS': "e \<noteq> length ?cS \<Longrightarrow> check (copy S (drop e ?cS))"
  proof -
    assume ne: "e \<noteq> length ?cS"
    have "validContent tS (drop e ?cS)"
      using vS tS(2) ne e by (auto simp: validContent_list dest: in_set_dropD)
    moreover have "list_all check (drop e ?cS)"
      using ckS by (cases S) (auto simp: list_all_iff dest: in_set_dropD)
    ultimately show ?thesis using tS(1) by (cases S) auto
  qed
  have ckall: "list_all check ?cM" using ckM by (cases M) auto
  have ckM1: "check M1"
  proof -
    have "list_all check cM1"
      using ckall ckS'
      by (auto simp: cM1_def list_all_iff dest: in_set_takeD in_set_dropD set_update_subset_insert [THEN subsetD])
    with vM1 tM(1) ntM show ?thesis by (cases M) (auto simp: M1_def)
  qed
  have ck1: "check (doc tr1)"
    using d1 check_rebuild [OF chM ck ckM1 tyM1] by simp
  have tok1: "textOk (doc tr1)" using ck1 by (rule check_textOk)
  have chM1: "chain (doc tr1) 0 (repath preM M1) M1 sM"
    using chain_repath [OF chM ntM1] d1 by simp
  have "chain M1 sM [(M1, k - 1, sM + offsetOf (content M1) (k - 1))] P (sM + offsetOf (content M1) (k - 1) + 1)"
    using l1 p1 ntP by (simp add: cM1)
  from chain_append [OF chM1 this] o1
  have chP: "chain (doc tr1) 0 (repath preM M1 @ [(M1, k - 1, ?offP)]) P ?sP"
    by (simp add: cM1)
  \<comment> \<open>the second step\<close>
  obtain ti where ti: "typeOf (last ?cP) = Some (listItemTypeFor tP)"
    using vP tP(2) neP by (auto simp: validContent_list)
  have vc2: "validContent tP (take (?m - 1) ?cP @ [N] @ drop ?m ?cP)"
    using vP tP(2) N(2) ti by (auto simp: validContent_list dest: in_set_takeD)
  have m1: "?m - 1 < ?m" using neP by simp
  let ?a = "int (?sP + offsetOf ?cP (?m - 1))"
  let ?b = "int (?sP + offsetOf ?cP ?m)"
  let ?sl = "\<lparr>sliceContent = [N], openStart = 0, openEnd = 0\<rparr>"
  let ?X = "tr1\<lparr>doc := rebuild (repath preM M1 @ [(M1, k - 1, ?offP)])
                            (copy P (take (?m - 1) ?cP @ [N] @ drop ?m ?cP)),
                 steps := steps tr1 @ [ReplaceStep ?a ?b ?sl],
                 mapping := mapping tr1 @ [getMap (ReplaceStep ?a ?b ?sl)]\<rparr>"
  have tf: "trReplace tr1 ?a ?b ?sl = Inr ?X"
    by (rule trReplace_flat [OF tok1 chP ntcP m1 _ tP(1) _ vc2]) (use N in simp_all)
  have ne: "?a \<noteq> ?b"
    using offsetOf_strict [OF textOk_allPos [OF chain_textOk [OF chP tok1]] m1 le_refl] by simp
  have "Inr tr2 = Inr ?X"
    using rr [unfolded replaceRangeWith_trReplace [OF ne]] tf by simp
  then have x: "tr2 = ?X" by (simp only: sum.inject)
  have d2: "doc tr2 = rebuild (repath preM M1 @ [(M1, k - 1, ?offP)])
                            (copy P (take (?m - 1) ?cP @ [N] @ drop ?m ?cP))"
    and s2: "steps tr2 = steps tr1 @ [ReplaceStep ?a ?b ?sl]"
    unfolding x by simp_all
  show "length (steps tr2) = length (steps tr) + 2" using s2 d1 by simp
  let ?P' = "copy P (butlast ?cP @ [N])"
  have P': "copy P (take (?m - 1) ?cP @ [N] @ drop ?m ?cP) = ?P'"
    by (simp add: butlast_conv_take)
  have "doc tr2 = rebuild preM (copy M (cM1[k - 1 := ?P']))"
    unfolding d2 P' rebuild_append rebuild_repath
    using ntM by (simp add: replaceChild_def M1_def)
  also have "cM1[k - 1 := ?P'] =
      take (k - 1) ?cM @ [?P'] @
      (if e = length ?cS then [] else [copy S (drop e ?cS)]) @ drop (Suc k) ?cM"
    using update_after_remove [OF k] update_two [OF k] by (simp add: cM1_def)
  finally show "doc tr2 = rebuild preM (moveUnder M k e N)"
    using S(1) P(1) by (simp add: moveUnder_def)
qed


lemma check_moveUnder:
  assumes ckM: "check M" and k: "1 \<le> k" "k < length (content M)"
    and S: "isListNode (content M ! k)" and P: "isListNode (content M ! (k - 1))"
    and e: "0 < e" "e \<le> length (content (content M ! k))"
    and N: "check N" "typeOf N = typeOf (last (content (content M ! (k - 1))))"
  shows "check (moveUnder M k e N)" and "typeOf (moveUnder M k e N) = typeOf M"
proof -
  let ?cM = "content M"
  let ?S = "?cM ! k"
  let ?P = "?cM ! (k - 1)"
  let ?cS = "content ?S"
  let ?cP = "content ?P"
  let ?P' = "copy ?P (butlast ?cP @ [N])"
  let ?S' = "copy ?S (drop e ?cS)"
  let ?rest = "if e = length ?cS then [] else [?S']"
  let ?new = "take (k - 1) ?cM @ [?P'] @ ?rest @ drop (Suc k) ?cM"
  show "typeOf (moveUnder M k e N) = typeOf M" by (simp add: moveUnder_def)
  have kin: "?S \<in> set ?cM" using k by auto
  have k1: "k - 1 < length ?cM" using k by simp
  have pin: "?P \<in> set ?cM" using k1 by auto
  have ckS: "check ?S" using check_content [OF ckM kin] .
  have ckP: "check ?P" using check_content [OF ckM pin] .
  have ntM: "\<not> isText M" using k by (cases M) auto
  note pl = parent_of_list [OF ckM k(2) S]
  obtain tM where tM: "typeOf M = Some tM" "tM = Doc \<or> isListItemType tM" "validContent tM ?cM"
    using pl(2) by blast
  have neP: "?cP \<noteq> []" using list_nonempty [OF ckP P] .
  obtain tS where tS: "typeOf ?S = Some tS" "isListType tS" using S by (cases ?S) auto
  obtain tP where tP: "typeOf ?P = Some tP" "isListType tP" using P by (cases ?P) auto
  have vS: "validContent tS ?cS" using ckS tS(1) by (cases ?S) auto
  have vP: "validContent tP ?cP" using ckP tP(1) by (cases ?P) auto
  have caS: "list_all check ?cS" using ckS by (cases ?S) auto
  have caP: "list_all check ?cP" using ckP by (cases ?P) auto
  have ti: "typeOf (last ?cP) = Some (listItemTypeFor tP)"
    using vP tP(2) neP by (auto simp: validContent_list)
  have ckP': "check ?P'"
  proof -
    have "validContent tP (butlast ?cP @ [N])"
      using vP tP(2) N(2) ti by (auto simp: validContent_list dest: in_set_butlastD)
    moreover have "list_all check (butlast ?cP @ [N])"
      using caP N(1) by (auto simp: list_all_iff dest: in_set_butlastD)
    ultimately show ?thesis using tP(1) by (cases ?P) auto
  qed
  have ckS': "e \<noteq> length ?cS \<Longrightarrow> check ?S'"
  proof -
    assume ne: "e \<noteq> length ?cS"
    have "validContent tS (drop e ?cS)"
      using vS tS(2) ne e by (auto simp: validContent_list dest: in_set_dropD)
    moreover have "list_all check (drop e ?cS)"
      using caS by (auto simp: list_all_iff dest: in_set_dropD)
    ultimately show ?thesis using tS(1) by (cases ?S) auto
  qed
  have ckall: "list_all check ?cM" using ckM by (cases M) auto
  have ca: "list_all check ?new"
    using ckall ckP' ckS' by (auto simp: list_all_iff dest: in_set_takeD in_set_dropD)
  have tk: "take k ?cM = take (k - 1) ?cM @ [?P]"
    using take_pred_snoc [of k ?cM] k by simp
  have v: "validContent tM ?new"
  proof (cases "e = length ?cS")
    case True
    have "map typeOf ?new = map typeOf (take k ?cM @ drop (Suc k) ?cM)"
      using True by (simp add: tk)
    from validContent_typeOf_cong [OF this] validContent_remove_child [OF tM(2,3) k]
    show ?thesis by simp
  next
    case False
    have "?cM = take k ?cM @ ?S # drop (Suc k) ?cM"
      using k by (simp add: id_take_nth_drop)
    then have "?cM = take (k - 1) ?cM @ [?P] @ [?S] @ drop (Suc k) ?cM"
      by (simp add: tk)
    then have "map typeOf ?cM = map typeOf (take (k - 1) ?cM @ [?P] @ [?S] @ drop (Suc k) ?cM)"
      by simp
    also have "\<dots> = map typeOf ?new" using False by simp
    finally have "map typeOf ?new = map typeOf ?cM" by simp
    from validContent_typeOf_cong [OF this] tM(3) show ?thesis by simp
  qed
  show "check (moveUnder M k e N)"
    using v ca tM(1) ntM by (cases M) (auto simp: moveUnder_def)
qed


text \<open>A successful run through Case B, on a schema-valid document.\<close>

lemma indent_caseB_result:
  assumes sd: "selectionInDoc tr" and root: "\<not> isListNode (doc tr)" and ck: "check (doc tr)"
    and run: "indentList tr = Returned True tr'"
    and cr: "calculateItemRange tr = Some r"
    and fp: "findPreviousItem (selList tr r) (selFrom tr) r = Inr (Some res)"
    and ty: "typeOf (previousList res) \<noteq> typeOf (selList tr r)"
  shows "\<exists>preM M sM k N.
           listPre tr r = preM @ [(M, k, sM + offsetOf (content M) k)] \<and>
           chain (doc tr) 0 preM M sM \<and> check M \<and> 1 \<le> k \<and> k < length (content M) \<and>
           content M ! k = selList tr r \<and> content M ! (k - 1) = previousList res \<and>
           isListNode (previousList res) \<and> content (previousList res) \<noteq> [] \<and>
           previousItem res = last (content (previousList res)) \<and>
           previousItemStart res =
             int (sM + offsetOf (content M) (k - 1) + 1 +
                  offsetOf (content (previousList res)) (length (content (previousList res)) - 1) + 1) \<and>
           startIndex r = 0 \<and>
           check N \<and> typeOf N = typeOf (previousItem res) \<and>
           copy N [] = copy (previousItem res) [] \<and>
           (\<exists>sel unsel. sliceSelectedItems (doc tr) (selTo tr) r = Inr (sel, unsel) \<and>
                        N = rebuiltItem res (selList tr r) sel unsel) \<and>
           doc tr' = rebuild preM (moveUnder M k (endIndex r) N) \<and>
           length (steps tr') = length (steps tr) + 2"
proof -
  note se = selectedList_eq [OF sd root ck cr]
  note g = itemRange_geometry [OF sd root ck cr]
  have si: "startIndex r = 0"
  proof (rule ccontr)
    assume "startIndex r \<noteq> 0"
    then have "1 \<le> startIndex r" by simp
    from findPreviousItem_same_list(2) [OF sd root ck cr this fp] ty show False by simp
  qed
  from caseB_geometry [OF sd root ck cr si fp] obtain preM M sM k where
    m: "listPre tr r = preM @ [(M, k, sM + offsetOf (content M) k)]"
      "chain (doc tr) 0 preM M sM" "1 \<le> k" "k < length (content M)"
      "content M ! k = selList tr r"
      "listStart tr r = sM + offsetOf (content M) k + 1" "check M"
      "previousList res = content M ! (k - 1)" "isListNode (previousList res)"
      "content (previousList res) \<noteq> []"
      "previousItem res = last (content (previousList res))"
      "previousItemStart res =
         int (sM + offsetOf (content M) (k - 1) + 1 +
              offsetOf (content (previousList res)) (length (content (previousList res)) - 1) + 1)"
    by blast
  let ?S = "selList tr r"
  let ?P = "previousList res"
  from run show ?thesis
  proof (cases rule: indentList_True_cases)
    case (A rng res' tr1)
    with cr fp ty se(1) show ?thesis by simp
  next
    case (B rng res' sel unsel tr1 tr2)
    from B(1) cr have rr: "rng = r" by simp
    from B(3) fp se(1) rr have re: "res' = res" by simp
    define N where "N = rebuiltItem res ?S sel unsel"
    have ckN: "check N" using B(7) by (simp add: N_def rr re se(1))
    have tyN: "typeOf N = typeOf (previousItem res)" by (simp add: N_def rebuiltItem_def)
    have ntN: "\<not> isText N" using ckN tyN m(9,10,11)
    proof -
      have pin: "?P \<in> set (content M)" using m(3,4,8) by simp
      have ckP: "check ?P" using check_content [OF m(7) pin] .
      have "\<not> isText (content ?P ! (length (content ?P) - 1))"
        by (rule item_facts(1) [OF ckP m(9)]) (use m(10) in simp)
      then have "\<not> isText (previousItem res)" using m(10,11) by (simp add: last_conv_nth)
      then show ?thesis using tyN by (cases N; cases "previousItem res") auto
    qed
    have rs: "int (rangeStart r) = int (sM + offsetOf (content M) k + 1)"
      using g(7) si m(6) by simp
    have rend: "int (rangeEnd r) =
        int (sM + offsetOf (content M) k + 1 + offsetOf (content ?S) (endIndex r))"
      using g(8) m(6) by simp
    have e: "0 < endIndex r" "endIndex r \<le> length (content ?S)" using g(5,6) si by simp_all
    have dr: "deleteRange tr (int (sM + offsetOf (content M) k + 1))
               (int (sM + offsetOf (content M) k + 1 + offsetOf (content ?S) (endIndex r))) = Inr tr1"
      using B(6) unfolding rr rs rend .
    have szi: "fragSize (content ?P) =
        offsetOf (content ?P) (length (content ?P) - 1) + nodeSize (previousItem res)"
      using fragSize_butlast [OF m(10)] m(11) by simp
    have a: "previousItemStart res - 1 =
        int (sM + offsetOf (content M) (k - 1) + 1 +
             offsetOf (content ?P) (length (content ?P) - 1))"
      unfolding m(12) by simp
    have b: "previousItemStart res + int (nodeSize (previousItem res)) - 2 + 1 =
        int (sM + offsetOf (content M) (k - 1) + 1 +
             offsetOf (content ?P) (length (content ?P)))"
      unfolding m(12) using szi by simp
    have rw: "replaceRangeWith tr1
               (int (sM + offsetOf (content M) (k - 1) + 1 +
                     offsetOf (content ?P) (length (content ?P) - 1)))
               (int (sM + offsetOf (content M) (k - 1) + 1 +
                     offsetOf (content ?P) (length (content ?P))))
               N = Inr tr2"
      using B(8) unfolding re rr se(1) a b N_def .
    note st = caseB_steps [OF ck m(2) m(7) m(3,4) m(5) g(3) m(8) [symmetric] m(9) e ntN
        tyN [unfolded m(11)] dr rw]
    note f = finishSelection_True [OF B(9)]
    have "doc tr' = rebuild preM (moveUnder M k (endIndex r) N)" using st(1) f(2) by simp
    moreover have "length (steps tr') = length (steps tr) + 2" using st(2) f(3) by simp
    moreover have "copy N [] = copy (previousItem res) []"
      by (simp add: N_def rebuiltItem_def)
    moreover have "\<exists>sel unsel. sliceSelectedItems (doc tr) (selTo tr) r = Inr (sel, unsel) \<and>
        N = rebuiltItem res (selList tr r) sel unsel"
      using B(5) rr N_def by blast
    ultimately show ?thesis
      using m si ckN tyN
      by (intro exI [of _ preM] exI [of _ M] exI [of _ sM] exI [of _ k] exI [of _ N]) simp
  qed
qed


section \<open>The frame of the indent\<close>

text \<open>
  A position of the host counts tokens: one for every character of a text node, one for
  the opening and one for the closing of every other node. The token sequence of a
  document makes "the content before a position" and "the content after a position"
  precise. The opening token carries the type and the attributes of its node, the
  closing token carries nothing.
\<close>

datatype token = Open ntype nat | Close | Chr char

fun toks :: "node \<Rightarrow> token list" where
  "toks (Text s) = map Chr s"
| "toks (Node t a cs) = Open t a # concat (map toks cs) @ [Close]"

definition fragToks :: "node list \<Rightarrow> token list" where
  "fragToks cs = concat (map toks cs)"

definition docToks :: "node \<Rightarrow> token list" where
  "docToks d = fragToks (content d)"

fun openTok :: "node \<Rightarrow> token" where
  "openTok (Node t a cs) = Open t a"
| "openTok (Text s) = Close"

lemma fragToks_simps [simp]:
  "fragToks [] = []" "fragToks (c # cs) = toks c @ fragToks cs"
  "fragToks (xs @ ys) = fragToks xs @ fragToks ys"
  by (simp_all add: fragToks_def)

lemma toks_nontext: "\<not> isText n \<Longrightarrow> toks n = openTok n # fragToks (content n) @ [Close]"
  by (cases n) (simp_all add: fragToks_def)

lemma length_toks [simp]: "length (toks n) = nodeSize n"
proof (induction n)
  case (Text s)
  show ?case by simp
next
  case (Node t a cs)
  have "length (concat (map toks cs)) = sum_list (map nodeSize cs)"
    using Node.IH by (induction cs) auto
  then show ?case by simp
qed

lemma length_fragToks [simp]: "length (fragToks cs) = fragSize cs"
  by (induction cs) simp_all

lemma fragSize_take: "fragSize (take i cs) = offsetOf cs i"
  by (simp add: offsetOf_def)

lemma openTok_copy [simp]: "openTok (copy n cs) = openTok n"
  by (cases n) simp_all

text \<open>The tokens before and after the node at the end of a chain.\<close>

fun preToks :: "(node \<times> nat \<times> nat) list \<Rightarrow> token list" where
  "preToks [] = []"
| "preToks ((n, i, off) # rest) = openTok n # fragToks (take i (content n)) @ preToks rest"

fun postToks :: "(node \<times> nat \<times> nat) list \<Rightarrow> token list" where
  "postToks [] = []"
| "postToks ((n, i, off) # rest) = postToks rest @ fragToks (drop (Suc i) (content n)) @ [Close]"

lemma toks_rebuild:
  "chain n s pre L sL \<Longrightarrow> \<not> isText X \<Longrightarrow>
   toks (rebuild pre X) = preToks pre @ toks X @ postToks pre"
proof (induction pre arbitrary: n s)
  case Nil
  show ?case by simp
next
  case (Cons e rest)
  obtain m i off where e: "e = (m, i, off)" by (cases e)
  from Cons.prems(1) e have c: "m = n" "i < length (content n)"
    "chain (content n ! i) (off + 1) rest L sL" by auto
  have ntn: "\<not> isText n" using c(2) by (cases n) auto
  have ih: "toks (rebuild rest X) = preToks rest @ toks X @ postToks rest"
    by (rule Cons.IH [OF c(3) Cons.prems(2)])
  have "(content n)[i := rebuild rest X] =
      take i (content n) @ rebuild rest X # drop (Suc i) (content n)"
    using c(2) by (rule upd_conv_take_nth_drop)
  then show ?case
    using ntn ih by (simp add: e c(1) replaceChild_def toks_nontext)
qed

lemma rebuild_id: "chain n s pre L sL \<Longrightarrow> rebuild pre L = n"
proof (induction pre arbitrary: n s)
  case Nil
  then show ?case by simp
next
  case (Cons e rest)
  obtain m i off where e: "e = (m, i, off)" by (cases e)
  from Cons.prems e have c: "m = n" "i < length (content n)"
    "chain (content n ! i) (off + 1) rest L sL" by auto
  have "rebuild rest L = content n ! i" by (rule Cons.IH [OF c(3)])
  then show ?case using c(2) by (cases n) (simp_all add: e c(1) replaceChild_def)
qed

lemma length_preToks: "chain n s pre L sL \<Longrightarrow> s + length (preToks pre) = sL"
proof (induction pre arbitrary: n s)
  case Nil
  then show ?case by simp
next
  case (Cons e rest)
  obtain m i off where e: "e = (m, i, off)" by (cases e)
  from Cons.prems e have c: "m = n" "off = s + offsetOf (content n) i"
    "chain (content n ! i) (off + 1) rest L sL" by auto
  from Cons.IH [OF c(3)] show ?case by (simp add: e c(1,2) offsetOf_def)
qed

text \<open>From the tokens of the whole document to the tokens of its content.\<close>

lemma docToks_split:
  assumes "\<not> isText D" and "toks D = B @ w @ A" and "B \<noteq> []" and "A \<noteq> []"
  shows "docToks D = tl B @ w @ butlast A"
proof -
  obtain b bs where B: "B = b # bs" using assms(3) by (cases B) auto
  obtain as c where A: "A = as @ [c]" using assms(4) by (cases A rule: rev_cases) auto
  show ?thesis using assms(1,2) unfolding A B by (cases D) (simp_all add: docToks_def fragToks_def)
qed

text \<open>
  The frame: two documents agree on the tokens before a position, and on the tokens
  after a position (counted from the end in the second document, whose size may differ).
\<close>

definition sameBefore :: "node \<Rightarrow> node \<Rightarrow> nat \<Rightarrow> bool" where
  "sameBefore d d' q = (q \<le> length (docToks d) \<and> take q (docToks d') = take q (docToks d))"

definition sameAfter :: "node \<Rightarrow> node \<Rightarrow> nat \<Rightarrow> bool" where
  "sameAfter d d' q =
     (q \<le> length (docToks d) \<and> length (docToks d) - q \<le> length (docToks d') \<and>
      drop (length (docToks d') - (length (docToks d) - q)) (docToks d') = drop q (docToks d))"

lemma frame_from_split:
  assumes "\<not> isText D" "\<not> isText D'"
    and "toks D = B @ w @ A" "toks D' = B @ w' @ A" "B \<noteq> []" "A \<noteq> []"
    and "length B = Suc q1" "length B + length w = Suc q2"
  shows "sameBefore D D' q1" "sameAfter D D' q2"
    "q1 + (length (docToks D) - q2) \<le> length (docToks D')"
proof -
  have d: "docToks D = tl B @ w @ butlast A" by (rule docToks_split [OF assms(1,3,5,6)])
  have d': "docToks D' = tl B @ w' @ butlast A" by (rule docToks_split [OF assms(2,4,5,6)])
  have l1: "length (tl B) = q1" using assms(7) by simp
  have l2: "length (tl B) + length w = q2" using assms(7,8) by simp
  show "sameBefore D D' q1" unfolding sameBefore_def d d' using l1 by simp
  have "length (tl B @ w) = q2" using l2 by simp
  then have dq: "drop q2 (tl B @ w @ butlast A) = butlast A"
    by (metis append.assoc append_eq_conv_conj)
  have len: "length (tl B @ w @ butlast A) - q2 = length (butlast A)" using l2 by simp
  have "drop (length (tl B @ w' @ butlast A) - length (butlast A)) (tl B @ w' @ butlast A) = butlast A"
    by (metis append.assoc append_eq_conv_conj add_diff_cancel_right' length_append)
  then show "sameAfter D D' q2"
    unfolding sameAfter_def d d' dq len using l2 by simp
  show "q1 + (length (docToks D) - q2) \<le> length (docToks D')"
    unfolding d d' using l1 l2 by simp
qed


lemma fragSize_take_drop:
  "i \<le> j \<Longrightarrow> offsetOf cs i + fragSize (take (j - i) (drop i cs)) = offsetOf cs j"
proof -
  assume "i \<le> j"
  then have "take j cs = take i cs @ take (j - i) (drop i cs)"
    by (metis le_add_diff_inverse take_add)
  then show ?thesis by (simp add: offsetOf_def)
qed

lemma split_range:
  assumes "1 \<le> i" "i \<le> j" "j \<le> length cs"
  shows "cs = take (i - 1) cs @ [cs ! (i - 1)] @ take (j - i) (drop i cs) @ drop j cs"
proof -
  have "cs = take j cs @ drop j cs" by simp
  also have "take j cs = take i cs @ take (j - i) (drop i cs)"
    using assms(2) by (metis le_add_diff_inverse take_add)
  also have "take i cs = take (i - 1) cs @ [cs ! (i - 1)]"
    using assms by (intro take_pred_snoc) simp_all
  finally show ?thesis by simp
qed

text \<open>Case A edits the window between the start of the previous item and the end of the range.\<close>

lemma caseA_frame:
  assumes ch: "chain D 0 pre L sL" and L: "isListNode L" "check L"
    and ij: "1 \<le> i" "i < j" "j \<le> length (content L)"
  shows "sameBefore D (rebuild pre (nestRange L i j)) (sL + offsetOf (content L) (i - 1) + 1)"
    and "sameAfter D (rebuild pre (nestRange L i j)) (sL + offsetOf (content L) j)"
    and "sL + offsetOf (content L) (i - 1) + 1 + (length (docToks D) - (sL + offsetOf (content L) j))
           \<le> length (docToks (rebuild pre (nestRange L i j)))"
proof -
  let ?cs = "content L"
  let ?prev = "?cs ! (i - 1)"
  let ?sel = "take (j - i) (drop i ?cs)"
  let ?L' = "nestRange L i j"
  let ?B = "preToks pre @ openTok L # fragToks (take (i - 1) ?cs) @ [openTok ?prev]"
  let ?w = "fragToks (content ?prev) @ [Close] @ fragToks ?sel"
  let ?w' = "fragToks (content ?prev) @ toks (copy L ?sel) @ [Close]"
  let ?A = "fragToks (drop j ?cs) @ [Close] @ postToks pre"
  have ntL: "\<not> isText L" using L(1) by (rule isListNode_not_text)
  have il: "i - 1 < length ?cs" using ij by simp
  have ntp: "\<not> isText ?prev" by (rule item_facts(1) [OF L(2,1) il])
  have ntD: "\<not> isText D" by (rule chain_root_nontext [OF ch ntL])
  have ntL': "\<not> isText ?L'" using ntL by (simp add: nestRange_def)
  have ntD': "\<not> isText (rebuild pre ?L')" by (rule isText_rebuild [OF ch ntL' ntD])
  have sp: "?cs = take (i - 1) ?cs @ [?prev] @ ?sel @ drop j ?cs"
    using split_range [of i j ?cs] ij by simp
  have "fragToks ?cs = fragToks (take (i - 1) ?cs @ [?prev] @ ?sel @ drop j ?cs)"
    using sp by simp
  then have tL: "toks L = (openTok L # fragToks (take (i - 1) ?cs) @ [openTok ?prev]) @ ?w @
      (fragToks (drop j ?cs) @ [Close])"
    using ntp ntL by (simp add: toks_nontext)
  have tL': "toks ?L' = (openTok L # fragToks (take (i - 1) ?cs) @ [openTok ?prev]) @ ?w' @
      (fragToks (drop j ?cs) @ [Close])"
    using ntL ntp by (simp add: nestRange_def toks_nontext)
  have "toks D = toks (rebuild pre L)" using rebuild_id [OF ch] by simp
  also have "\<dots> = preToks pre @ toks L @ postToks pre" by (rule toks_rebuild [OF ch ntL])
  finally have tD: "toks D = ?B @ ?w @ ?A" unfolding tL by simp
  have "toks (rebuild pre ?L') = preToks pre @ toks ?L' @ postToks pre"
    by (rule toks_rebuild [OF ch ntL'])
  then have tD': "toks (rebuild pre ?L') = ?B @ ?w' @ ?A" unfolding tL' by simp
  have lp: "length (preToks pre) = sL" using length_preToks [OF ch] by simp
  have lB: "length ?B = Suc (sL + offsetOf ?cs (i - 1) + 1)" by (simp add: lp fragSize_take)
  have szp: "nodeSize ?prev = 2 + fragSize (content ?prev)" using ntp by (rule nodeSize_Node_ge2)
  have oi: "offsetOf ?cs i = offsetOf ?cs (i - 1) + nodeSize ?prev"
    using offsetOf_Suc [OF il] ij(1) by simp
  have oj: "offsetOf ?cs i + fragSize ?sel = offsetOf ?cs j"
    using fragSize_take_drop [of i j ?cs] ij by simp
  have lw: "length ?B + length ?w = Suc (sL + offsetOf ?cs j)"
    using szp oi oj by (simp add: lp fragSize_take)
  note fr = frame_from_split [OF ntD ntD' tD tD' _ _ lB lw]
  show "sameBefore D (rebuild pre ?L') (sL + offsetOf ?cs (i - 1) + 1)" by (rule fr(1)) simp_all
  show "sameAfter D (rebuild pre ?L') (sL + offsetOf ?cs j)" by (rule fr(2)) simp_all
  show "sL + offsetOf ?cs (i - 1) + 1 + (length (docToks D) - (sL + offsetOf ?cs j))
           \<le> length (docToks (rebuild pre ?L'))" by (rule fr(3)) simp_all
qed


lemma openTok_same: "copy a [] = copy b [] \<Longrightarrow> \<not> isText a \<Longrightarrow> openTok a = openTok b"
  by (cases a; cases b) simp_all

text \<open>Case B edits the same window, which here spans the end of one list and the start of the next.\<close>

lemma caseB_frame:
  assumes ch: "chain D 0 preM M sM" and ckM: "check M"
    and k: "1 \<le> k" "k < length (content M)"
    and S: "isListNode (content M ! k)" and P: "isListNode (content M ! (k - 1))"
    and e: "0 < e" "e \<le> length (content (content M ! k))"
    and N: "\<not> isText N" "copy N [] = copy (last (content (content M ! (k - 1)))) []"
  shows "sameBefore D (rebuild preM (moveUnder M k e N))
           (sM + offsetOf (content M) (k - 1) + 1 +
            offsetOf (content (content M ! (k - 1))) (length (content (content M ! (k - 1))) - 1) + 1)"
    and "sameAfter D (rebuild preM (moveUnder M k e N))
           (sM + offsetOf (content M) k + 1 + offsetOf (content (content M ! k)) e)"
    and "sM + offsetOf (content M) (k - 1) + 1 +
         offsetOf (content (content M ! (k - 1))) (length (content (content M ! (k - 1))) - 1) + 1 +
         (length (docToks D) - (sM + offsetOf (content M) k + 1 + offsetOf (content (content M ! k)) e))
           \<le> length (docToks (rebuild preM (moveUnder M k e N)))"
proof -
  let ?cM = "content M"
  let ?S = "?cM ! k"
  let ?P = "?cM ! (k - 1)"
  let ?cS = "content ?S"
  let ?cP = "content ?P"
  let ?item = "last ?cP"
  let ?M' = "moveUnder M k e N"
  let ?B = "preToks preM @ openTok M # fragToks (take (k - 1) ?cM) @
            openTok ?P # fragToks (butlast ?cP) @ [openTok ?item]"
  let ?w = "fragToks (content ?item) @ [Close, Close] @ openTok ?S # fragToks (take e ?cS)"
  let ?w' = "fragToks (content N) @ [Close] @ (if e = length ?cS then [] else [Close, openTok ?S])"
  let ?A = "fragToks (drop e ?cS) @ [Close] @ fragToks (drop (Suc k) ?cM) @ [Close] @ postToks preM"
  have ntM: "\<not> isText M" using k by (cases M) auto
  have kin: "?S \<in> set ?cM" using k by auto
  have k1: "k - 1 < length ?cM" using k by simp
  have pin: "?P \<in> set ?cM" using k1 by auto
  have ckP: "check ?P" using check_content [OF ckM pin] .
  have ntS: "\<not> isText ?S" using S by (rule isListNode_not_text)
  have ntP: "\<not> isText ?P" using P by (rule isListNode_not_text)
  have neP: "?cP \<noteq> []" using list_nonempty [OF ckP P] .
  have ntI: "\<not> isText ?item" using list_children(1) [OF ckP P] neP by simp
  have ntD: "\<not> isText D" by (rule chain_root_nontext [OF ch ntM])
  have ntM': "\<not> isText ?M'" using ntM by (simp add: moveUnder_def)
  have ntD': "\<not> isText (rebuild preM ?M')" by (rule isText_rebuild [OF ch ntM' ntD])
  have oN: "openTok N = openTok ?item" using openTok_same [OF N(2,1)] .
  have cP: "?cP = butlast ?cP @ [?item]" using neP by simp
  have tP: "toks ?P = openTok ?P # fragToks (butlast ?cP) @
      openTok ?item # fragToks (content ?item) @ [Close, Close]"
  proof -
    have "fragToks ?cP = fragToks (butlast ?cP @ [?item])" using cP by simp
    then show ?thesis using ntP ntI by (simp add: toks_nontext)
  qed
  have tS: "toks ?S = openTok ?S # fragToks (take e ?cS) @ fragToks (drop e ?cS) @ [Close]"
  proof -
    have "fragToks ?cS = fragToks (take e ?cS @ drop e ?cS)" by simp
    then show ?thesis using ntS by (simp add: toks_nontext del: append_take_drop_id)
  qed
  have cM: "?cM = take (k - 1) ?cM @ [?P] @ [?S] @ drop (Suc k) ?cM"
  proof -
    have "?cM = take k ?cM @ ?S # drop (Suc k) ?cM" using k by (simp add: id_take_nth_drop)
    moreover have "take k ?cM = take (k - 1) ?cM @ [?P]"
      using take_pred_snoc [of k ?cM] k by simp
    ultimately show ?thesis by simp
  qed
  have tM: "toks M = (openTok M # fragToks (take (k - 1) ?cM) @
      openTok ?P # fragToks (butlast ?cP) @ [openTok ?item]) @ ?w @
      (fragToks (drop e ?cS) @ [Close] @ fragToks (drop (Suc k) ?cM) @ [Close])"
  proof -
    have "fragToks ?cM = fragToks (take (k - 1) ?cM @ [?P] @ [?S] @ drop (Suc k) ?cM)"
      using cM by simp
    then show ?thesis using ntM tP tS by (simp add: toks_nontext)
  qed
  have tM': "toks ?M' = (openTok M # fragToks (take (k - 1) ?cM) @
      openTok ?P # fragToks (butlast ?cP) @ [openTok ?item]) @ ?w' @
      (fragToks (drop e ?cS) @ [Close] @ fragToks (drop (Suc k) ?cM) @ [Close])"
    using ntM ntP ntS N(1) oN by (simp add: moveUnder_def toks_nontext)
  have "toks D = toks (rebuild preM M)" using rebuild_id [OF ch] by simp
  also have "\<dots> = preToks preM @ toks M @ postToks preM" by (rule toks_rebuild [OF ch ntM])
  finally have tD: "toks D = ?B @ ?w @ ?A" unfolding tM by simp
  have "toks (rebuild preM ?M') = preToks preM @ toks ?M' @ postToks preM"
    by (rule toks_rebuild [OF ch ntM'])
  then have tD': "toks (rebuild preM ?M') = ?B @ ?w' @ ?A" unfolding tM' by simp
  have lp: "length (preToks preM) = sM" using length_preToks [OF ch] by simp
  have bl: "fragSize (butlast ?cP) = offsetOf ?cP (length ?cP - 1)"
    by (simp add: butlast_conv_take fragSize_take)
  have lB: "length ?B =
      Suc (sM + offsetOf ?cM (k - 1) + 1 + offsetOf ?cP (length ?cP - 1) + 1)"
    using bl by (simp add: lp fragSize_take)
  have szI: "nodeSize ?item = 2 + fragSize (content ?item)" using ntI by (rule nodeSize_Node_ge2)
  have szP: "nodeSize ?P = 2 + fragSize ?cP" using ntP by (rule nodeSize_Node_ge2)
  have fP: "fragSize ?cP = offsetOf ?cP (length ?cP - 1) + nodeSize ?item"
    by (rule fragSize_butlast [OF neP])
  have ok: "offsetOf ?cM k = offsetOf ?cM (k - 1) + nodeSize ?P"
    using offsetOf_Suc [OF k1] k(1) by simp
  have lw: "length ?B + length ?w = Suc (sM + offsetOf ?cM k + 1 + offsetOf ?cS e)"
    using szI szP fP ok bl by (simp add: lp fragSize_take)
  note fr = frame_from_split [OF ntD ntD' tD tD' _ _ lB lw]
  show "sameBefore D (rebuild preM ?M')
      (sM + offsetOf ?cM (k - 1) + 1 + offsetOf ?cP (length ?cP - 1) + 1)"
    by (rule fr(1)) simp_all
  show "sameAfter D (rebuild preM ?M') (sM + offsetOf ?cM k + 1 + offsetOf ?cS e)"
    by (rule fr(2)) simp_all
  show "sM + offsetOf ?cM (k - 1) + 1 + offsetOf ?cP (length ?cP - 1) + 1 +
      (length (docToks D) - (sM + offsetOf ?cM k + 1 + offsetOf ?cS e))
        \<le> length (docToks (rebuild preM ?M'))"
    by (rule fr(3)) simp_all
qed


section \<open>Where the selection lands\<close>

text \<open>
  A fragment cut from its start to an offset begins with the same tokens as the
  fragment itself, up to that offset: cutting closes the nodes that the offset lies in
  and drops what follows.
\<close>

lemma take_append_long: "n \<le> length xs \<Longrightarrow> take n (xs @ ys) = take n xs"
  by simp

lemma take_eq_length: "take n xs = take n ys \<Longrightarrow> n \<le> length ys \<Longrightarrow> n \<le> length xs"
  by (metis length_take min.absorb2 min.cobounded1 min_def)

lemma cutNode_prefix:
  "f = 0 \<longrightarrow>
     (isText n \<longrightarrow> take t (toks (cutNode n f t)) = take t (toks n)) \<and>
     (\<not> isText n \<longrightarrow> t \<le> fragSize (content n) \<longrightarrow>
        take (Suc t) (toks (cutNode n f t)) = take (Suc t) (toks n))"
  and cutFrag_prefix: "f = 0 \<longrightarrow> t \<le> fragSize cs \<longrightarrow>
        take t (fragToks (cutFrag cs f t)) = take t (fragToks cs)"
  and cutLoop_prefix: "f \<le> q \<longrightarrow> take (t - q) (fragToks (cutLoop cs q f t)) = take (t - q) (fragToks cs)"
proof (induction n f t and cs f t and cs q f t rule: cutNode_cutFrag_cutLoop.induct)
  case (1 s f t)
  show ?case by (simp add: take_map)
next
  case (2 ty a cs f t)
  show ?case
  proof (intro impI conjI)
    assume f: "f = 0" and "isText (Node ty a cs)"
    then show "take t (toks (cutNode (Node ty a cs) f t)) = take t (toks (Node ty a cs))" by simp
  next
    assume f: "f = 0" and t: "t \<le> fragSize (content (Node ty a cs))"
    show "take (Suc t) (toks (cutNode (Node ty a cs) f t)) = take (Suc t) (toks (Node ty a cs))"
    proof (cases "t = sum_list (map nodeSize cs)")
      case True
      with f show ?thesis by simp
    next
      case False
      with f 2 t have ih: "take t (fragToks (cutFrag cs f t)) = take t (fragToks cs)" by simp
      have l1: "t \<le> length (fragToks cs)" using t by simp
      have l2: "t \<le> length (fragToks (cutFrag cs f t))" by (rule take_eq_length [OF ih l1])
      show ?thesis
        using False f ih l1 l2 by (simp add: fragToks_def [symmetric])
    qed
  qed
next
  case (3 cs f t)
  show ?case
  proof (intro impI)
    assume f: "f = 0" and t: "t \<le> fragSize cs"
    show "take t (fragToks (cutFrag cs f t)) = take t (fragToks cs)"
    proof (cases "t = sum_list (map nodeSize cs)")
      case True
      with f show ?thesis by (simp add: cutFrag.simps)
    next
      case False
      show ?thesis
      proof (cases "f < t")
        case True
        with False f 3 have "take (t - 0) (fragToks (cutLoop cs 0 f t)) = take (t - 0) (fragToks cs)"
          by simp
        with False True f show ?thesis by (simp add: cutFrag.simps)
      next
        case False
        with f show ?thesis by simp
      qed
    qed
  qed
next
  case (4 q f t)
  show ?case by simp
next
  case (5 c cs q f t)
  show ?case
  proof (intro impI)
    assume fq: "f \<le> q"
    show "take (t - q) (fragToks (cutLoop (c # cs) q f t)) = take (t - q) (fragToks (c # cs))"
    proof (cases "q < t")
      case False
      then show ?thesis by simp
    next
      case qt: True
      let ?e = "q + nodeSize c"
      have ihR: "take (t - ?e) (fragToks (cutLoop cs ?e f t)) = take (t - ?e) (fragToks cs)"
        using 5(3) [OF qt refl] fq by simp
      show ?thesis
      proof (cases "t < ?e")
        case te: True
        then have fe: "f < ?e" using fq qt by simp
        have rest: "cutLoop cs ?e f t = []" using te by (cases cs) simp_all
        have lt: "t - q \<le> nodeSize c" using te by simp
        show ?thesis
        proof (cases c)
          case (Text s)
          have "f - q = 0" using fq by simp
          then show ?thesis
            using qt te fe fq rest Text by (simp add: Let_def take_map min_def)
        next
          case (Node ty a ds)
          let ?t' = "min (sum_list (map nodeSize ds)) (t - q - 1)"
          have f0: "f - q - 1 = 0" using fq by simp
          have t': "?t' = t - q - 1" using te Node by simp
          have ntc: "\<not> isText c" using Node by simp
          have bd: "t - q - 1 \<le> fragSize (content c)" using te Node by (simp add: fragSize_def)
          from 5(2) [OF qt refl fe _ Node] te f0 t' ntc bd
          have ih: "take (Suc (t - q - 1)) (toks (cutNode c 0 (t - q - 1))) =
              take (Suc (t - q - 1)) (toks c)" by simp
          have s: "Suc (t - q - 1) = t - q" using qt by simp
          have l1: "t - q \<le> length (toks c)" using lt by simp
          have l2: "t - q \<le> length (toks (cutNode c 0 (t - q - 1)))"
            using take_eq_length [OF ih] l1 s by simp
          have "cutLoop (c # cs) q f t = [cutNode c 0 (t - q - 1)]"
            using qt te fe rest Node f0 t' by (simp add: Let_def del: cutNode.simps)
          then show ?thesis using ih l1 l2 s by simp
        qed
      next
        case False
        then have et: "?e \<le> t" by simp
        have tq: "t - q = length (toks c) + (t - ?e)" using et by simp
        show ?thesis
        proof (cases "f < ?e")
          case True
          have cl: "cutLoop (c # cs) q f t = c # cutLoop cs ?e f t"
            using qt et fq True by (simp add: Let_def)
          show ?thesis unfolding cl fragToks_simps tq using ihR by simp
        next
          case False
          then have z: "nodeSize c = 0" using fq by simp
          then have "length (toks c) = 0" by simp
          then have tc: "toks c = []" by (simp only: length_0_conv)
          have cl: "cutLoop (c # cs) q f t = cutLoop cs ?e f t"
            using qt False by (simp add: Let_def)
          show ?thesis unfolding cl fragToks_simps tc using ihR z by simp
        qed
      qed
    qed
  qed
qed


lemma fragToks_take: "fragToks (take i cs) = take (offsetOf cs i) (fragToks cs)"
proof (induction cs arbitrary: i)
  case Nil
  show ?case by simp
next
  case (Cons c cs)
  show ?case
  proof (cases i)
    case 0
    then show ?thesis by simp
  next
    case (Suc j)
    then show ?thesis using Cons [of j] by simp
  qed
qed

text \<open>The tokens of the document from the start of the content of a node on.\<close>

lemma docToks_from_start:
  assumes ch: "chain D 0 pre S sS" and nt: "\<not> isText S" and m: "m \<le> fragSize (content S)"
  shows "take m (drop sS (docToks D)) = take m (fragToks (content S))"
proof -
  let ?B = "preToks pre @ [openTok S]"
  let ?A = "Close # postToks pre"
  have ntD: "\<not> isText D" by (rule chain_root_nontext [OF ch nt])
  have "toks D = toks (rebuild pre S)" using rebuild_id [OF ch] by simp
  also have "\<dots> = preToks pre @ toks S @ postToks pre" by (rule toks_rebuild [OF ch nt])
  finally have tD: "toks D = ?B @ fragToks (content S) @ ?A"
    by (simp add: toks_nontext [OF nt])
  have d: "docToks D = tl ?B @ fragToks (content S) @ butlast ?A"
    by (rule docToks_split [OF ntD tD]) simp_all
  have l: "length (tl ?B) = sS" using length_preToks [OF ch] by simp
  have "drop sS (docToks D) = fragToks (content S) @ butlast ?A"
    unfolding d using l by (metis append_eq_conv_conj)
  then show ?thesis using m by simp
qed

lemma pos_le_endOf:
  assumes "pathFor D 0 (pos rp) (path rp)" "k < length (path rp)"
  shows "start rp k \<le> pos rp" "pos rp \<le> endOf rp k"
proof -
  from pathFor_chain [OF assms]
  have "pathFor (fst (path rp ! k)) (startP 0 (path rp) k) (pos rp) (drop k (path rp))" by simp
  from pathFor_bounds [OF this]
  show "start rp k \<le> pos rp" "pos rp \<le> endOf rp k"
    by (simp_all add: endOf_def start_startP nodeAt_def)
qed

text \<open>
  The selected slice of Case B starts with the content of the document between the
  start of the range and the upper end of the selection.
\<close>

lemma selected_slice_tokens:
  assumes sd: "selectionInDoc tr" and root: "\<not> isListNode (doc tr)" and ck: "check (doc tr)"
    and cr: "calculateItemRange tr = Some r" and si: "startIndex r = 0"
    and ss: "sliceSelectedItems (doc tr) (selTo tr) r = Inr (sel, unsel)"
  shows "take (pos (selTo tr) - rangeStart r) (fragToks (sliceContent sel)) =
         take (pos (selTo tr) - rangeStart r) (drop (rangeStart r) (docToks (doc tr)))"
proof -
  note selFrom_simps [simp del]
  note g = itemRange_geometry [OF sd root ck cr]
  let ?D = "doc tr"
  let ?S = "selList tr r"
  let ?cS = "content ?S"
  let ?sS = "listStart tr r"
  let ?d = "rangeDepth r"
  let ?t = "pos (selTo tr)"
  have tok: "textOk ?D" using ck by (rule check_textOk)
  have ntS: "\<not> isText ?S" using g(3) by (rule isListNode_not_text)
  have rs: "rangeStart r = ?sS" using g(7) si by simp
  have re: "rangeEnd r = ?sS + offsetOf ?cS (endIndex r)" by (rule g(8))
  have e: "0 < endIndex r" "endIndex r \<le> length ?cS" using g(5,6) si by simp_all
  have tre: "?t \<le> rangeEnd r" by (rule g(10))
  have rst: "rangeStart r \<le> ?t" using g(9,11) by (rule order_trans)
  have oe: "offsetOf ?cS (endIndex r) \<le> fragSize ?cS" by (rule offsetOf_le)
  have m: "?t - ?sS \<le> fragSize ?cS" using tre re oe by simp
  have doc: "take (?t - ?sS) (drop ?sS (docToks ?D)) = take (?t - ?sS) (fragToks ?cS)"
    by (rule docToks_from_start [OF g(1) ntS m])
  let ?mid = "if ?d + 2 \<le> depth (selTo tr) then int (endOf (selTo tr) (?d + 2))
              else int (rangeEnd r) - 1"
  show ?thesis
  proof (cases "int (rangeEnd r) \<le> ?mid + 1")
    case True
    have "nodeSlice ?D (int (?sS + offsetOf ?cS 0)) (int (?sS + offsetOf ?cS (endIndex r))) =
        Inr \<lparr>sliceContent = take (endIndex r - 0) (drop 0 ?cS), openStart = 0, openEnd = 0\<rparr>"
      by (rule nodeSlice_boundaries [OF tok g(1) e])
    then have ns: "nodeSlice ?D (int (rangeStart r)) (int (rangeEnd r)) =
        Inr \<lparr>sliceContent = take (endIndex r) ?cS, openStart = 0, openEnd = 0\<rparr>"
      unfolding rs re by simp
    from ss True have "sliceContent sel = take (endIndex r) ?cS"
      unfolding sliceSelectedItems_def Let_def ns by auto
    then have "fragToks (sliceContent sel) = take (offsetOf ?cS (endIndex r)) (fragToks ?cS)"
      by (simp add: fragToks_take)
    moreover have "?t - ?sS \<le> offsetOf ?cS (endIndex r)" using tre re by simp
    ultimately have "take (?t - ?sS) (fragToks (sliceContent sel)) = take (?t - ?sS) (fragToks ?cS)"
      by (simp add: min_def)
    with doc show ?thesis unfolding rs by simp
  next
    case False
    then have dp: "?d + 2 \<le> depth (selTo tr)" by (auto split: if_splits)
    let ?m = "endOf (selTo tr) (?d + 2)"
    from False dp have mre: "?m + 1 < rangeEnd r" by simp
    have pt: "pathFor ?D 0 ?t (path (selTo tr))" by (rule selTo_pathFor [OF sd])
    have kl: "?d + 2 < length (path (selTo tr))" using dp depth_lt_length [OF pt] by simp
    have tm: "?t \<le> ?m" by (rule pos_le_endOf(2) [OF pt kl])
    have sm: "?sS \<le> ?m" using tm rst rs by simp
    have mb: "?m - ?sS \<le> fragSize ?cS" using mre re oe by simp
    show ?thesis
    proof (cases "?m = ?sS")
      case True
      with tm rst rs have "?t - rangeStart r = 0" by simp
      then show ?thesis by simp
    next
      case ne: False
      define rf where "rf = \<lparr>pos = ?sS + offsetOf ?cS 0,
          path = listPre tr r @ [(?S, 0, ?sS + offsetOf ?cS 0)]\<rparr>"
      have rf: "resolve ?D (int (?sS + offsetOf ?cS 0)) = Inr rf"
        unfolding rf_def by (rule resolve_boundary [OF tok g(1)]) simp
      have rf': "resolve ?D (int (rangeStart r)) = Inr rf" using rf rs by simp
      have pf: "path rf = listPre tr r @ [(?S, 0, pos rf)]" by (simp add: rf_def)
      note af = split_path_accessors [OF pf, unfolded g(2)]
      have df: "depth rf = ?d" "nodeAt rf ?d = ?S" using af(1,3) by simp_all
      have sf: "start rf ?d = ?sS" using chain_start [OF g(1) pf] g(2) by simp
      have posf: "pos rf = ?sS" by (simp add: rf_def)
      have mdoc: "?m \<le> fragSize (content ?D)"
        using chain_bounds [OF g(1) sm] mb by simp
      define rt where "rt = \<lparr>pos = ?m, path = resolvePath ?D ?m 0\<rparr>"
      have rt: "resolve ?D (int ?m) = Inr rt"
        unfolding rt_def by (rule resolve_nat [OF mdoc])
      have post: "pos rt = ?m" by (simp add: rt_def)
      have sh: "sharedDepth rf ?m = ?d"
        unfolding sharedDepth_def df(1)
        by (rule sharedDepthLoop_top) (use sm mb in \<open>simp add: sf endOf_def df(2)\<close>)
      have nsl: "nodeSlice ?D (int (rangeStart r)) (int ?m) =
          Inr \<lparr>sliceContent = cutFrag ?cS 0 (?m - ?sS),
               openStart = depth rf - ?d, openEnd = depth rt - ?d\<rparr>"
        unfolding nodeSlice_def rf' rt using ne rs sh sf df posf post
        by (simp add: Let_def)
      from ss False dp nsl have "sliceContent sel = cutFrag ?cS 0 (?m - ?sS)"
        unfolding sliceSelectedItems_def Let_def
        by (auto split: sum.splits)
      moreover have "take (?m - ?sS) (fragToks (cutFrag ?cS 0 (?m - ?sS))) =
          take (?m - ?sS) (fragToks ?cS)"
        using cutFrag_prefix [of 0 "?m - ?sS" ?cS] mb by simp
      ultimately have "take (?m - ?sS) (fragToks (sliceContent sel)) =
          take (?m - ?sS) (fragToks ?cS)" by simp
      then have "take (?t - ?sS) (take (?m - ?sS) (fragToks (sliceContent sel))) =
          take (?t - ?sS) (take (?m - ?sS) (fragToks ?cS))" by simp
      moreover have "?t - ?sS \<le> ?m - ?sS" using tm by simp
      ultimately have "take (?t - ?sS) (fragToks (sliceContent sel)) =
          take (?t - ?sS) (fragToks ?cS)" by (simp add: min_def)
      with doc show ?thesis unfolding rs by simp
    qed
  qed
qed

lemma fragToks_fragAppend: "fragToks (fragAppend xs ys) = fragToks xs @ fragToks ys"
proof -
  have z: "\<And>zs. fragSize zs = 0 \<Longrightarrow> fragToks zs = []"
  proof -
    fix zs :: "node list" assume "fragSize zs = 0"
    then have "length (fragToks zs) = 0" by simp
    then show "fragToks zs = []" by (simp only: length_0_conv)
  qed
  show ?thesis
  proof (cases "fragSize ys = 0 \<or> fragSize xs = 0")
    case True
    then show ?thesis using z by (auto simp: fragAppend_def)
  next
    case False
    then have ne: "xs \<noteq> []" "ys \<noteq> []" by auto
    show ?thesis
    proof (cases "isText (last xs) \<and> isText (hd ys)")
      case True
      obtain a where a: "last xs = Text a" using True by (cases "last xs") auto
      obtain b where b: "hd ys = Text b" using True by (cases "hd ys") auto
      have x: "xs = butlast xs @ [Text a]" using ne(1) a by (metis append_butlast_last_id)
      have y: "ys = Text b # tl ys" using ne(2) b by (metis list.collapse)
      have "fragToks xs @ fragToks ys =
          fragToks (butlast xs @ [Text a]) @ fragToks (Text b # tl ys)"
        using x y by simp
      then show ?thesis using True False a b by (simp add: fragAppend_def)
    next
      case nt: False
      with False show ?thesis by (auto simp: fragAppend_def)
    qed
  qed
qed

text \<open>
  The tokens of the document after Case B, from the start of the previous item on: the
  content of the rebuilt item comes first.
\<close>

lemma caseB_new_tokens:
  assumes ch: "chain D 0 preM M sM" and ckM: "check M"
    and k: "1 \<le> k" "k < length (content M)"
    and P: "isListNode (content M ! (k - 1))"
    and N: "\<not> isText N"
  shows "\<exists>rest. drop (sM + offsetOf (content M) (k - 1) + 1 +
                      offsetOf (content (content M ! (k - 1)))
                        (length (content (content M ! (k - 1))) - 1) + 1)
                 (docToks (rebuild preM (moveUnder M k e N))) =
               fragToks (content N) @ rest"
proof -
  let ?cM = "content M"
  let ?S = "?cM ! k"
  let ?P = "?cM ! (k - 1)"
  let ?cS = "content ?S"
  let ?cP = "content ?P"
  let ?M' = "moveUnder M k e N"
  let ?B = "preToks preM @ openTok M # fragToks (take (k - 1) ?cM) @
            openTok ?P # fragToks (butlast ?cP) @ [openTok N]"
  have ntM: "\<not> isText M" using k by (cases M) auto
  have k1: "k - 1 < length ?cM" using k by simp
  have ntP: "\<not> isText ?P" using P by (rule isListNode_not_text)
  have ntD: "\<not> isText D" by (rule chain_root_nontext [OF ch ntM])
  have ntM': "\<not> isText ?M'" using ntM by (simp add: moveUnder_def)
  have ntD': "\<not> isText (rebuild preM ?M')" by (rule isText_rebuild [OF ch ntM' ntD])
  define tail where "tail = Close #
      fragToks (if e = length ?cS then [] else [copy ?S (drop e ?cS)]) @
      fragToks (drop (Suc k) ?cM) @ [Close] @ postToks preM"
  have tM': "toks ?M' = (openTok M # fragToks (take (k - 1) ?cM) @
      openTok ?P # fragToks (butlast ?cP) @ [openTok N]) @ fragToks (content N) @
      (Close # Close #
       fragToks (if e = length ?cS then [] else [copy ?S (drop e ?cS)]) @
       fragToks (drop (Suc k) ?cM) @ [Close])"
    using ntM ntP N by (simp add: moveUnder_def toks_nontext)
  have "toks (rebuild preM ?M') = preToks preM @ toks ?M' @ postToks preM"
    by (rule toks_rebuild [OF ch ntM'])
  then have tD': "toks (rebuild preM ?M') = ?B @ fragToks (content N) @ (Close # tail)"
    unfolding tM' tail_def by simp
  have d: "docToks (rebuild preM ?M') = tl ?B @ fragToks (content N) @ butlast (Close # tail)"
    by (rule docToks_split [OF ntD' tD']) simp_all
  have lp: "length (preToks preM) = sM" using length_preToks [OF ch] by simp
  have bl: "fragSize (butlast ?cP) = offsetOf ?cP (length ?cP - 1)"
    by (simp add: butlast_conv_take fragSize_take)
  have lB: "length (tl ?B) = sM + offsetOf ?cM (k - 1) + 1 + offsetOf ?cP (length ?cP - 1) + 1"
    using bl by (simp add: lp fragSize_take)
  have "drop (length (tl ?B)) (docToks (rebuild preM ?M')) =
      fragToks (content N) @ butlast (Close # tail)"
    unfolding d by simp
  then show ?thesis unfolding lB by blast
qed


text \<open>
  The cursor after Case B. From the start of the previous item the new document holds
  the old content of the previous item, then the opening of a list like the selected
  one, then the content that lay between the start of the range and the upper end of
  the selection.
\<close>

definition landsNested :: "node \<Rightarrow> node \<Rightarrow> previousItemResult \<Rightarrow> node \<Rightarrow> nat \<Rightarrow> nat \<Rightarrow> bool" where
  "landsNested d d' res lst rs t =
     (take (fragSize (content (previousItem res)) + 1 + (t - rs))
        (drop (nat (previousItemStart res)) (docToks d')) =
      fragToks (content (previousItem res)) @ openTok lst # take (t - rs) (drop rs (docToks d)))"

lemma caseB_landing:
  assumes sd: "selectionInDoc tr" and root: "\<not> isListNode (doc tr)" and ck: "check (doc tr)"
    and run: "indentList tr = Returned True tr'"
    and cr: "calculateItemRange tr = Some r"
    and fp: "findPreviousItem (selList tr r) (selFrom tr) r = Inr (Some res)"
    and ty: "typeOf (previousList res) \<noteq> typeOf (selList tr r)"
  shows "previousItemStart res + int (fragSize (content (previousItem res))) + 3 = int (rangeStart r)"
    and "landsNested (doc tr) (doc tr') res (selList tr r) (rangeStart r) (pos (selTo tr))"
proof -
  note selFrom_simps [simp del]
  note g = itemRange_geometry [OF sd root ck cr]
  from indent_caseB_result [OF sd root ck run cr fp ty] obtain preM M sM k N sel unsel where
    b: "chain (doc tr) 0 preM M sM" "check M" "1 \<le> k" "k < length (content M)"
      "content M ! k = selList tr r" "content M ! (k - 1) = previousList res"
      "isListNode (previousList res)" "content (previousList res) \<noteq> []"
      "previousItem res = last (content (previousList res))"
      "previousItemStart res =
         int (sM + offsetOf (content M) (k - 1) + 1 +
              offsetOf (content (previousList res)) (length (content (previousList res)) - 1) + 1)"
      "startIndex r = 0" "check N"
      "listPre tr r = preM @ [(M, k, sM + offsetOf (content M) k)]"
      "sliceSelectedItems (doc tr) (selTo tr) r = Inr (sel, unsel)"
      "N = rebuiltItem res (selList tr r) sel unsel"
      "doc tr' = rebuild preM (moveUnder M k (endIndex r) N)"
    by blast
  let ?S = "selList tr r"
  let ?P = "previousList res"
  let ?prev = "previousItem res"
  let ?n = "fragSize (content ?prev)"
  let ?t = "pos (selTo tr)"
  let ?rs = "rangeStart r"
  have k1: "k - 1 < length (content M)" using b(3,4) by simp
  have pin: "?P \<in> set (content M)" using nth_mem [OF k1] b(6) by simp
  have ckP: "check ?P" using check_content [OF b(2) pin] .
  have ntP: "\<not> isText ?P" using b(7) by (rule isListNode_not_text)
  have ntprev: "\<not> isText ?prev" using list_children(1) [OF ckP b(7)] b(8,9) by simp
  have ntS: "\<not> isText ?S" using g(3) by (rule isListNode_not_text)
  have ntN: "\<not> isText N" using ntprev by (simp add: b(15) rebuiltItem_def)
  \<comment> \<open>the positions\<close>
  have szprev: "nodeSize ?prev = 2 + ?n" using ntprev by (rule nodeSize_Node_ge2)
  have szP: "nodeSize ?P = 2 + fragSize (content ?P)" using ntP by (rule nodeSize_Node_ge2)
  have fP: "fragSize (content ?P) =
      offsetOf (content ?P) (length (content ?P) - 1) + nodeSize ?prev"
    using fragSize_butlast [OF b(8)] b(9) by simp
  have ok: "offsetOf (content M) k = offsetOf (content M) (k - 1) + nodeSize ?P"
    using offsetOf_Suc [OF k1] b(3,6) by simp
  have ch2: "chain (doc tr) 0 (preM @ [(M, k, sM + offsetOf (content M) k)]) ?S (listStart tr r)"
    using g(1) b(13) by simp
  from chain_snoc [OF ch2] obtain M2 sM2 where
    c2: "chain (doc tr) 0 preM M2 sM2"
      "chain M2 sM2 [(M, k, sM + offsetOf (content M) k)] ?S (listStart tr r)" by blast
  have ls: "listStart tr r = sM + offsetOf (content M) k + 1" using c2(2) by auto
  have rs: "?rs = sM + offsetOf (content M) k + 1" using g(7) b(11) ls by simp
  show pos: "previousItemStart res + int ?n + 3 = int ?rs"
    unfolding b(10) rs using szprev szP fP ok by simp
  \<comment> \<open>the tokens\<close>
  from caseB_new_tokens [OF b(1,2) b(3,4) b(7) [folded b(6)] ntN, of "endIndex r"] b(6)
  obtain rest where dr: "drop (sM + offsetOf (content M) (k - 1) + 1 +
        offsetOf (content ?P) (length (content ?P) - 1) + 1) (docToks (doc tr')) =
      fragToks (content N) @ rest"
    unfolding b(16) by auto
  have pis: "nat (previousItemStart res) = sM + offsetOf (content M) (k - 1) + 1 +
        offsetOf (content ?P) (length (content ?P) - 1) + 1"
    unfolding b(10) by simp
  have cN: "fragToks (content N) =
      fragToks (content ?prev) @ openTok ?S # fragToks (sliceContent sel) @ Close #
      fragToks (case unsel of Some u \<Rightarrow> sliceContent u | None \<Rightarrow> [])"
    using ntprev ntS
    by (simp add: b(15) rebuiltItem_def fragToks_fragAppend toks_nontext)
  have st: "take (?t - ?rs) (fragToks (sliceContent sel)) =
      take (?t - ?rs) (drop ?rs (docToks (doc tr)))"
    by (rule selected_slice_tokens [OF sd root ck cr b(11) b(14)])
  have tdoc: "?t \<le> length (docToks (doc tr))"
    using sd by (simp add: docToks_def selectionInDoc_def selTo_def resolvePos_def)
  have "?t - ?rs \<le> length (drop ?rs (docToks (doc tr)))" using tdoc by simp
  from take_eq_length [OF st this]
  have lsel: "?t - ?rs \<le> length (fragToks (sliceContent sel))" .
  have ln: "length (fragToks (content ?prev)) = ?n" by simp
  have "take (?n + 1 + (?t - ?rs)) (fragToks (content N) @ rest) =
      fragToks (content ?prev) @ openTok ?S # take (?t - ?rs) (fragToks (sliceContent sel))"
    unfolding cN using lsel ln by (simp del: length_fragToks)
  then show "landsNested (doc tr) (doc tr') res ?S ?rs ?t"
    unfolding landsNested_def pis dr st by simp
qed


lemma nodeSize_rebuild:
  assumes "chain n s pre L sL" "\<not> isText X" "\<not> isText L"
  shows "nodeSize (rebuild pre X) + nodeSize L = nodeSize n + nodeSize X"
proof -
  have "length (toks (rebuild pre X)) = length (preToks pre @ toks X @ postToks pre)"
    using toks_rebuild [OF assms(1,2)] by simp
  moreover have "length (toks (rebuild pre L)) = length (preToks pre @ toks L @ postToks pre)"
    using toks_rebuild [OF assms(1,3)] by simp
  ultimately show ?thesis using rebuild_id [OF assms(1)] by simp
qed

lemma nodeSize_copy: "\<not> isText n \<Longrightarrow> nodeSize (copy n cs) = 2 + fragSize cs"
  by (cases n) (simp_all add: fragSize_def)

lemma nodeSize_nestRange:
  assumes L: "isListNode L" "check L" and ij: "1 \<le> i" "i < j" "j \<le> length (content L)"
  shows "nodeSize (nestRange L i j) = nodeSize L + 2"
proof -
  let ?cs = "content L"
  let ?prev = "?cs ! (i - 1)"
  let ?sel = "take (j - i) (drop i ?cs)"
  have ntL: "\<not> isText L" using L(1) by (rule isListNode_not_text)
  have il: "i - 1 < length ?cs" using ij by simp
  have ntp: "\<not> isText ?prev" by (rule item_facts(1) [OF L(2,1) il])
  have sp: "?cs = take (i - 1) ?cs @ [?prev] @ ?sel @ drop j ?cs"
    using split_range [of i j ?cs] ij by simp
  have "fragSize ?cs = fragSize (take (i - 1) ?cs @ [?prev] @ ?sel @ drop j ?cs)"
    using sp by simp
  then have a: "fragSize ?cs = fragSize (take (i - 1) ?cs) + nodeSize ?prev + fragSize ?sel +
      fragSize (drop j ?cs)" by simp
  have "nodeSize (nestRange L i j) =
      2 + (fragSize (take (i - 1) ?cs) + (2 + (fragSize (content ?prev) + (2 + fragSize ?sel))) +
           fragSize (drop j ?cs))"
    using ntL ntp by (simp add: nestRange_def nodeSize_copy)
  then show ?thesis
    using a nodeSize_Node_ge2 [OF ntL] nodeSize_Node_ge2 [OF ntp] by simp
qed

text \<open>
  With a sibling item before the range the command always succeeds, through Case A.
\<close>

lemma indent_same_list_succeeds:
  assumes sd: "selectionInDoc tr" and root: "\<not> isListNode (doc tr)" and ck: "check (doc tr)"
    and cr: "calculateItemRange tr = Some r" and si: "1 \<le> startIndex r"
  shows "\<exists>res tr'.
           findPreviousItem (selList tr r) (selFrom tr) r = Inr (Some res) \<and>
           indentList tr = Returned True tr'"
proof -
  note se = selectedList_eq [OF sd root ck cr]
  note g = itemRange_geometry [OF sd root ck cr]
  let ?L = "selList tr r"
  have il: "startIndex r - 1 < length (content ?L)" using g(5,6) by simp
  have ch: "child ?L (int (startIndex r) - 1) = Inr (content ?L ! (startIndex r - 1))"
    using il si by (simp add: child_def childCount_def nat_diff_distrib')
  obtain res where fp: "findPreviousItem ?L (selFrom tr) r = Inr (Some res)"
    and pl: "previousList res = ?L"
    using si ch by (simp add: findPreviousItem_def Let_def)
  note sl = findPreviousItem_same_list(3) [OF sd root ck cr si fp]
  let ?D' = "rebuild (listPre tr r) (nestRange ?L (startIndex r) (endIndex r))"
  let ?tr1 = "tr\<lparr>doc := ?D', steps := steps tr @ [caseAStep ?L r],
                  mapping := mapping tr @ [getMap (caseAStep ?L r)]\<rparr>"
  have st: "trStep tr (caseAStep ?L r) = Inr ?tr1"
    using caseA_stepApply [OF sd root ck cr si] by (simp add: trStep_def)
  have ntL: "\<not> isText ?L" using g(3) by (rule isListNode_not_text)
  have ntN: "\<not> isText (nestRange ?L (startIndex r) (endIndex r))"
    using ntL by (simp add: nestRange_def)
  have ntD: "\<not> isText (doc tr)" by (rule chain_root_nontext [OF g(1) ntL])
  have ntD': "\<not> isText ?D'" by (rule isText_rebuild [OF g(1) ntN ntD])
  have "nodeSize ?D' + nodeSize ?L = nodeSize (doc tr) + (nodeSize ?L + 2)"
    using nodeSize_rebuild [OF g(1) ntN ntL] nodeSize_nestRange [OF g(3,4) si g(5,6)] by simp
  then have sz: "fragSize (content ?D') = fragSize (content (doc tr)) + 2"
    using nodeSize_Node_ge2 [OF ntD] nodeSize_Node_ge2 [OF ntD'] by simp
  have bd: "pos (selFrom tr) \<le> fragSize (content (doc tr))"
    "pos (selTo tr) \<le> fragSize (content (doc tr))"
    using sd by (auto simp: selectionInDoc_def min_def max_def)
  have "\<exists>tr'. setSelection ?tr1 (int (pos (selFrom tr))) (int (pos (selTo tr))) = Inr tr'"
    using bd sz by (simp add: setSelection_def resolve_def del: selFrom_simps)
  then obtain tr' where "finishSelection tr ?tr1 r res = Returned True tr'"
    using sl by (auto simp: finishSelection_def Let_def simp del: selFrom_simps)
  then have "indentList tr = Returned True tr'"
    using cr se(1) g(3) fp pl st
    by (simp add: indentList_def Let_def caseAStep_def del: selFrom_simps)
  with fp show ?thesis by blast
qed


section \<open>Failure of the validity check\<close>

text \<open>
  \<^verbatim>\<open>indentList\<close> has three exits that return \<^verbatim>\<open>false\<close>, all of them before the first
  mutation of the transaction. The validity check of the rebuilt item,
  \<^verbatim>\<open>newPreviousItem.check()\<close>, is not one of them: it raises.
\<close>

lemma finishSelection_not_False: "finishSelection tr0 tr1 rng r \<noteq> Returned False tr'"
  by (simp add: finishSelection_def Let_def split: sum.splits)

lemma indentList_False_unchanged:
  assumes "indentList tr0 = Returned False tr0'"
  shows "tr0' = tr0"
proof (cases "calculateItemRange tr0")
  case None
  with assms show ?thesis by (simp add: indentList_def)
next
  case (Some rng)
  let ?L = "parent (resolvePos (doc tr0) (rangeStart rng))"
  show ?thesis
  proof (cases "isListNode ?L")
    case False
    with assms Some show ?thesis by (simp add: indentList_def)
  next
    case True
    show ?thesis
    proof (cases "findPreviousItem ?L (selFrom tr0) rng")
      case (Inl er)
      with assms Some True show ?thesis by (simp add: indentList_def)
    next
      case (Inr o1)
      show ?thesis
      proof (cases o1)
        case None
        with assms Some True Inr show ?thesis by (simp add: indentList_def)
      next
        case (Some res)
        show ?thesis
        proof (cases "typeOf (previousList res) = typeOf ?L")
          case True
          with assms \<open>calculateItemRange tr0 = Some rng\<close> \<open>isListNode ?L\<close> Inr Some
          show ?thesis
            by (simp add: indentList_def finishSelection_not_False split: sum.splits)
        next
          case False
          with assms \<open>calculateItemRange tr0 = Some rng\<close> \<open>isListNode ?L\<close> Inr Some
          show ?thesis
            by (simp add: indentList_def Let_def finishSelection_not_False
                  split: sum.splits prod.splits if_splits)
        qed
      qed
    qed
  qed
qed

text \<open>
  C8 (amended). When the item rebuilt from the previous item, the selected items and
  the unselected rest violates the content model, \<^verbatim>\<open>indentList\<close> does not return
  \<^verbatim>\<open>false\<close>: it aborts by raising an error. Whenever it does return \<^verbatim>\<open>false\<close>, the
  transaction is the one it was given, with no step applied.
\<close>

theorem indent_invalid_item_raises:
  assumes "calculateItemRange tr = Some rng"
    and "isListNode (parent (resolvePos (doc tr) (rangeStart rng)))"
    and "findPreviousItem (parent (resolvePos (doc tr) (rangeStart rng))) (selFrom tr) rng
           = Inr (Some res)"
    and "typeOf (previousList res) \<noteq> typeOf (parent (resolvePos (doc tr) (rangeStart rng)))"
    and "sliceSelectedItems (doc tr) (selTo tr) rng = Inr (sel, unsel)"
    and "\<not> check (rebuiltItem res (parent (resolvePos (doc tr) (rangeStart rng))) sel unsel)"
  shows "(\<exists>er tr2. indentList tr = Thrown er tr2) \<and>
         (indentList tr0 = Returned False tr0' \<longrightarrow> tr0' = tr0)"
proof
  show "\<exists>er tr2. indentList tr = Thrown er tr2"
    using assms
    by (simp add: indentList_def rebuiltItem_def Let_def split: sum.splits)
  show "indentList tr0 = Returned False tr0' \<longrightarrow> tr0' = tr0"
    by (simp add: indentList_False_unchanged)
qed



section \<open>Lists stay non-empty\<close>

lemma check_everyListHasItem: "check n \<Longrightarrow> everyListHasItem n"
proof (induction n)
  case (Text s)
  show ?case by simp
next
  case (Node t a cs)
  from Node.prems have v: "validContent t cs" and ca: "list_all check cs" by simp_all
  have "list_all everyListHasItem cs"
    using ca Node.IH by (auto simp: list_all_iff)
  moreover have "isListType t \<longrightarrow> list_ex isListItemNode cs"
  proof
    assume l: "isListType t"
    with v have ne: "cs \<noteq> []" and ty: "\<forall>c \<in> set cs. typeOf c = Some (listItemTypeFor t)"
      by (simp_all add: validContent_list)
    from ne obtain c where c: "c \<in> set cs" by (cases cs) auto
    with ty have "typeOf c = Some (listItemTypeFor t)" by simp
    with l have "isListItemNode c" by (cases c; cases t) auto
    with c show "list_ex isListItemNode cs" by (auto simp: list_ex_iff)
  qed
  ultimately show ?case by simp
qed

text \<open>
  C4. On a schema-valid document, after a successful indent every list node of the
  resulting document has at least one list-item child, and the resulting document is
  schema-valid again. In Case B a selected list whose items have all been moved is
  deleted as a whole node by the first step, so no empty list is left behind.
\<close>

theorem indent_keeps_lists_nonempty:
  assumes "selectionInDoc tr" and "\<not> isListNode (doc tr)" and "check (doc tr)"
    and "indentList tr = Returned True tr'"
  shows "everyListHasItem (doc tr') \<and> check (doc tr')"
proof -
  note sd = assms(1) and root = assms(2) and ck = assms(3) and run = assms(4)
  from indent_success_range [OF sd root ck run] obtain r res where
    cr: "calculateItemRange tr = Some r"
    and fp: "findPreviousItem (selList tr r) (selFrom tr) r = Inr (Some res)"
    by blast
  note g = itemRange_geometry [OF sd root ck cr]
  have "check (doc tr')"
  proof (cases "typeOf (previousList res) = typeOf (selList tr r)")
    case True
    note a = indent_caseA_result [OF sd root ck run cr fp True]
    note n = check_nestRange [OF g(4,3) a(1) g(5,6)]
    show ?thesis unfolding a(2) by (rule check_rebuild [OF g(1) ck n])
  next
    case False
    from indent_caseB_result [OF sd root ck run cr fp False] obtain preM M sM k N where
      b: "chain (doc tr) 0 preM M sM" "check M" "1 \<le> k" "k < length (content M)"
        "content M ! k = selList tr r" "content M ! (k - 1) = previousList res"
        "isListNode (previousList res)"
        "previousItem res = last (content (previousList res))"
        "startIndex r = 0" "check N" "typeOf N = typeOf (previousItem res)"
        "doc tr' = rebuild preM (moveUnder M k (endIndex r) N)"
      by blast
    have e: "0 < endIndex r" "endIndex r \<le> length (content (content M ! k))"
      using g(5,6) b(5,9) by simp_all
    note m = check_moveUnder [OF b(2) b(3,4) g(3) [folded b(5)] b(7) [folded b(6)] e b(10)
        b(11) [unfolded b(8), folded b(6)]]
    show ?thesis unfolding b(12) by (rule check_rebuild [OF b(1) ck m])
  qed
  then show ?thesis by (simp add: check_everyListHasItem)
qed


section \<open>The nested list and the selection\<close>

text \<open>
  C7 (amended). On a schema-valid document, whenever the previous item is the sibling
  just before the selected range in the selected list itself (the previous item's list
  and the selected list are then the same list, of one type), the indent succeeds and
  wraps the selected items in a new list node, a copy of the selected list, which is
  appended as the last child of the previous item: a nested list the previous item
  already has is left as it is and gets no item. The resulting document conforms to the
  schema.
\<close>

theorem indent_same_list_wraps_in_new_list:
  assumes "selectionInDoc tr" and "\<not> isListNode (doc tr)" and "check (doc tr)"
    and "calculateItemRange tr = Some r" and "1 \<le> startIndex r"
  shows "\<exists>res tr'.
           findPreviousItem (selList tr r) (selFrom tr) r = Inr (Some res) \<and>
           previousList res = selList tr r \<and>
           previousItem res = content (selList tr r) ! (startIndex r - 1) \<and>
           indentList tr = Returned True tr' \<and>
           doc tr' = rebuild (listPre tr r)
                       (nestRange (selList tr r) (startIndex r) (endIndex r)) \<and>
           check (doc tr')"
proof -
  note g = itemRange_geometry [OF assms(1,2,3,4)]
  from indent_same_list_succeeds [OF assms] obtain res tr' where
    fp: "findPreviousItem (selList tr r) (selFrom tr) r = Inr (Some res)"
    and run: "indentList tr = Returned True tr'" by blast
  note p = findPreviousItem_same_list [OF assms fp]
  have ty: "typeOf (previousList res) = typeOf (selList tr r)" using p(2) by simp
  note a = indent_caseA_result [OF assms(1,2,3) run assms(4) fp ty]
  note n = check_nestRange [OF g(4,3) assms(5) g(5,6)]
  have "check (doc tr')"
    unfolding a(2) by (rule check_rebuild [OF g(1) assms(3) n])
  with fp run p(1,2) a(2) show ?thesis by blast
qed

text \<open>
  C9 (amended). After a successful run on a schema-valid document the selection is set
  from the two ends of the old selection, the anchor from the lower end \<^verbatim>\<open>$from\<close> and
  the head from the upper end \<^verbatim>\<open>$to\<close>. Where the previous item's list is the selected
  list itself (Case A) both ends keep their positions, and these are the mapped
  positions of every end that lies before the end of the range: the map of the step
  leaves every such position in place. Where the tree was reconstructed (Case B, the
  two lists differ in type) both ends are shifted down by two, and the upper end lands
  inside the newly nested list at the equivalent offset: from the start of the previous
  item on, the new document holds the old content of the previous item, the opening of
  a list like the selected one, and then the content that lay between the start of the
  range and the upper end of the selection.
\<close>

theorem indent_selection:
  assumes "selectionInDoc tr" and "\<not> isListNode (doc tr)" and "check (doc tr)"
    and "indentList tr = Returned True tr'"
  shows "\<exists>r res. calculateItemRange tr = Some r \<and>
           findPreviousItem (selList tr r) (selFrom tr) r = Inr (Some res) \<and>
           (sameList tr r res \<longrightarrow>
              anchor tr' = pos (selFrom tr) \<and> head tr' = pos (selTo tr) \<and>
              mapping tr' = mapping tr @ [getMap (caseAStep (selList tr r) r)] \<and>
              (\<forall>q < int (rangeEnd r). mappingMap [getMap (caseAStep (selList tr r) r)] q = q)) \<and>
           (typeOf (previousList res) \<noteq> typeOf (selList tr r) \<longrightarrow>
              int (anchor tr') = int (pos (selFrom tr)) - 2 \<and>
              int (head tr') = int (pos (selTo tr)) - 2 \<and>
              previousItemStart res + int (fragSize (content (previousItem res))) + 3 =
                int (rangeStart r) \<and>
              landsNested (doc tr) (doc tr') res (selList tr r) (rangeStart r) (pos (selTo tr)))"
proof -
  from indent_success_range [OF assms] obtain r res where
    cr: "calculateItemRange tr = Some r"
    and fp: "findPreviousItem (selList tr r) (selFrom tr) r = Inr (Some res)"
    and se: "parent (resolvePos (doc tr) (rangeStart r)) = selList tr r" by blast
  note g = itemRange_geometry [OF assms(1,2,3) cr]
  have A: "sameList tr r res \<longrightarrow>
      anchor tr' = pos (selFrom tr) \<and> head tr' = pos (selTo tr) \<and>
      mapping tr' = mapping tr @ [getMap (caseAStep (selList tr r) r)] \<and>
      (\<forall>q < int (rangeEnd r). mappingMap [getMap (caseAStep (selList tr r) r)] q = q)"
  proof
    assume sl: "sameList tr r res"
    have si: "1 \<le> startIndex r"
    proof (rule ccontr)
      assume "\<not> 1 \<le> startIndex r"
      then have "startIndex r = 0" by simp
      from findPreviousItem_other_list [OF assms(1,2,3) cr this fp] sl show False by simp
    qed
    note p = findPreviousItem_same_list [OF assms(1,2,3) cr si fp]
    have ty: "typeOf (previousList res) = typeOf (selList tr r)" using p(2) by simp
    note a = indent_caseA_result [OF assms cr fp ty]
    have "\<forall>q < int (rangeEnd r). mappingMap [getMap (caseAStep (selList tr r) r)] q = q"
      by (auto simp: getMap_caseAStep [OF g(3)] stepMapMap_def Let_def)
    with a(4,5,6) show "anchor tr' = pos (selFrom tr) \<and> head tr' = pos (selTo tr) \<and>
      mapping tr' = mapping tr @ [getMap (caseAStep (selList tr r) r)] \<and>
      (\<forall>q < int (rangeEnd r). mappingMap [getMap (caseAStep (selList tr r) r)] q = q)"
      by (simp del: selFrom_simps)
  qed
  have B: "typeOf (previousList res) \<noteq> typeOf (selList tr r) \<longrightarrow>
      int (anchor tr') = int (pos (selFrom tr)) - 2 \<and>
      int (head tr') = int (pos (selTo tr)) - 2 \<and>
      previousItemStart res + int (fragSize (content (previousItem res))) + 3 =
        int (rangeStart r) \<and>
      landsNested (doc tr) (doc tr') res (selList tr r) (rangeStart r) (pos (selTo tr))"
  proof
    assume ty: "typeOf (previousList res) \<noteq> typeOf (selList tr r)"
    have si: "startIndex r = 0"
    proof (rule ccontr)
      assume "startIndex r \<noteq> 0"
      then have "1 \<le> startIndex r" by simp
      from findPreviousItem_same_list(2) [OF assms(1,2,3) cr this fp] ty show False by simp
    qed
    note ns = findPreviousItem_other_list [OF assms(1,2,3) cr si fp]
    from assms(4) cr se fp ty g(3) obtain trx where
      fs: "finishSelection tr trx r res = Returned True tr'"
      by (auto simp: indentList_def Let_def split: sum.splits if_splits prod.splits)
    note f = finishSelection_True(6) [OF fs ns]
    note l = caseB_landing [OF assms cr fp ty]
    from f l show "int (anchor tr') = int (pos (selFrom tr)) - 2 \<and>
      int (head tr') = int (pos (selTo tr)) - 2 \<and>
      previousItemStart res + int (fragSize (content (previousItem res))) + 3 =
        int (rangeStart r) \<and>
      landsNested (doc tr) (doc tr') res (selList tr r) (rangeStart r) (pos (selTo tr))"
      by (simp del: selFrom_simps)
  qed
  from cr fp A B show ?thesis by blast
qed



section \<open>What the indent leaves alone\<close>

lemma copy_rebuild:
  "chain n s pre L sL \<Longrightarrow> copy X [] = copy L [] \<Longrightarrow> copy (rebuild pre X) [] = copy n []"
  by (cases pre) auto

text \<open>
  C10. After a successful indent of a schema-valid document, the tokens of the document
  before the start position of the previous item and the tokens after the end of the
  selected range are those of the document before the indent; the two parts do not
  overlap in the new document, and the root keeps its type and attributes. Only the
  window from the previous item to the end of the range is edited: the siblings before
  and after it, and everything outside the enclosing list, are untouched.
\<close>

theorem indent_frame:
  assumes "selectionInDoc tr" and "\<not> isListNode (doc tr)" and "check (doc tr)"
    and "indentList tr = Returned True tr'"
  shows "\<exists>r res. calculateItemRange tr = Some r \<and>
           findPreviousItem (selList tr r) (selFrom tr) r = Inr (Some res) \<and>
           sameBefore (doc tr) (doc tr') (nat (previousItemStart res)) \<and>
           sameAfter (doc tr) (doc tr') (rangeEnd r) \<and>
           nat (previousItemStart res) + (length (docToks (doc tr)) - rangeEnd r)
             \<le> length (docToks (doc tr')) \<and>
           copy (doc tr') [] = copy (doc tr) []"
proof -
  note sd = assms(1) and root = assms(2) and ck = assms(3) and run = assms(4)
  from indent_success_range [OF sd root ck run] obtain r res where
    cr: "calculateItemRange tr = Some r"
    and fp: "findPreviousItem (selList tr r) (selFrom tr) r = Inr (Some res)"
    by blast
  note g = itemRange_geometry [OF sd root ck cr]
  let ?L = "selList tr r"
  have "sameBefore (doc tr) (doc tr') (nat (previousItemStart res)) \<and>
        sameAfter (doc tr) (doc tr') (rangeEnd r) \<and>
        nat (previousItemStart res) + (length (docToks (doc tr)) - rangeEnd r)
          \<le> length (docToks (doc tr')) \<and>
        copy (doc tr') [] = copy (doc tr) []"
  proof (cases "typeOf (previousList res) = typeOf ?L")
    case True
    note a = indent_caseA_result [OF sd root ck run cr fp True]
    note p = findPreviousItem_same_list [OF sd root ck cr a(1) fp]
    note f = caseA_frame [OF g(1) g(3,4) a(1) g(5,6)]
    have pis: "nat (previousItemStart res) =
        listStart tr r + offsetOf (content ?L) (startIndex r - 1) + 1"
      unfolding p(4) by simp
    have "copy (nestRange ?L (startIndex r) (endIndex r)) [] = copy ?L []"
      by (simp add: nestRange_def)
    from copy_rebuild [OF g(1) this] have c: "copy (doc tr') [] = copy (doc tr) []"
      unfolding a(2) .
    show ?thesis unfolding pis g(8) a(2) using f c [unfolded a(2)] by simp
  next
    case False
    from indent_caseB_result [OF sd root ck run cr fp False] obtain preM M sM k N where
      b: "chain (doc tr) 0 preM M sM" "check M" "1 \<le> k" "k < length (content M)"
        "content M ! k = selList tr r" "content M ! (k - 1) = previousList res"
        "isListNode (previousList res)"
        "previousItem res = last (content (previousList res))"
        "previousItemStart res =
           int (sM + offsetOf (content M) (k - 1) + 1 +
                offsetOf (content (previousList res)) (length (content (previousList res)) - 1) + 1)"
        "startIndex r = 0" "check N" "typeOf N = typeOf (previousItem res)"
        "copy N [] = copy (previousItem res) []"
        "listPre tr r = preM @ [(M, k, sM + offsetOf (content M) k)]"
        "doc tr' = rebuild preM (moveUnder M k (endIndex r) N)"
      by blast
    have e: "0 < endIndex r" "endIndex r \<le> length (content (content M ! k))"
      using g(5,6) b(5,10) by simp_all
    have k1: "k - 1 < length (content M)" using b(3,4) by simp
    have pin: "previousList res \<in> set (content M)" using nth_mem [OF k1] b(6) by simp
    have ckP: "check (previousList res)" using check_content [OF b(2) pin] .
    have neP: "content (previousList res) \<noteq> []" using list_nonempty [OF ckP b(7)] .
    have "\<not> isText (previousItem res)"
      using list_children(1) [OF ckP b(7)] neP b(8) by simp
    then have ntN: "\<not> isText N" using b(12) by (cases N; cases "previousItem res") auto
    note f = caseB_frame [OF b(1,2) b(3,4) g(3) [folded b(5)] b(7) [folded b(6)] e ntN
        b(13) [unfolded b(8), folded b(6)]]
    have ch2: "chain (doc tr) 0 (preM @ [(M, k, sM + offsetOf (content M) k)]) ?L (listStart tr r)"
      using g(1) b(14) by simp
    from chain_snoc [OF ch2] obtain M2 sM2 where
      "chain M2 sM2 [(M, k, sM + offsetOf (content M) k)] ?L (listStart tr r)" by blast
    then have ls: "listStart tr r = sM + offsetOf (content M) k + 1" by auto
    have re: "rangeEnd r = sM + offsetOf (content M) k + 1 +
        offsetOf (content (content M ! k)) (endIndex r)"
      using g(8) ls b(5) by simp
    have pis: "nat (previousItemStart res) =
        sM + offsetOf (content M) (k - 1) + 1 +
        offsetOf (content (content M ! (k - 1))) (length (content (content M ! (k - 1))) - 1) + 1"
      unfolding b(9) b(6) by simp
    have "copy (moveUnder M k (endIndex r) N) [] = copy M []" by (simp add: moveUnder_def)
    from copy_rebuild [OF b(1) this] have c: "copy (doc tr') [] = copy (doc tr) []"
      unfolding b(15) .
    show ?thesis unfolding pis re b(15) using f c [unfolded b(15)] by simp
  qed
  with cr fp show ?thesis by blast
qed


section \<open>The round trip with dedent\<close>

text \<open>
  Modelled from the spec: the dedent transform of \<^verbatim>\<open>list-command-dedent\<close> is tested
  and named by the spec but is not among the sources. Section 4.3 of the spec: the
  selected range's list must be nested inside a list item that belongs to another list;
  the parent item's content is split into the portion before the nested list, the
  nested list itself and the portion after; the selected item range is removed from the
  nested list, and a nested list that becomes empty is removed from the parent item;
  the selected items are inserted as siblings of the parent item, immediately after it,
  in the grandparent list; trailing content after the nested list stays with the parent
  item if some items stayed nested, and migrates into the first promoted item's trailing
  content otherwise. The transform fails without mutating when there is no range or the
  range is at the top level. Only the resulting document is modelled, \<open>None\<close> is the
  failure; the selection that the transform sets is left out.
\<close>

fun attachTrailing :: "node list \<Rightarrow> node list \<Rightarrow> node list" where
  "attachTrailing [] trailing = []"
| "attachTrailing (x # xs) trailing = copy x (content x @ trailing) # xs"

definition dedentList :: "transaction \<Rightarrow> node option" where
  "dedentList tr =
     (case calculateItemRange tr of
        None \<Rightarrow> None
      | Some rng \<Rightarrow>
        (let d = rangeDepth rng; f = selFrom tr
         in if d < 2 then None
            else
              (let nested = nodeAt f d; parentItem = nodeAt f (d - 1); grand = nodeAt f (d - 2);
                   n = index f (d - 1); i = index f (d - 2);
                   a = startIndex rng; b = endIndex rng
               in if \<not> (isListItemNode parentItem \<and> isListNode grand) then None
                  else
                    (let leading = take n (content parentItem);
                         trailing = drop (Suc n) (content parentItem);
                         remaining = take a (content nested) @ drop b (content nested);
                         selected = take (b - a) (drop a (content nested));
                         parentItem' =
                           (if remaining = [] then copy parentItem leading
                            else copy parentItem (leading @ [copy nested remaining] @ trailing));
                         promoted =
                           (if remaining = [] then attachTrailing selected trailing else selected)
                     in Some (rebuild (take (d - 2) (path f))
                                (copy grand (take i (content grand) @ [parentItem'] @ promoted @
                                             drop (Suc i) (content grand))))))))"

text \<open>The paths of the two ends of the selection below the selected list.\<close>

lemma itemRange_paths:
  assumes sd: "selectionInDoc tr" and root: "\<not> isListNode (doc tr)" and ck: "check (doc tr)"
    and cr: "calculateItemRange tr = Some r"
  shows "\<exists>ixf offF moreF ixt offT moreT.
           path (selFrom tr) = listPre tr r @ (selList tr r, ixf, offF) # moreF \<and>
           path (selTo tr) = listPre tr r @ (selList tr r, ixt, offT) # moreT \<and>
           pathFor (selList tr r) (listStart tr r) (pos (selFrom tr))
             ((selList tr r, ixf, offF) # moreF) \<and>
           pathFor (selList tr r) (listStart tr r) (pos (selTo tr))
             ((selList tr r, ixt, offT) # moreT) \<and>
           startIndex r = ixf \<and> endIndex r = (if moreT = [] then ixt else ixt + 1) \<and>
           (moreT = [] \<longrightarrow> pos (selTo tr) = offT)"
proof -
  note selFrom_simps [simp del]
  let ?D = "doc tr"
  let ?f = "selFrom tr"
  let ?t = "selTo tr"
  let ?d = "rangeDepth r"
  let ?L = "selList tr r"
  let ?sL = "listStart tr r"
  let ?pre = "listPre tr r"
  let ?cs = "content ?L"
  note fa = itemRange_facts [OF sd root cr]
  note g = itemRange_geometry [OF sd root ck cr]
  note br = blockRange_Some [OF cr [unfolded calculateItemRange_def]]
  note pf = selFrom_pathFor [OF sd]
  have tok: "textOk ?D" using ck by (rule check_textOk)
  from pathFor_chain [OF pf fa(4)]
  have pfL: "pathFor ?L ?sL (pos ?f) (drop ?d (path ?f))"
    by (simp add: selList_def listStart_def nodeAt_def start_startP)
  note lc = list_children [OF g(4,3)]
  have bf: "?sL \<le> pos ?f" using pathFor_bounds [OF pfL] by simp
  have bt: "pos ?t \<le> ?sL + fragSize ?cs"
    using fa(6) by (simp add: endOf_def selList_def listStart_def)
  define restT where "restT = resolvePath ?L (pos ?t - ?sL) ?sL"
  have pfT: "pathFor ?L ?sL (pos ?t) restT"
    using pathFor_resolvePath [of "pos ?t - ?sL" ?L ?sL] bf bt g(11) unfolding restT_def
    by simp
  have pt: "path ?t = ?pre @ restT"
    using resolve_in_chain [OF tok g(1) pfT] by (simp add: selFrom_simps)
  define restF where "restF = drop ?d (path ?f)"
  have pfF: "pathFor ?L ?sL (pos ?f) restF" using pfL by (simp add: restF_def)
  have pff: "path ?f = ?pre @ restF" by (simp add: listPre_def restF_def)
  have neF: "restF \<noteq> []" and neT: "restT \<noteq> []"
    using pathFor_nonempty [OF pfF] pathFor_nonempty [OF pfT] by auto
  note accF = split_path_accessors [OF pff neF, unfolded g(2)]
  note accT = split_path_accessors [OF pt neT, unfolded g(2)]
  obtain i offF moreF where rF: "restF = (?L, i, offF) # moreF"
    using pfF neF by (cases restF; cases "hd restF") (auto dest: pathFor_hd)
  obtain j' offT moreT where rT: "restT = (?L, j', offT) # moreT"
    using pfT neT by (cases restT; cases "hd restT") (auto dest: pathFor_hd)
  have si: "startIndex r = i" using accF(2) rF by (simp add: startIndex_def br(1))
  have tcase: "moreT = [] \<Longrightarrow> pos ?t = offT"
  proof -
    assume "moreT = []"
    with pfT rT have "pos ?t = offT \<or> (j' < length ?cs \<and> isText (?cs ! j'))" by auto
    then show ?thesis using lc(1) by auto
  qed
  have dT: "depth ?t = ?d + length moreT" using accT(3) rT by simp
  have ei: "endIndex r = (if moreT = [] then j' else j' + 1)"
  proof (cases "moreT = []")
    case True
    then have "textOffset ?t = 0" using tcase accT(9) rT by (simp add: textOffset_def)
    then show ?thesis using True dT accT(2) rT by (simp add: endIndex_def br(2) indexAfter_def)
  next
    case False
    then show ?thesis using dT accT(2) rT by (simp add: endIndex_def br(2) indexAfter_def)
  qed
  show ?thesis
    using pff pt pfF pfT si ei tcase unfolding rF rT by blast
qed

lemma offsetOf_sublist:
  assumes "i \<le> ix" "ix \<le> j"
  shows "offsetOf cs i + offsetOf (take (j - i) (drop i cs)) (ix - i) = offsetOf cs ix"
proof -
  have "take (ix - i) (take (j - i) (drop i cs)) = take (ix - i) (drop i cs)"
    using assms by (simp add: min_def)
  then have "offsetOf (take (j - i) (drop i cs)) (ix - i) = fragSize (take (ix - i) (drop i cs))"
    by (simp add: offsetOf_def)
  with fragSize_take_drop [OF assms(1), of cs] show ?thesis by simp
qed

text \<open>A path below a list is a path below the list made of a run of its items.\<close>

lemma pathFor_sublist:
  assumes pf: "pathFor L sL q ((L, ix, off) # mr)"
    and ntL: "\<not> isText L" and ntc: "\<forall>c \<in> set (content L). \<not> isText c"
    and i: "i \<le> ix" and j: "j \<le> length (content L)"
    and b: "if mr = [] then ix \<le> j else ix < j"
  shows "pathFor (copy L (take (j - i) (drop i (content L)))) (sL + offsetOf (content L) i) q
           ((copy L (take (j - i) (drop i (content L))), ix - i, off) # mr)"
proof -
  let ?cs = "content L"
  let ?sel = "take (j - i) (drop i ?cs)"
  have c: "content (copy L ?sel) = ?sel" using ntL by simp
  show ?thesis
  proof (cases mr)
    case Nil
    with b have ixj: "ix \<le> j" by simp
    from pf Nil have o: "off = sL + offsetOf ?cs ix"
      and q: "q = off \<or> (ix < length ?cs \<and> isText (?cs ! ix))" by auto
    from q ntc have q': "q = off" by auto
    have "off = sL + offsetOf ?cs i + offsetOf ?sel (ix - i)"
      using offsetOf_sublist [OF i ixj, of ?cs] o by simp
    moreover have "ix - i \<le> length ?sel" using ixj j by simp
    ultimately show ?thesis using Nil q' by (simp add: c)
  next
    case (Cons e rest)
    with b have ixj: "ix < j" by simp
    from pf Cons have o: "off = sL + offsetOf ?cs ix" and il: "ix < length ?cs"
      and nt: "\<not> isText (?cs ! ix)" and bd: "off < q" "q < off + nodeSize (?cs ! ix)"
      and rec: "pathFor (?cs ! ix) (off + 1) q (e # rest)" by auto
    have "off = sL + offsetOf ?cs i + offsetOf ?sel (ix - i)"
      using offsetOf_sublist [OF i, of j ?cs] ixj o by simp
    moreover have "ix - i < length ?sel" using ixj j i by simp
    moreover have "?sel ! (ix - i) = ?cs ! ix" using ixj j i by simp
    ultimately show ?thesis using Cons nt bd rec by (simp add: c)
  qed
qed


lemma blockRangeLoop_transfer:
  assumes "blockRangeLoop f t P k = Some r"
    and "\<forall>d'. rangeDepth r < d' \<and> d' < k \<longrightarrow>
           endOf f' (d' + 2) = endOf f d' \<and> nodeAt f' (d' + 2) = nodeAt f d'"
    and "pos t' = pos t"
    and "pos t' \<le> endOf f' (rangeDepth r + 2)" and "P (nodeAt f' (rangeDepth r + 2))"
  shows "blockRangeLoop f' t' P (k + 2) =
           Some \<lparr>rangeFrom = f', rangeTo = t', rangeDepth = rangeDepth r + 2\<rparr>"
  using assms
proof (induction k)
  case 0
  then show ?case by simp
next
  case (Suc k)
  show ?case
  proof (cases "pos t \<le> endOf f k \<and> P (nodeAt f k)")
    case True
    with Suc.prems(1) have "rangeDepth r = k" by auto
    then show ?thesis using Suc.prems(4,5) by simp
  next
    case False
    with Suc.prems(1) have l: "blockRangeLoop f t P k = Some r" by simp
    then have lt: "rangeDepth r < k" using blockRangeLoop_Some by blast
    with Suc.prems(2) have e: "endOf f' (k + 2) = endOf f k" "nodeAt f' (k + 2) = nodeAt f k"
      by auto
    have ih: "blockRangeLoop f' t' P (k + 2) =
            Some \<lparr>rangeFrom = f', rangeTo = t', rangeDepth = rangeDepth r + 2\<rparr>"
      using Suc.IH [OF l _ Suc.prems(3,4,5)] Suc.prems(2) by simp
    have "blockRangeLoop f' t' P (Suc (k + 2)) = blockRangeLoop f' t' P (k + 2)"
      using False e Suc.prems(3) by (simp only: blockRangeLoop.simps) simp
    then show ?thesis using ih by simp
  qed
qed

lemma copy_content: "\<not> isText n \<Longrightarrow> copy n (content n) = n"
  by (cases n) simp_all

lemma attachTrailing_Nil: "\<forall>c \<in> set xs. \<not> isText c \<Longrightarrow> attachTrailing xs [] = xs"
  by (cases xs) (simp_all add: copy_content)

text \<open>The chain from the root of the indented document to the new nested list.\<close>

lemma nested_chain:
  assumes ch: "chain D 0 pre L sL" and ckL: "check L" and lL: "isListNode L"
    and i: "1 \<le> i" "i < j" "j \<le> length (content L)"
  shows "chain (rebuild pre (nestRange L i j)) 0
           (repath pre (nestRange L i j) @
            [(nestRange L i j, i - 1, sL + offsetOf (content L) (i - 1)),
             (copy (content L ! (i - 1))
                (content (content L ! (i - 1)) @ [copy L (take (j - i) (drop i (content L)))]),
              length (content (content L ! (i - 1))),
              sL + offsetOf (content L) i - 1)])
           (copy L (take (j - i) (drop i (content L)))) (sL + offsetOf (content L) i)"
proof -
  let ?cs = "content L"
  let ?P = "?cs ! (i - 1)"
  let ?sel = "take (j - i) (drop i ?cs)"
  let ?NL = "copy L ?sel"
  let ?P' = "copy ?P (content ?P @ [?NL])"
  let ?L' = "nestRange L i j"
  have ntL: "\<not> isText L" using lL by (rule isListNode_not_text)
  have il: "i - 1 < length ?cs" using i by simp
  then have Pin: "?P \<in> set ?cs" by simp
  note pc = list_children [OF ckL lL Pin]
  have cL': "content ?L' = take (i - 1) ?cs @ [?P'] @ drop j ?cs"
    using ntL by (simp add: nestRange_def)
  have ntL': "\<not> isText ?L'" using ntL by (simp add: nestRange_def)
  have c1: "chain (rebuild pre ?L') 0 (repath pre ?L') ?L' sL"
    by (rule chain_repath [OF ch ntL'])
  have len: "length (take (i - 1) ?cs) = i - 1" using il by simp
  have o1: "offsetOf (content ?L') (i - 1) = offsetOf ?cs (i - 1)"
    unfolding cL' offsetOf_def using len by simp
  have n1: "content ?L' ! (i - 1) = ?P'" unfolding cL' using len by (simp add: nth_append)
  have l1: "i - 1 < length (content ?L')" unfolding cL' using len by simp
  have cP': "content ?P' = content ?P @ [?NL]" using pc(1) by simp
  have sz: "nodeSize ?P = 2 + fragSize (content ?P)" using pc(1) by (rule nodeSize_Node_ge2)
  have os: "offsetOf ?cs i = offsetOf ?cs (i - 1) + nodeSize ?P"
    using offsetOf_Suc [OF il] i by simp
  have "offsetOf (content ?P') (length (content ?P)) = fragSize (content ?P)"
    unfolding cP' offsetOf_def by simp
  then have o2: "sL + offsetOf ?cs (i - 1) + 1 + offsetOf (content ?P') (length (content ?P)) =
            sL + offsetOf ?cs i - 1"
    using os sz by simp
  have o3: "sL + offsetOf ?cs i - 1 + 1 = sL + offsetOf ?cs i" using os sz by simp
  have c2: "chain ?L' sL
              [(?L', i - 1, sL + offsetOf ?cs (i - 1)),
               (?P', length (content ?P), sL + offsetOf ?cs i - 1)]
              ?NL (sL + offsetOf ?cs i)"
    using l1 o1 n1 pc(1) ntL o2 o3 by (simp add: cP')
  from chain_append [OF c1 c2] show ?thesis .
qed


lemma shifted_path_accessors:
  assumes "path rp = pre @ (n, ix, off) # mr" "path rp' = pre' @ (n', ix', off) # mr"
    "length pre' = length pre + 2" "1 \<le> kk" "kk \<le> length mr"
  shows "nodeAt rp' (length pre + kk + 2) = nodeAt rp (length pre + kk)"
    and "endOf rp' (length pre + kk + 2) = endOf rp (length pre + kk)"
  using assms
  by (auto simp: nodeAt_def endOf_def start_def nth_append nth_Cons split: nat.splits)


text \<open>Dedenting the nested range made by Case A gives the document back.\<close>

lemma dedent_after_nest:
  assumes sd: "selectionInDoc tr" and root: "\<not> isListNode (doc tr)" and ck: "check (doc tr)"
    and cr: "calculateItemRange tr = Some r" and si: "1 \<le> startIndex r"
    and dc: "doc tr' = rebuild (listPre tr r)
                         (nestRange (selList tr r) (startIndex r) (endIndex r))"
    and an: "anchor tr' = pos (selFrom tr)" and he: "head tr' = pos (selTo tr)"
  shows "calculateItemRange tr' =
           Some \<lparr>rangeFrom = selFrom tr', rangeTo = selTo tr', rangeDepth = rangeDepth r + 2\<rparr>"
    and "dedentList tr' = Some (doc tr)"
proof -
  note selFrom_simps [simp del]
  let ?f = "selFrom tr"
  let ?t = "selTo tr"
  let ?f' = "selFrom tr'"
  let ?t' = "selTo tr'"
  let ?d = "rangeDepth r"
  let ?L = "selList tr r"
  let ?sL = "listStart tr r"
  let ?pre = "listPre tr r"
  let ?cs = "content ?L"
  let ?i = "startIndex r"
  let ?j = "endIndex r"
  let ?P = "?cs ! (?i - 1)"
  let ?sel = "take (?j - ?i) (drop ?i ?cs)"
  let ?NL = "copy ?L ?sel"
  let ?P' = "copy ?P (content ?P @ [?NL])"
  let ?L' = "nestRange ?L ?i ?j"
  let ?sN = "?sL + offsetOf ?cs ?i"
  let ?preN = "repath ?pre ?L' @
                 [(?L', ?i - 1, ?sL + offsetOf ?cs (?i - 1)),
                  (?P', length (content ?P), ?sN - 1)]"
  note g = itemRange_geometry [OF sd root ck cr]
  from itemRange_paths [OF sd root ck cr] obtain ixf offF moreF ixt offT moreT where
    pf: "path ?f = ?pre @ (?L, ixf, offF) # moreF"
    and pt: "path ?t = ?pre @ (?L, ixt, offT) # moreT"
    and pfF: "pathFor ?L ?sL (pos ?f) ((?L, ixf, offF) # moreF)"
    and pfT: "pathFor ?L ?sL (pos ?t) ((?L, ixt, offT) # moreT)"
    and ixf: "?i = ixf" and ei: "?j = (if moreT = [] then ixt else ixt + 1)"
    and tc: "moreT = [] \<longrightarrow> pos ?t = offT"
    by blast
  have ntL: "\<not> isText ?L" using g(3) by (rule isListNode_not_text)
  have ntc: "\<forall>c \<in> set ?cs. \<not> isText c" using list_children(1) [OF g(4,3)] by blast
  have il: "?i - 1 < length ?cs" using g(5,6) by simp
  then have Pin: "?P \<in> set ?cs" by simp
  note pc = list_children [OF g(4,3) Pin]
  have bF: "if moreF = [] then ixf \<le> ?j else ixf < ?j" using g(5) ixf by simp
  have bT: "if moreT = [] then ixt \<le> ?j else ixt < ?j" using ei by simp
  have iT: "?i \<le> ixt" using g(5) ei by (simp split: if_splits)
  have pfF': "pathFor ?NL ?sN (pos ?f) ((?NL, ixf - ?i, offF) # moreF)"
    using pathFor_sublist [OF pfF ntL ntc _ g(6) bF, of ?i] ixf by simp
  have pfT': "pathFor ?NL ?sN (pos ?t) ((?NL, ixt - ?i, offT) # moreT)"
    by (rule pathFor_sublist [OF pfT ntL ntc iT g(6) bT])
  have chN: "chain (doc tr') 0 ?preN ?NL ?sN"
    unfolding dc by (rule nested_chain [OF g(1) g(4) g(3) si g(5) g(6)])
  have ckD': "check (doc tr')"
    unfolding dc
    by (rule check_rebuild [OF g(1) ck check_nestRange(1) [OF g(4) g(3) si g(5) g(6)]
          check_nestRange(2) [OF g(4) g(3) si g(5) g(6)]])
  have tok': "textOk (doc tr')" using ckD' by (rule check_textOk)
  have sf: "?f' = resolvePos (doc tr') (pos ?f)" and st: "?t' = resolvePos (doc tr') (pos ?t)"
    using g(11) by (simp_all add: selFrom_def selTo_def an he min_def max_def)
  have pF: "path ?f' = ?preN @ (?NL, 0, offF) # moreF"
    using resolve_in_chain [OF tok' chN pfF'] ixf by (simp add: sf resolvePos_def)
  have pT: "path ?t' = ?preN @ (?NL, ixt - ?i, offT) # moreT"
    using resolve_in_chain [OF tok' chN pfT'] by (simp add: st resolvePos_def)
  have posf: "pos ?f' = pos ?f" and post: "pos ?t' = pos ?t"
    by (simp_all add: sf st resolvePos_def)
  have lp: "length ?pre = ?d" by (rule g(2))
  have lpN: "length ?preN = ?d + 2" using lp by simp
  note accF' = split_path_accessors [OF pF, unfolded lpN]
  note accT' = split_path_accessors [OF pT, unfolded lpN]
  have nD: "nodeAt ?f' ?d = ?L'" "index ?f' ?d = ?i - 1"
    and nD1: "nodeAt ?f' (?d + 1) = ?P'" "index ?f' (?d + 1) = length (content ?P)"
    using accF'(7) [of ?d] accF'(8) [of ?d] accF'(7) [of "?d + 1"] accF'(8) [of "?d + 1"] lp
    by (simp_all add: nth_append)
  have nD2: "nodeAt ?f' (?d + 2) = ?NL" "index ?f' (?d + 2) = 0"
    using accF'(1,2) by simp_all
  have dF': "depth ?f' = ?d + 2 + length moreF" using accF'(3) by simp
  have dF: "depth ?f = ?d + length moreF"
    using split_path_accessors(3) [OF pf] lp by simp
  have dT': "depth ?t' = ?d + 2 + length moreT" using accT'(3) by simp
  have tk: "take ?d (path ?f') = repath ?pre ?L'" using pF lp by simp
  \<comment> \<open>the range of the nested list\<close>
  have par: "inlineContent (parent ?f') = inlineContent (parent ?f)"
  proof (cases "moreF = []")
    case True
    then have "parent ?f' = ?NL" "parent ?f = ?L"
      using pF pf lp by (simp_all add: parent_def nodeAt_def depth_def nth_append)
    then show ?thesis by (simp add: inlineContent_def)
  next
    case False
    then have "1 \<le> length moreF" by (cases moreF) simp_all
    from shifted_path_accessors(1) [OF pf pF _ this le_refl] lp
    show ?thesis by (simp add: parent_def dF dF' add.commute add.left_commute)
  qed
  let ?k = "depth ?f + 1 - (if inlineContent (parent ?f) \<or> pos ?f = pos ?t then 1 else 0)"
  from cr have bl: "blockRangeLoop ?f ?t isListNode ?k = Some r"
    by (simp add: calculateItemRange_def blockRange_def)
  have kk: "depth ?f' + 1 - (if inlineContent (parent ?f') \<or> pos ?f' = pos ?t' then 1 else 0) =
            ?k + 2"
    using par posf post dF dF' by simp
  have tr: "\<forall>d'. ?d < d' \<and> d' < ?k \<longrightarrow>
              endOf ?f' (d' + 2) = endOf ?f d' \<and> nodeAt ?f' (d' + 2) = nodeAt ?f d'"
  proof (intro allI impI)
    fix d' assume a: "?d < d' \<and> d' < ?k"
    define m where "m = d' - ?d"
    have m: "1 \<le> m" "m \<le> length moreF" "d' = length ?pre + m"
      using a dF lp by (auto simp: m_def split: if_splits)
    have lN: "length ?preN = length ?pre + 2" by simp
    from shifted_path_accessors [OF pf pF lN m(1,2)]
    show "endOf ?f' (d' + 2) = endOf ?f d' \<and> nodeAt ?f' (d' + 2) = nodeAt ?f d'"
      unfolding m(3) by simp
  qed
  have stN: "start ?f' (?d + 2) = ?sN"
  proof -
    have "path ?f' ! (?d + 1) = (?P', length (content ?P), ?sN - 1)"
      using pF lp by (simp add: nth_append)
    moreover have "1 \<le> ?sN" using chain_end_start [OF chN] by (simp add: startP_def)
    ultimately show ?thesis by (simp add: start_def)
  qed
  have fs: "offsetOf ?cs ?i + fragSize ?sel = offsetOf ?cs ?j"
    using fragSize_take_drop [of ?i ?j ?cs] g(5) by simp
  have eN: "endOf ?f' (?d + 2) = rangeEnd r"
    unfolding endOf_def nD2(1) stN g(8) using fs ntL by simp
  have c1: "pos ?t' \<le> endOf ?f' (?d + 2)" using eN g(10) post by simp
  have c2: "isListNode (nodeAt ?f' (?d + 2))"
    unfolding nD2(1) using g(3) ntL by (cases ?L) simp_all
  show crN: "calculateItemRange tr' =
           Some \<lparr>rangeFrom = ?f', rangeTo = ?t', rangeDepth = ?d + 2\<rparr>"
    unfolding calculateItemRange_def blockRange_def kk
    by (rule blockRangeLoop_transfer [OF bl tr post c1 c2])
  \<comment> \<open>the dedent\<close>
  let ?r' = "\<lparr>rangeFrom = ?f', rangeTo = ?t', rangeDepth = ?d + 2\<rparr>"
  have a: "startIndex ?r' = 0" using nD2(2) by (simp add: startIndex_def)
  have b: "endIndex ?r' = ?j - ?i"
  proof (cases "moreT = []")
    case True
    then have "textOffset ?t' = 0" using tc pT post by (simp add: textOffset_def)
    then show ?thesis using True dT' accT'(2) ei by (simp add: endIndex_def indexAfter_def)
  next
    case False
    then show ?thesis using dT' accT'(2) ei iT by (simp add: endIndex_def indexAfter_def)
  qed
  have lsel: "length ?sel = ?j - ?i" using g(5,6) by simp
  have selne: "?sel \<noteq> []" using lsel g(5) by auto
  have cL': "content ?L' = take (?i - 1) ?cs @ [?P'] @ drop ?j ?cs"
    using ntL by (simp add: nestRange_def)
  have len: "length (take (?i - 1) ?cs) = ?i - 1" using il by simp
  have tkL: "take (?i - 1) (content ?L') = take (?i - 1) ?cs" unfolding cL' using len by simp
  have drL: "drop (Suc (?i - 1)) (content ?L') = drop ?j ?cs" unfolding cL' using len by simp
  have li: "isListItemNode ?P'" using pc(2,1) by (cases ?P) simp_all
  have ll: "isListNode ?L'" using g(3) by (cases ?L) (simp_all add: nestRange_def)
  have selnt: "\<forall>c \<in> set ?sel. \<not> isText c" using ntc by (auto dest: in_set_takeD in_set_dropD)
  have whole: "take (?i - 1) ?cs @ [?P] @ ?sel @ drop ?j ?cs = ?cs"
  proof -
    have "take (?i - 1) ?cs @ [?P] = take ?i ?cs"
      using take_pred_snoc [OF si, of ?cs] g(5,6) by simp
    moreover have "?sel @ drop ?j ?cs = drop ?i ?cs"
      using g(5) by (metis add_diff_inverse_nat drop_drop less_imp_le_nat not_less
          append_take_drop_id add.commute)
    ultimately show ?thesis by (metis append_assoc append_take_drop_id)
  qed
  have res: "rebuild (repath ?pre ?L') ?L = doc tr"
    unfolding rebuild_repath by (rule rebuild_id [OF g(1)])
  have cP': "content ?P' = content ?P @ [?NL]" using pc(1) by simp
  have cN: "content ?NL = ?sel" using ntL by simp
  have L'cp: "copy ?L' ?cs = ?L" using ntL by (simp add: nestRange_def copy_content)
  have Pcp: "copy ?P' (content ?P) = ?P" using pc(1) by (simp add: copy_content)
  show "dedentList tr' = Some (doc tr)"
    unfolding dedentList_def crN
    using a b li ll selne attachTrailing_Nil [OF selnt] res whole L'cp Pcp nD nD1 nD2 tk
      cP' cN lsel tkL drL
    by (simp add: Let_def)
qed

text \<open>
  C2 (amended). Whenever the indent succeeds on a schema-valid document with the previous
  item in a list of the selected list's type (Case A), the selection of the result lies
  in the new nested list, two levels below the selected list, and the dedent applied to
  the result gives the original document back.
\<close>

theorem indent_then_dedent:
  assumes sd: "selectionInDoc tr" and root: "\<not> isListNode (doc tr)" and ck: "check (doc tr)"
    and run: "indentList tr = Returned True tr'"
    and cr: "calculateItemRange tr = Some r"
    and fp: "findPreviousItem (selList tr r) (selFrom tr) r = Inr (Some res)"
    and ty: "typeOf (previousList res) = typeOf (selList tr r)"
  shows "calculateItemRange tr' =
           Some \<lparr>rangeFrom = selFrom tr', rangeTo = selTo tr', rangeDepth = rangeDepth r + 2\<rparr> \<and>
         dedentList tr' = Some (doc tr)"
proof -
  note c = indent_caseA_result [OF sd root ck run cr fp ty]
  from dedent_after_nest [OF sd root ck cr c(1) c(2) c(5) c(6)] show ?thesis by simp
qed

section \<open>The scenario of the simple indent\<close>

text \<open>
  C1. In the document of three items, with the cursor anywhere in the text of item 2
  (positions 13 to 19), the command succeeds for every list kind of the tests. The
  resulting document nests item 2 as the only item of a new list of the same kind
  inside item 1 and keeps item 3 as a sibling. The cursor keeps its position, which in
  the new document lies in the paragraph of item 2 at the same offset.
\<close>

theorem indent_second_of_three:
  assumes "13 \<le> c" and "c \<le> 19"
  shows "\<exists>tr'. indentList (editorWith (threeItems k) c c) = Returned True tr' \<and>
           doc tr' = secondNested k \<and> anchor tr' = c \<and> head tr' = c \<and>
           nodeAt (resolvePos (doc tr') c) 4 = itemOf k [p ''item 2''] \<and>
           parent (resolvePos (doc tr') c) = p ''item 2'' \<and>
           parentOffset (resolvePos (doc tr') c) = c - 13"
proof -
  have c: "c \<in> set [13, 14, 15, 16, 17, 18, 19]"
    using assms by (simp; arith)
  have run: "\<And>c. c \<in> set [13, 14, 15, 16, 17, 18, 19] \<Longrightarrow>
      indentList (editorWith (threeItems k) c c) =
        Returned True
          \<lparr>doc = secondNested k,
           steps = [ReplaceAroundStep 10 20 11 21
                      \<lparr>sliceContent = [listOf k []], openStart = 0, openEnd = 0\<rparr> 1],
           mapping = [[(10, 1, 1), (21, - 1, 1)]], anchor = c, head = c\<rparr>"
    by (cases k; simp; elim disjE; simp only:; code_simp)
  have cursor: "\<And>c. c \<in> set [13, 14, 15, 16, 17, 18, 19] \<Longrightarrow>
      nodeAt (resolvePos (secondNested k) c) 4 = itemOf k [p ''item 2''] \<and>
      parent (resolvePos (secondNested k) c) = p ''item 2'' \<and>
      parentOffset (resolvePos (secondNested k) c) = c - 13"
    by (cases k; simp; elim disjE; simp only:; code_simp)
  show ?thesis
    using run [OF c] cursor [OF c] by simp
qed

theorem indent_second_of_three_witness:
  "(13::nat) \<le> 13 \<and> (13::nat) \<le> 19 \<and>
   (\<exists>tr'. indentList (editorWith (threeItems TaskCheckedKind) 13 13) = Returned True tr' \<and>
      doc tr' = secondNested TaskCheckedKind \<and> anchor tr' = 13 \<and> head tr' = 13 \<and>
      nodeAt (resolvePos (doc tr') 13) 4 = itemOf TaskCheckedKind [p ''item 2''] \<and>
      parent (resolvePos (doc tr') 13) = p ''item 2'' \<and>
      parentOffset (resolvePos (doc tr') 13) = 13 - 13)"
  using indent_second_of_three [of 13 TaskCheckedKind] by simp

section \<open>Witnesses at the documents of the tests\<close>

definition firstItemCursor :: transaction where
  "firstItemCursor = editorWith (threeItems OrderedKind) 3 3"

definition plainParagraphCursor :: transaction where
  "plainParagraphCursor = editorWith (docNode [p ''Content before'', ul [li [p ''item 1'']]]) 4 4"

theorem indent_first_item_fails_witness:
  "(selectionInDoc firstItemCursor \<and> \<not> isListNode (doc firstItemCursor) \<and>
    (\<exists>r. calculateItemRange firstItemCursor = Some r \<and> noPreviousList firstItemCursor r) \<and>
    indentList firstItemCursor = Returned False firstItemCursor) \<and>
   (selectionInDoc plainParagraphCursor \<and> \<not> isListNode (doc plainParagraphCursor) \<and>
    calculateItemRange plainParagraphCursor = None \<and>
    indentList plainParagraphCursor = Returned False plainParagraphCursor)"
proof -
  have a: "selectionInDoc firstItemCursor" "\<not> isListNode (doc firstItemCursor)"
    by code_simp+
  have "case calculateItemRange firstItemCursor of None \<Rightarrow> False
        | Some r \<Rightarrow> noPreviousList firstItemCursor r"
    by code_simp
  then have b: "\<exists>r. calculateItemRange firstItemCursor = Some r \<and> noPreviousList firstItemCursor r"
    by (cases "calculateItemRange firstItemCursor") auto
  have c: "selectionInDoc plainParagraphCursor" "\<not> isListNode (doc plainParagraphCursor)"
    "calculateItemRange plainParagraphCursor = None"
    by code_simp+
  show ?thesis
    using a b c indent_first_item_fails [of firstItemCursor]
      indent_first_item_fails [of plainParagraphCursor]
    by blast
qed

definition secondItemCursor :: transaction where
  "secondItemCursor = editorWith (threeItems UnorderedKind) 13 13"

theorem findPreviousItem_spec_witness:
  "selectionInDoc secondItemCursor \<and> \<not> isListNode (doc secondItemCursor) \<and>
   everyListHasItem (doc secondItemCursor) \<and>
   (\<exists>r res. calculateItemRange secondItemCursor = Some r \<and>
      findPreviousItem (nodeAt (selFrom secondItemCursor) (rangeDepth r)) (selFrom secondItemCursor) r =
        Inr res \<and>
      map_option previousItem res = previousItemSpec (selFrom secondItemCursor) r \<and>
      previousItemSpec (selFrom secondItemCursor) r = Some (li [p ''item 1'']))"
proof -
  have a: "selectionInDoc secondItemCursor" "\<not> isListNode (doc secondItemCursor)"
    "everyListHasItem (doc secondItemCursor)"
    by code_simp+
  have "case calculateItemRange secondItemCursor of None \<Rightarrow> False
        | Some r \<Rightarrow> previousItemSpec (selFrom secondItemCursor) r = Some (li [p ''item 1''])"
    by code_simp
  then obtain r where r: "calculateItemRange secondItemCursor = Some r"
    "previousItemSpec (selFrom secondItemCursor) r = Some (li [p ''item 1''])"
    by (cases "calculateItemRange secondItemCursor") auto
  from findPreviousItem_spec [OF a r(1)] r a show ?thesis by blast
qed

text \<open>
  The document of the test \<^verbatim>\<open>retains positions inside the previous item\<close>: a position
  in item 1 (21) and the cursor at the start of item 2 (29) keep their order, and here
  their places.
\<close>

definition retainsPositions :: transaction where
  "retainsPositions =
     editorWith
       (docNode [p ''Content before'',
                 ul [li [p ''item 1''], li [p ''item 2''], li [p ''item 3'']],
                 p ''Content after''])
       29 29"

definition retainsPositionsIndented :: transaction where
  "retainsPositionsIndented =
     \<lparr>doc = docNode [p ''Content before'',
                     ul [li [p ''item 1'', ul [li [p ''item 2'']]], li [p ''item 3'']],
                     p ''Content after''],
      steps = [ReplaceAroundStep 26 36 27 37
                 \<lparr>sliceContent = [ul []], openStart = 0, openEnd = 0\<rparr> 1],
      mapping = [[(26, 1, 1), (37, - 1, 1)]], anchor = 29, head = 29\<rparr>"

theorem indent_mapping_monotone_witness:
  "indentList retainsPositions = Returned True retainsPositionsIndented \<and>
   (\<exists>ms. mapping retainsPositionsIndented = mapping retainsPositions @ ms \<and>
      (\<forall>p1 p2. p1 < p2 \<longrightarrow> mappingMap ms p1 \<le> mappingMap ms p2)) \<and>
   mappingMap (mapping retainsPositionsIndented) 21 = 21 \<and>
   mappingMap (mapping retainsPositionsIndented) 29 = 29"
proof -
  have run: "indentList retainsPositions = Returned True retainsPositionsIndented"
    by code_simp
  have m: "mappingMap (mapping retainsPositionsIndented) 21 = 21"
    "mappingMap (mapping retainsPositionsIndented) 29 = 29"
    by code_simp+
  show ?thesis
    using run m indent_mapping_monotone [OF run] by blast
qed


section \<open>A nested list that exists already\<close>

text \<open>
  Item 1 holds a nested list already. Indenting item 2 wraps it in a list of its own,
  appended after the nested list of item 1; the two lists are not joined.
\<close>

definition existingNested :: transaction where
  "existingNested =
     editorWith
       (docNode [ul [li [p ''item 1'', ul [li [p ''a'']]], li [p ''item 2''], li [p ''item 3'']]])
       20 20"

definition existingNestedIndented :: node where
  "existingNestedIndented =
     docNode [ul [li [p ''item 1'', ul [li [p ''a'']], ul [li [p ''item 2'']]], li [p ''item 3'']]]"

definition existingNestedSpliced :: node where
  "existingNestedSpliced =
     docNode [ul [li [p ''item 1'', ul [li [p ''a''], li [p ''item 2'']]], li [p ''item 3'']]]"

theorem indent_does_not_splice_counterexample:
  "indentList existingNested =
     Returned True
       \<lparr>doc = existingNestedIndented,
        steps = [ReplaceAroundStep 17 27 18 28
                   \<lparr>sliceContent = [ul []], openStart = 0, openEnd = 0\<rparr> 1],
        mapping = [[(17, 1, 1), (28, - 1, 1)]], anchor = 20, head = 20\<rparr> \<and>
   existingNestedIndented \<noteq> existingNestedSpliced"
  by code_simp

theorem indent_same_list_wraps_in_new_list_witness:
  "selectionInDoc existingNested \<and> \<not> isListNode (doc existingNested) \<and>
   check (doc existingNested) \<and>
   (\<exists>r. calculateItemRange existingNested = Some r \<and> 1 \<le> startIndex r \<and>
      (\<exists>res tr'.
         findPreviousItem (selList existingNested r) (selFrom existingNested) r = Inr (Some res) \<and>
         previousList res = selList existingNested r \<and>
         previousItem res = content (selList existingNested r) ! (startIndex r - 1) \<and>
         indentList existingNested = Returned True tr' \<and>
         doc tr' = rebuild (listPre existingNested r)
                     (nestRange (selList existingNested r) (startIndex r) (endIndex r)) \<and>
         check (doc tr') \<and> doc tr' = existingNestedIndented))"
proof -
  have a: "selectionInDoc existingNested" "\<not> isListNode (doc existingNested)"
    "check (doc existingNested)"
    by code_simp+
  have "case calculateItemRange existingNested of
      None \<Rightarrow> False | Some r \<Rightarrow> 1 \<le> startIndex r"
    by code_simp
  then obtain r where cr: "calculateItemRange existingNested = Some r"
    and si: "1 \<le> startIndex r"
    by (cases "calculateItemRange existingNested") auto
  from indent_same_list_wraps_in_new_list [OF a cr si] obtain res tr' where
    w: "findPreviousItem (selList existingNested r) (selFrom existingNested) r = Inr (Some res)"
      "previousList res = selList existingNested r"
      "previousItem res = content (selList existingNested r) ! (startIndex r - 1)"
      "indentList existingNested = Returned True tr'"
      "doc tr' = rebuild (listPre existingNested r)
                   (nestRange (selList existingNested r) (startIndex r) (endIndex r))"
      "check (doc tr')"
    by blast
  have "case indentList existingNested of
      Returned b t \<Rightarrow> doc t = existingNestedIndented
    | Thrown er t \<Rightarrow> False"
    by code_simp
  with w(4) have d: "doc tr' = existingNestedIndented" by simp
  from a cr si w d show ?thesis by blast
qed

section \<open>The selection after the indent\<close>

text \<open>
  A selection made backwards (the head before the anchor) comes out forwards, and a
  head that sits on the end of the range stays where it is although the map of the step
  moves that position behind the new list.
\<close>

definition backwardSelection :: transaction where
  "backwardSelection = editorWith (threeItems UnorderedKind) 16 13"

definition headOnRangeEnd :: transaction where
  "headOnRangeEnd = editorWith (docNode [ul [li [p ''a''], li [p ''b'']]]) 6 11"

theorem indent_selection_not_mapped_counterexample:
  "indentList backwardSelection =
     Returned True
       \<lparr>doc = secondNested UnorderedKind,
        steps = [ReplaceAroundStep 10 20 11 21
                   \<lparr>sliceContent = [ul []], openStart = 0, openEnd = 0\<rparr> 1],
        mapping = [[(10, 1, 1), (21, - 1, 1)]], anchor = 13, head = 16\<rparr> \<and>
   anchor backwardSelection = 16 \<and> head backwardSelection = 13 \<and>
   mappingMap [[(10, 1, 1), (21, - 1, 1)]] 16 = 16 \<and>
   mappingMap [[(10, 1, 1), (21, - 1, 1)]] 13 = 13 \<and>
   indentList headOnRangeEnd =
     Returned True
       \<lparr>doc = docNode [ul [li [p ''a'', ul [li [p ''b'']]]]],
        steps = [ReplaceAroundStep 5 10 6 11
                   \<lparr>sliceContent = [ul []], openStart = 0, openEnd = 0\<rparr> 1],
        mapping = [[(5, 1, 1), (11, - 1, 1)]], anchor = 6, head = 11\<rparr> \<and>
   mappingMap [[(5, 1, 1), (11, - 1, 1)]] 11 = 13"
  by code_simp

definition bulletSecondCursor :: transaction where
  "bulletSecondCursor = editorWith (threeItems UnorderedKind) 13 13"

definition taskAfterBullet :: transaction where
  "taskAfterBullet =
     editorWith (docNode [ul [li [p ''a'']], taskList [checkedItem [p ''b'']]]) 10 10"

theorem indent_selection_witness:
  "(selectionInDoc bulletSecondCursor \<and> \<not> isListNode (doc bulletSecondCursor) \<and>
    check (doc bulletSecondCursor) \<and>
    (\<exists>tr' r res. indentList bulletSecondCursor = Returned True tr' \<and>
       calculateItemRange bulletSecondCursor = Some r \<and>
       findPreviousItem (selList bulletSecondCursor r) (selFrom bulletSecondCursor) r = Inr (Some res) \<and>
       sameList bulletSecondCursor r res \<and> anchor tr' = 13 \<and> head tr' = 13 \<and>
       mappingMap [getMap (caseAStep (selList bulletSecondCursor r) r)] 13 = 13)) \<and>
   (selectionInDoc taskAfterBullet \<and> \<not> isListNode (doc taskAfterBullet) \<and>
    check (doc taskAfterBullet) \<and>
    (\<exists>tr' r res. indentList taskAfterBullet = Returned True tr' \<and>
       calculateItemRange taskAfterBullet = Some r \<and>
       findPreviousItem (selList taskAfterBullet r) (selFrom taskAfterBullet) r = Inr (Some res) \<and>
       typeOf (previousList res) \<noteq> typeOf (selList taskAfterBullet r) \<and>
       anchor tr' = 8 \<and> head tr' = 8 \<and>
       landsNested (doc taskAfterBullet) (doc tr') res (selList taskAfterBullet r)
         (rangeStart r) 10))"
proof -
  have a: "selectionInDoc bulletSecondCursor" "\<not> isListNode (doc bulletSecondCursor)"
    "check (doc bulletSecondCursor)"
    by code_simp+
  have "case indentList bulletSecondCursor of Returned b t \<Rightarrow> b | Thrown er t \<Rightarrow> False"
    by code_simp
  then obtain tra where runa: "indentList bulletSecondCursor = Returned True tra"
    by (cases "indentList bulletSecondCursor") auto
  have pa: "pos (selFrom bulletSecondCursor) = 13" "pos (selTo bulletSecondCursor) = 13"
    by code_simp+
  from indent_selection [OF a runa] obtain r res where
    ra: "calculateItemRange bulletSecondCursor = Some r"
      "findPreviousItem (selList bulletSecondCursor r) (selFrom bulletSecondCursor) r = Inr (Some res)"
      "sameList bulletSecondCursor r res \<longrightarrow>
         anchor tra = pos (selFrom bulletSecondCursor) \<and>
         head tra = pos (selTo bulletSecondCursor) \<and>
         mapping tra = mapping bulletSecondCursor @
           [getMap (caseAStep (selList bulletSecondCursor r) r)] \<and>
         (\<forall>q < int (rangeEnd r).
            mappingMap [getMap (caseAStep (selList bulletSecondCursor r) r)] q = q)"
    by blast
  have "case calculateItemRange bulletSecondCursor of
      None \<Rightarrow> False
    | Some r \<Rightarrow>
      13 < rangeEnd r \<and>
      (case findPreviousItem (selList bulletSecondCursor r) (selFrom bulletSecondCursor) r of
         Inr (Some res) \<Rightarrow> sameList bulletSecondCursor r res
       | _ \<Rightarrow> False)"
    by code_simp
  with ra(1,2) have sla: "sameList bulletSecondCursor r res" and rea: "13 < rangeEnd r"
    by simp_all
  from ra(3) sla have fa: "anchor tra = pos (selFrom bulletSecondCursor)"
    "head tra = pos (selTo bulletSecondCursor)"
    "\<forall>q < int (rangeEnd r).
       mappingMap [getMap (caseAStep (selList bulletSecondCursor r) r)] q = q"
    by simp_all
  have ma: "mappingMap [getMap (caseAStep (selList bulletSecondCursor r) r)] 13 = 13"
    using fa(3) rea by simp
  have first: "\<exists>tr' r res. indentList bulletSecondCursor = Returned True tr' \<and>
       calculateItemRange bulletSecondCursor = Some r \<and>
       findPreviousItem (selList bulletSecondCursor r) (selFrom bulletSecondCursor) r = Inr (Some res) \<and>
       sameList bulletSecondCursor r res \<and> anchor tr' = 13 \<and> head tr' = 13 \<and>
       mappingMap [getMap (caseAStep (selList bulletSecondCursor r) r)] 13 = 13"
    using runa ra(1,2) sla fa(1,2) pa ma
    by (intro exI [of _ tra] exI [of _ r] exI [of _ res]) (simp del: selFrom_simps)
  have b: "selectionInDoc taskAfterBullet" "\<not> isListNode (doc taskAfterBullet)"
    "check (doc taskAfterBullet)"
    by code_simp+
  have "case indentList taskAfterBullet of Returned b t \<Rightarrow> b | Thrown er t \<Rightarrow> False"
    by code_simp
  then obtain trb where runb: "indentList taskAfterBullet = Returned True trb"
    by (cases "indentList taskAfterBullet") auto
  have pb: "pos (selFrom taskAfterBullet) = 10" "pos (selTo taskAfterBullet) = 10"
    by code_simp+
  from indent_selection [OF b runb] obtain r2 res2 where
    rb: "calculateItemRange taskAfterBullet = Some r2"
      "findPreviousItem (selList taskAfterBullet r2) (selFrom taskAfterBullet) r2 = Inr (Some res2)"
      "typeOf (previousList res2) \<noteq> typeOf (selList taskAfterBullet r2) \<longrightarrow>
         int (anchor trb) = int (pos (selFrom taskAfterBullet)) - 2 \<and>
         int (head trb) = int (pos (selTo taskAfterBullet)) - 2 \<and>
         previousItemStart res2 + int (fragSize (content (previousItem res2))) + 3 =
           int (rangeStart r2) \<and>
         landsNested (doc taskAfterBullet) (doc trb) res2 (selList taskAfterBullet r2)
           (rangeStart r2) (pos (selTo taskAfterBullet))"
    by blast
  have "case calculateItemRange taskAfterBullet of
      None \<Rightarrow> False
    | Some r \<Rightarrow>
      (case findPreviousItem (selList taskAfterBullet r) (selFrom taskAfterBullet) r of
         Inr (Some res) \<Rightarrow> typeOf (previousList res) \<noteq> typeOf (selList taskAfterBullet r)
       | _ \<Rightarrow> False)"
    by code_simp
  with rb(1,2) have tyb: "typeOf (previousList res2) \<noteq> typeOf (selList taskAfterBullet r2)"
    by simp
  from rb(3) tyb have fb: "int (anchor trb) = int (pos (selFrom taskAfterBullet)) - 2"
    "int (head trb) = int (pos (selTo taskAfterBullet)) - 2"
    "landsNested (doc taskAfterBullet) (doc trb) res2 (selList taskAfterBullet r2)
       (rangeStart r2) (pos (selTo taskAfterBullet))"
    by simp_all
  have second: "\<exists>tr' r res. indentList taskAfterBullet = Returned True tr' \<and>
       calculateItemRange taskAfterBullet = Some r \<and>
       findPreviousItem (selList taskAfterBullet r) (selFrom taskAfterBullet) r = Inr (Some res) \<and>
       typeOf (previousList res) \<noteq> typeOf (selList taskAfterBullet r) \<and>
       anchor tr' = 8 \<and> head tr' = 8 \<and>
       landsNested (doc taskAfterBullet) (doc tr') res (selList taskAfterBullet r)
         (rangeStart r) 10"
    using runb rb(1,2) tyb fb pb
    by (intro exI [of _ trb] exI [of _ r2] exI [of _ res2]) (simp del: selFrom_simps)
  show ?thesis using a b first second by blast
qed

section \<open>A previous item that is malformed\<close>

text \<open>
  The previous list holds an item without content, and the list after it is of
  another type. The rebuilt item has no leading paragraph; the check that rejects it
  runs after the selected range has been deleted from the transaction.
\<close>

definition emptyPrevious :: transaction where
  "emptyPrevious = editorWith (docNode [ul [li []], taskList [checkedItem [p ''b'']]]) 7 7"

definition topLevelFirst :: transaction where
  "topLevelFirst = editorWith (docNode [ol [li [p ''a''], li [p ''b'']]]) 3 3"

theorem check_after_delete_counterexample:
  "indentList emptyPrevious =
     Thrown RangeError
       \<lparr>doc = docNode [ul [li []]],
        steps = [ReplaceStep 4 11 emptySlice],
        mapping = [[(4, 7, 0)]], anchor = 7, head = 7\<rparr> \<and>
   steps emptyPrevious = []"
  by code_simp

theorem indent_invalid_item_raises_witness:
  "(\<exists>rng res sel unsel.
      calculateItemRange emptyPrevious = Some rng \<and>
      isListNode (parent (resolvePos (doc emptyPrevious) (rangeStart rng))) \<and>
      findPreviousItem (parent (resolvePos (doc emptyPrevious) (rangeStart rng)))
        (selFrom emptyPrevious) rng = Inr (Some res) \<and>
      typeOf (previousList res) \<noteq> typeOf (parent (resolvePos (doc emptyPrevious) (rangeStart rng))) \<and>
      sliceSelectedItems (doc emptyPrevious) (selTo emptyPrevious) rng = Inr (sel, unsel) \<and>
      \<not> check (rebuiltItem res (parent (resolvePos (doc emptyPrevious) (rangeStart rng))) sel unsel)) \<and>
   (\<exists>er tr2. indentList emptyPrevious = Thrown er tr2) \<and>
   indentList topLevelFirst = Returned False topLevelFirst"
proof -
  have "case calculateItemRange emptyPrevious of
      None \<Rightarrow> False
    | Some rng \<Rightarrow>
      isListNode (parent (resolvePos (doc emptyPrevious) (rangeStart rng))) \<and>
      (case findPreviousItem (parent (resolvePos (doc emptyPrevious) (rangeStart rng)))
              (selFrom emptyPrevious) rng of
         Inl er \<Rightarrow> False
       | Inr None \<Rightarrow> False
       | Inr (Some res) \<Rightarrow>
           typeOf (previousList res) \<noteq> typeOf (parent (resolvePos (doc emptyPrevious) (rangeStart rng))) \<and>
           (case sliceSelectedItems (doc emptyPrevious) (selTo emptyPrevious) rng of
              Inl er \<Rightarrow> False
            | Inr (sel, unsel) \<Rightarrow>
                \<not> check (rebuiltItem res (parent (resolvePos (doc emptyPrevious) (rangeStart rng)))
                           sel unsel)))"
    by code_simp
  then obtain rng where h1: "calculateItemRange emptyPrevious = Some rng"
    and h2: "isListNode (parent (resolvePos (doc emptyPrevious) (rangeStart rng)))"
    and r1: "case findPreviousItem (parent (resolvePos (doc emptyPrevious) (rangeStart rng)))
              (selFrom emptyPrevious) rng of
         Inl er \<Rightarrow> False
       | Inr None \<Rightarrow> False
       | Inr (Some res) \<Rightarrow>
           typeOf (previousList res) \<noteq> typeOf (parent (resolvePos (doc emptyPrevious) (rangeStart rng))) \<and>
           (case sliceSelectedItems (doc emptyPrevious) (selTo emptyPrevious) rng of
              Inl er \<Rightarrow> False
            | Inr (sel, unsel) \<Rightarrow>
                \<not> check (rebuiltItem res (parent (resolvePos (doc emptyPrevious) (rangeStart rng)))
                           sel unsel))"
    by (cases "calculateItemRange emptyPrevious") auto
  from r1 obtain res where
    h3: "findPreviousItem (parent (resolvePos (doc emptyPrevious) (rangeStart rng)))
              (selFrom emptyPrevious) rng = Inr (Some res)"
    and h4: "typeOf (previousList res) \<noteq>
               typeOf (parent (resolvePos (doc emptyPrevious) (rangeStart rng)))"
    and r2: "case sliceSelectedItems (doc emptyPrevious) (selTo emptyPrevious) rng of
              Inl er \<Rightarrow> False
            | Inr (sel, unsel) \<Rightarrow>
                \<not> check (rebuiltItem res (parent (resolvePos (doc emptyPrevious) (rangeStart rng)))
                           sel unsel)"
    by (cases "findPreviousItem (parent (resolvePos (doc emptyPrevious) (rangeStart rng)))
              (selFrom emptyPrevious) rng")
       (auto split: option.splits)
  from r2 obtain sel unsel where
    h5: "sliceSelectedItems (doc emptyPrevious) (selTo emptyPrevious) rng = Inr (sel, unsel)"
    and h6: "\<not> check (rebuiltItem res
              (parent (resolvePos (doc emptyPrevious) (rangeStart rng))) sel unsel)"
    by (cases "sliceSelectedItems (doc emptyPrevious) (selTo emptyPrevious) rng") auto
  have f: "indentList topLevelFirst = Returned False topLevelFirst"
    by code_simp
  have t: "\<exists>er tr2. indentList emptyPrevious = Thrown er tr2"
    using indent_invalid_item_raises [OF h1 h2 h3 h4 h5 h6, of topLevelFirst topLevelFirst]
    by (rule conjunct1)
  show ?thesis
    by (intro conjI exI [of _ rng] exI [of _ res] exI [of _ sel] exI [of _ unsel])
       (rule h1 h2 h3 h4 h5 h6 t f)+
qed


section \<open>A whole list moved under the item before it\<close>

definition orderedAfterBullet :: transaction where
  "orderedAfterBullet = editorWith (docNode [ul [li [p ''a'']], ol [li [p ''b'']]]) 10 10"

theorem indent_keeps_lists_nonempty_witness:
  "selectionInDoc orderedAfterBullet \<and> \<not> isListNode (doc orderedAfterBullet) \<and>
   check (doc orderedAfterBullet) \<and>
   indentList orderedAfterBullet =
     Returned True
       \<lparr>doc = docNode [ul [li [p ''a'', ol [li [p ''b'']]]]],
        steps = [ReplaceStep 7 14 emptySlice,
                 ReplaceStep 1 6 \<lparr>sliceContent = [li [p ''a'', ol [li [p ''b'']]]],
                                   openStart = 0, openEnd = 0\<rparr>],
        mapping = [[(7, 7, 0)], [(1, 5, 12)]], anchor = 8, head = 8\<rparr> \<and>
   everyListHasItem (docNode [ul [li [p ''a'', ol [li [p ''b'']]]]]) \<and>
   check (docNode [ul [li [p ''a'', ol [li [p ''b'']]]]])"
proof -
  have a: "selectionInDoc orderedAfterBullet" "\<not> isListNode (doc orderedAfterBullet)"
    "check (doc orderedAfterBullet)"
    by code_simp+
  have run: "indentList orderedAfterBullet =
     Returned True
       \<lparr>doc = docNode [ul [li [p ''a'', ol [li [p ''b'']]]]],
        steps = [ReplaceStep 7 14 emptySlice,
                 ReplaceStep 1 6 \<lparr>sliceContent = [li [p ''a'', ol [li [p ''b'']]]],
                                   openStart = 0, openEnd = 0\<rparr>],
        mapping = [[(7, 7, 0)], [(1, 5, 12)]], anchor = 8, head = 8\<rparr>"
    by code_simp
  from indent_keeps_lists_nonempty [OF a run] a run show ?thesis by simp
qed


section \<open>A list between two paragraphs\<close>

definition betweenParagraphs :: transaction where
  "betweenParagraphs =
     editorWith (docNode [p ''x'', ul [li [p ''a''], li [p ''b''], li [p ''c'']], p ''y'']) 11 11"

theorem indent_frame_witness:
  "selectionInDoc betweenParagraphs \<and> \<not> isListNode (doc betweenParagraphs) \<and>
   check (doc betweenParagraphs) \<and>
   (\<exists>tr' r res. indentList betweenParagraphs = Returned True tr' \<and>
      calculateItemRange betweenParagraphs = Some r \<and>
      findPreviousItem (selList betweenParagraphs r) (selFrom betweenParagraphs) r = Inr (Some res) \<and>
      previousItemStart res = 5 \<and> rangeEnd r = 14 \<and>
      sameBefore (doc betweenParagraphs) (doc tr') 5 \<and>
      sameAfter (doc betweenParagraphs) (doc tr') 14 \<and>
      copy (doc tr') [] = copy (doc betweenParagraphs) [])"
proof -
  have a: "selectionInDoc betweenParagraphs" "\<not> isListNode (doc betweenParagraphs)"
    "check (doc betweenParagraphs)"
    by code_simp+
  have "case indentList betweenParagraphs of Returned b t \<Rightarrow> b | Thrown er t \<Rightarrow> False"
    by code_simp
  then obtain tr' where run: "indentList betweenParagraphs = Returned True tr'"
    by (cases "indentList betweenParagraphs") auto
  from indent_frame [OF a run] obtain r res where
    w: "calculateItemRange betweenParagraphs = Some r"
      "findPreviousItem (selList betweenParagraphs r) (selFrom betweenParagraphs) r = Inr (Some res)"
      "sameBefore (doc betweenParagraphs) (doc tr') (nat (previousItemStart res))"
      "sameAfter (doc betweenParagraphs) (doc tr') (rangeEnd r)"
      "copy (doc tr') [] = copy (doc betweenParagraphs) []"
    by blast
  have "case calculateItemRange betweenParagraphs of
      None \<Rightarrow> False
    | Some r \<Rightarrow>
      rangeEnd r = 14 \<and>
      (case findPreviousItem (selList betweenParagraphs r) (selFrom betweenParagraphs) r of
         Inr (Some res) \<Rightarrow> previousItemStart res = 5
       | _ \<Rightarrow> False)"
    by code_simp
  with w(1,2) have v: "rangeEnd r = 14" "previousItemStart res = 5" by simp_all
  from w(3,4) v have "sameBefore (doc betweenParagraphs) (doc tr') 5"
    "sameAfter (doc betweenParagraphs) (doc tr') 14" by simp_all
  with a run w(1,2,5) v show ?thesis by blast
qed


section \<open>Indent followed by dedent\<close>

text \<open>
  The only item of an ordered list is indented under the last item of the bullet list
  before it. The dedent lifts the item into the bullet list, where the item that holds
  it lies; the ordered list does not come back.
\<close>

definition orderedSecond :: transaction where
  "orderedSecond = editorWith (docNode [ul [li [p ''a'']], ol [li [p ''b'']]]) 10 10"

theorem round_trip_counterexample:
  "indentList orderedSecond =
     Returned True
       \<lparr>doc = docNode [ul [li [p ''a'', ol [li [p ''b'']]]]],
        steps = [ReplaceStep 7 14 emptySlice,
                 ReplaceStep 1 6 \<lparr>sliceContent = [li [p ''a'', ol [li [p ''b'']]]],
                                   openStart = 0, openEnd = 0\<rparr>],
        mapping = [[(7, 7, 0)], [(1, 5, 12)]], anchor = 8, head = 8\<rparr> \<and>
   dedentList
       \<lparr>doc = docNode [ul [li [p ''a'', ol [li [p ''b'']]]]],
        steps = [ReplaceStep 7 14 emptySlice,
                 ReplaceStep 1 6 \<lparr>sliceContent = [li [p ''a'', ol [li [p ''b'']]]],
                                   openStart = 0, openEnd = 0\<rparr>],
        mapping = [[(7, 7, 0)], [(1, 5, 12)]], anchor = 8, head = 8\<rparr> =
     Some (docNode [ul [li [p ''a''], li [p ''b'']]]) \<and>
   docNode [ul [li [p ''a''], li [p ''b'']]] \<noteq> doc orderedSecond"
  by code_simp

definition twoOfFour :: transaction where
  "twoOfFour =
     editorWith (docNode [ol [li [p ''a''], li [p ''b''], li [p ''c''], li [p ''d'']]]) 9 13"

theorem indent_then_dedent_witness:
  "selectionInDoc twoOfFour \<and> \<not> isListNode (doc twoOfFour) \<and> check (doc twoOfFour) \<and>
   (\<exists>tr' r res. indentList twoOfFour = Returned True tr' \<and>
      calculateItemRange twoOfFour = Some r \<and>
      findPreviousItem (selList twoOfFour r) (selFrom twoOfFour) r = Inr (Some res) \<and>
      typeOf (previousList res) = typeOf (selList twoOfFour r) \<and>
      doc tr' = docNode [ol [li [p ''a'', ol [li [p ''b''], li [p ''c'']]], li [p ''d'']]] \<and>
      rangeDepth r = 1 \<and>
      calculateItemRange tr' =
        Some \<lparr>rangeFrom = selFrom tr', rangeTo = selTo tr', rangeDepth = 3\<rparr> \<and>
      dedentList tr' = Some (doc twoOfFour))"
proof -
  have a: "selectionInDoc twoOfFour" "\<not> isListNode (doc twoOfFour)" "check (doc twoOfFour)"
    by code_simp+
  have "case indentList twoOfFour of
      Returned b t \<Rightarrow>
        b \<and> doc t = docNode [ol [li [p ''a'', ol [li [p ''b''], li [p ''c'']]], li [p ''d'']]]
    | Thrown er t \<Rightarrow> False"
    by code_simp
  then obtain tr' where run: "indentList twoOfFour = Returned True tr'"
    and d: "doc tr' = docNode [ol [li [p ''a'', ol [li [p ''b''], li [p ''c'']]], li [p ''d'']]]"
    by (cases "indentList twoOfFour") auto
  have "case calculateItemRange twoOfFour of
      None \<Rightarrow> False
    | Some r \<Rightarrow>
      rangeDepth r = 1 \<and>
      (case findPreviousItem (selList twoOfFour r) (selFrom twoOfFour) r of
         Inl er \<Rightarrow> False
       | Inr None \<Rightarrow> False
       | Inr (Some res) \<Rightarrow> typeOf (previousList res) = typeOf (selList twoOfFour r))"
    by code_simp
  then obtain r where cr: "calculateItemRange twoOfFour = Some r" and rd: "rangeDepth r = 1"
    and x: "case findPreviousItem (selList twoOfFour r) (selFrom twoOfFour) r of
         Inl er \<Rightarrow> False
       | Inr None \<Rightarrow> False
       | Inr (Some res) \<Rightarrow> typeOf (previousList res) = typeOf (selList twoOfFour r)"
    by (cases "calculateItemRange twoOfFour") auto
  then obtain res where
    fp: "findPreviousItem (selList twoOfFour r) (selFrom twoOfFour) r = Inr (Some res)"
    and ty: "typeOf (previousList res) = typeOf (selList twoOfFour r)"
    by (auto split: sum.splits option.splits)
  from indent_then_dedent [OF a run cr fp ty] rd have
    w: "calculateItemRange tr' =
          Some \<lparr>rangeFrom = selFrom tr', rangeTo = selTo tr', rangeDepth = 3\<rparr>"
      "dedentList tr' = Some (doc twoOfFour)"
    by simp_all
  from a run cr fp ty d rd w show ?thesis by blast
qed

end
